(* ===== verification/Dh_Prelude.thy ===== *)
theory Dh_Prelude
  imports "HOL-Library.Word"
begin

unbundle bit_operations_syntax

text \<open>
  Shared vocabulary of the development.

  \<^item> Machine integers: the Rust types \<open>u8\<close> to \<open>u128\<close> are words of that width; \<open>usize\<close>
    values that are only lengths and offsets of byte buffers are natural numbers (a Rust
    allocation never exceeds \<open>isize::MAX\<close>, so these sums cannot wrap).
  \<^item> Results: \<open>('a, 'e) res\<close> is Rust's \<open>Result\<close> with a third constructor \<open>Panic\<close> for a
    failed slice index, \<open>unwrap\<close> or \<open>expect\<close>. A theorem that a function does not panic is
    therefore a theorem about the value it returns.
  \<^item> Bytes: little-endian conversion of words (\<open>to_le_bytes\<close>, \<open>from_le_bytes\<close>), checked
    slices (\<open>&b[i..j]\<close>) and in-place copies (\<open>copy_from_slice\<close>).
  \<^item> The collections \<open>wire\<close> (layout facts: lengths and slices of encodings) and
    \<open>res_simps\<close> (evaluation of result-valued code) that the component proofs pass to the
    simplifier.
\<close>

named_theorems wire \<open>lengths and slices of encoded bytes\<close>
named_theorems res_simps \<open>evaluation of result-valued code\<close>

section \<open>Machine integers\<close>

type_synonym byte = "8 word"
type_synonym u8 = "8 word"
type_synonym u16 = "16 word"
type_synonym u32 = "32 word"
type_synonym u64 = "64 word"
type_synonym u128 = "128 word"

abbreviation u64_max :: u64 where "u64_max \<equiv> 18446744073709551615"

definition checked_add :: "'a::len word \<Rightarrow> 'a word \<Rightarrow> 'a word option" where
  "checked_add a b = (if unat a + unat b < 2 ^ LENGTH('a) then Some (a + b) else None)"

definition checked_mul :: "'a::len word \<Rightarrow> 'a word \<Rightarrow> 'a word option" where
  "checked_mul a b = (if unat a * unat b < 2 ^ LENGTH('a) then Some (a * b) else None)"

definition saturating_add :: "'a::len word \<Rightarrow> 'a word \<Rightarrow> 'a word" where
  "saturating_add a b = (if unat a + unat b < 2 ^ LENGTH('a) then a + b else - 1)"

text \<open>\<open>try_from\<close> of a wider unsigned value: \<open>None\<close> when it does not fit.\<close>

definition word_of_nat_opt :: "nat \<Rightarrow> 'a::len word option" where
  "word_of_nat_opt n = (if n < 2 ^ LENGTH('a) then Some (of_nat n) else None)"

lemma unat_of_nat_fits [simp]: "n < 2 ^ LENGTH('a::len) \<Longrightarrow> unat (of_nat n :: 'a word) = n"
  by (simp add: unat_of_nat take_bit_nat_eq_self)

lemma unat_lt_pow [simp]: "unat (w :: 'a::len word) < 2 ^ LENGTH('a)"
  by (rule unsigned_less)

lemma checked_add_Some_iff:
  "checked_add a b = Some c \<longleftrightarrow> unat a + unat b < 2 ^ LENGTH('a) \<and> unat c = unat a + unat b"
  for a b c :: "'a::len word"
  by (auto simp: checked_add_def unat_word_ariths word_unat_eq_iff)

lemma checked_mul_Some_iff:
  "checked_mul a b = Some c \<longleftrightarrow> unat a * unat b < 2 ^ LENGTH('a) \<and> unat c = unat a * unat b"
  for a b c :: "'a::len word"
  by (auto simp: checked_mul_def unat_word_ariths word_unat_eq_iff)

lemma word_of_nat_opt_Some_iff:
  "word_of_nat_opt n = Some (w :: 'a::len word) \<longleftrightarrow> unat w = n"
  by (auto simp: word_of_nat_opt_def)

lemma checked_add_nat: "checked_add a b = word_of_nat_opt (unat a + unat b)"
  by (simp add: checked_add_def word_of_nat_opt_def)

lemma checked_mul_nat: "checked_mul a b = word_of_nat_opt (unat a * unat b)"
  by (simp add: checked_mul_def word_of_nat_opt_def)

lemma checked_add_ge: "checked_add a b = Some c \<Longrightarrow> a \<le> c"
  by (simp add: checked_add_nat word_of_nat_opt_Some_iff word_le_nat_alt)

lemma word_of_nat_opt_None_iff:
  "word_of_nat_opt n = (None :: 'a::len word option) \<longleftrightarrow> 2 ^ LENGTH('a) \<le> n"
  by (auto simp: word_of_nat_opt_def)

section \<open>Results with panics\<close>

datatype ('a, 'e) res = Ok 'a | Err 'e | Panic

primrec res_bind :: "('a, 'e) res \<Rightarrow> ('a \<Rightarrow> ('b, 'e) res) \<Rightarrow> ('b, 'e) res" where
  "res_bind (Ok a) f = f a"
| "res_bind (Err e) f = Err e"
| "res_bind Panic f = Panic"

primrec map_err :: "('e \<Rightarrow> 'f) \<Rightarrow> ('a, 'e) res \<Rightarrow> ('a, 'f) res" where
  "map_err f (Ok a) = Ok a"
| "map_err f (Err e) = Err (f e)"
| "map_err f Panic = Panic"

text \<open>\<open>ok_or\<close> and \<open>unwrap\<close>/\<open>expect\<close> on an \<open>Option\<close>.\<close>

primrec ok_or :: "'a option \<Rightarrow> 'e \<Rightarrow> ('a, 'e) res" where
  "ok_or None e = Err e"
| "ok_or (Some a) e = Ok a"

primrec unwrap :: "'a option \<Rightarrow> ('a, 'e) res" where
  "unwrap None = Panic"
| "unwrap (Some a) = Ok a"

declare res_bind.simps [res_simps] map_err.simps [res_simps]
  ok_or.simps [res_simps] unwrap.simps [res_simps]

lemma res_bind_eq_Ok [simp]:
  "res_bind m f = Ok b \<longleftrightarrow> (\<exists>a. m = Ok a \<and> f a = Ok b)"
  by (cases m) auto

lemma res_bind_not_Panic [intro]:
  "m \<noteq> Panic \<Longrightarrow> (\<And>a. m = Ok a \<Longrightarrow> f a \<noteq> Panic) \<Longrightarrow> res_bind m f \<noteq> Panic"
  by (cases m) auto

lemma res_bind_eq_Panic:
  "res_bind m f = Panic \<longleftrightarrow> m = Panic \<or> (\<exists>a. m = Ok a \<and> f a = Panic)"
  by (cases m) auto

lemma if_not_Panic [intro]:
  "(c \<Longrightarrow> x \<noteq> Panic) \<Longrightarrow> (\<not> c \<Longrightarrow> y \<noteq> Panic) \<Longrightarrow> (if c then x else y) \<noteq> Panic"
  by simp

lemmas no_panic_intros = res_bind_not_Panic if_not_Panic

lemma map_err_eq_Ok [simp]: "map_err f m = Ok a \<longleftrightarrow> m = Ok a"
  by (cases m) auto

lemma map_err_eq_Panic [simp]: "map_err f m = Panic \<longleftrightarrow> m = Panic"
  by (cases m) auto

lemma ok_or_eq_Ok [simp]: "ok_or x e = Ok a \<longleftrightarrow> x = Some a"
  by (cases x) auto

lemma unwrap_eq_Ok [simp]: "unwrap x = Ok a \<longleftrightarrow> x = Some a"
  by (cases x) auto

lemma unwrap_eq_Err [simp]: "unwrap x \<noteq> Err e"
  by (cases x) auto

lemma unwrap_eq_Panic [simp]: "unwrap x = Panic \<longleftrightarrow> x = None"
  by (cases x) auto

lemma ok_or_not_Panic [simp]: "ok_or x e \<noteq> Panic"
  by (cases x) auto

section \<open>Little-endian bytes\<close>

primrec nat_le :: "nat \<Rightarrow> nat \<Rightarrow> byte list" where
  "nat_le 0 k = []"
| "nat_le (Suc n) k = of_nat (k mod 256) # nat_le n (k div 256)"

primrec le_nat :: "byte list \<Rightarrow> nat" where
  "le_nat [] = 0"
| "le_nat (b # bs) = unat b + 256 * le_nat bs"

definition to_le :: "'a::len word \<Rightarrow> byte list" where
  "to_le w = nat_le (LENGTH('a) div 8) (unat w)"

definition from_le :: "byte list \<Rightarrow> 'a::len word" where
  "from_le bs = of_nat (le_nat bs)"

lemma length_nat_le [simp, wire]: "length (nat_le n k) = n"
  by (induction n arbitrary: k) auto

lemma length_to_le [simp, wire]: "length (to_le (w :: 'a::len word)) = LENGTH('a) div 8"
  by (simp add: to_le_def)

lemma le_nat_bound: "le_nat bs < 256 ^ length bs"
proof (induction bs)
  case (Cons b bs)
  have "unat b < 256"
    using unsigned_less [of b] by simp
  with Cons show ?case by simp
qed simp

lemma le_nat_nat_le [simp]: "le_nat (nat_le n k) = k mod 256 ^ n"
proof (induction n arbitrary: k)
  case (Suc n)
  have "unat (of_nat (k mod 256) :: byte) = k mod 256"
    by (rule unat_of_nat_fits) simp
  then show ?case
    by (simp add: Suc mod_mult2_eq)
qed simp

lemma nat_le_le_nat: "length bs = n \<Longrightarrow> nat_le n (le_nat bs) = bs"
proof (induction bs arbitrary: n)
  case (Cons b bs)
  have "unat b < 256"
    using unsigned_less [of b] by simp
  with Cons show ?case by (cases n) auto
qed auto

lemma pow_256: "8 dvd m \<Longrightarrow> (256::nat) ^ (m div 8) = 2 ^ m"
proof -
  assume "8 dvd m"
  then obtain k where m: "m = 8 * k" ..
  have "(2::nat) ^ (8 * k) = (2 ^ 8) ^ k"
    by (rule power_mult)
  then show ?thesis
    by (simp add: m)
qed

lemma from_le_to_le:
  "8 dvd LENGTH('a::len) \<Longrightarrow> from_le (to_le (w :: 'a word)) = w"
  by (simp add: from_le_def to_le_def pow_256)

lemma to_le_from_le:
  assumes "8 dvd LENGTH('a::len)" and "length bs = LENGTH('a) div 8"
  shows "to_le (from_le bs :: 'a word) = bs"
proof -
  have "le_nat bs < 2 ^ LENGTH('a)"
    using le_nat_bound [of bs] assms by (simp add: pow_256)
  with assms show ?thesis
    by (simp add: from_le_def to_le_def nat_le_le_nat)
qed

lemma from_le_to_le_u8 [simp]: "from_le (to_le (w :: u8)) = w" by (rule from_le_to_le) simp
lemma from_le_to_le_u16 [simp]: "from_le (to_le (w :: u16)) = w" by (rule from_le_to_le) simp
lemma from_le_to_le_u32 [simp]: "from_le (to_le (w :: u32)) = w" by (rule from_le_to_le) simp
lemma from_le_to_le_u64 [simp]: "from_le (to_le (w :: u64)) = w" by (rule from_le_to_le) simp
lemma from_le_to_le_u128 [simp]: "from_le (to_le (w :: u128)) = w" by (rule from_le_to_le) simp

lemma to_le_from_le_u16 [simp]: "length bs = 2 \<Longrightarrow> to_le (from_le bs :: u16) = bs"
  by (rule to_le_from_le) simp_all
lemma to_le_from_le_u32 [simp]: "length bs = 4 \<Longrightarrow> to_le (from_le bs :: u32) = bs"
  by (rule to_le_from_le) simp_all
lemma to_le_from_le_u64 [simp]: "length bs = 8 \<Longrightarrow> to_le (from_le bs :: u64) = bs"
  by (rule to_le_from_le) simp_all
lemma to_le_from_le_u128 [simp]: "length bs = 16 \<Longrightarrow> to_le (from_le bs :: u128) = bs"
  by (rule to_le_from_le) simp_all

lemma to_le_inject:
  assumes "8 dvd LENGTH('a::len)"
  shows "to_le (v :: 'a word) = to_le w \<longleftrightarrow> v = w"
proof
  assume "to_le v = to_le w"
  then have "(from_le (to_le v) :: 'a word) = from_le (to_le w)"
    by (rule arg_cong)
  then show "v = w"
    by (simp only: from_le_to_le [OF assms])
qed simp

section \<open>Slices, indexing and in-place copies\<close>

text \<open>\<open>bslice xs i j\<close> is the value of \<open>&xs[i..j]\<close> in range; \<open>slice_res\<close> panics outside.\<close>

definition bslice :: "'a list \<Rightarrow> nat \<Rightarrow> nat \<Rightarrow> 'a list" where
  "bslice xs i j = take (j - i) (drop i xs)"

definition slice_res :: "'a list \<Rightarrow> nat \<Rightarrow> nat \<Rightarrow> ('a list, 'e) res" where
  "slice_res xs i j = (if i \<le> j \<and> j \<le> length xs then Ok (bslice xs i j) else Panic)"

definition index_res :: "'a list \<Rightarrow> nat \<Rightarrow> ('a, 'e) res" where
  "index_res xs i = (if i < length xs then Ok (xs ! i) else Panic)"

text \<open>\<open>buf[i..i + n].copy_from_slice(ys)\<close> with \<open>n = ys.len()\<close>, in range.\<close>

definition overwrite :: "'a list \<Rightarrow> nat \<Rightarrow> 'a list \<Rightarrow> 'a list" where
  "overwrite xs i ys = take i xs @ ys @ drop (i + length ys) xs"

text \<open>\<open>uN::from_le_bytes(b[o..o + N / 8].try_into().unwrap())\<close>.\<close>

definition rd_u16 :: "byte list \<Rightarrow> nat \<Rightarrow> (u16, 'e) res" where
  "rd_u16 b i = res_bind (slice_res b i (i + 2)) (\<lambda>s. Ok (from_le s))"

definition rd_u32 :: "byte list \<Rightarrow> nat \<Rightarrow> (u32, 'e) res" where
  "rd_u32 b i = res_bind (slice_res b i (i + 4)) (\<lambda>s. Ok (from_le s))"

definition rd_u64 :: "byte list \<Rightarrow> nat \<Rightarrow> (u64, 'e) res" where
  "rd_u64 b i = res_bind (slice_res b i (i + 8)) (\<lambda>s. Ok (from_le s))"

definition rd_u128 :: "byte list \<Rightarrow> nat \<Rightarrow> (u128, 'e) res" where
  "rd_u128 b i = res_bind (slice_res b i (i + 16)) (\<lambda>s. Ok (from_le s))"

lemma length_bslice [simp, wire]: "length (bslice xs i j) = min (j - i) (length xs - i)"
  by (simp add: bslice_def)

lemma slice_res_in [simp, res_simps]:
  "i \<le> j \<Longrightarrow> j \<le> length xs \<Longrightarrow> slice_res xs i j = Ok (bslice xs i j)"
  by (simp add: slice_res_def)

lemma index_res_in [simp, res_simps]: "i < length xs \<Longrightarrow> index_res xs i = Ok (xs ! i)"
  by (simp add: index_res_def)

lemma rd_u16_in [simp, res_simps]: "i + 2 \<le> length b \<Longrightarrow> rd_u16 b i = Ok (from_le (bslice b i (i + 2)))"
  by (simp add: rd_u16_def)

lemma rd_u32_in [simp, res_simps]: "i + 4 \<le> length b \<Longrightarrow> rd_u32 b i = Ok (from_le (bslice b i (i + 4)))"
  by (simp add: rd_u32_def)

lemma rd_u64_in [simp, res_simps]: "i + 8 \<le> length b \<Longrightarrow> rd_u64 b i = Ok (from_le (bslice b i (i + 8)))"
  by (simp add: rd_u64_def)

lemma rd_u128_in [simp, res_simps]: "i + 16 \<le> length b \<Longrightarrow> rd_u128 b i = Ok (from_le (bslice b i (i + 16)))"
  by (simp add: rd_u128_def)

lemma slice_res_eq_Ok:
  "slice_res xs i j = Ok ys \<longleftrightarrow> i \<le> j \<and> j \<le> length xs \<and> ys = bslice xs i j"
  by (auto simp: slice_res_def)

lemma length_overwrite [simp, wire]:
  "i + length ys \<le> length xs \<Longrightarrow> length (overwrite xs i ys) = length xs"
  by (simp add: overwrite_def)

lemma bslice_append_left [wire]: "j \<le> length xs \<Longrightarrow> bslice (xs @ ys) i j = bslice xs i j"
  by (simp add: bslice_def)

lemma bslice_append_right [wire]:
  "length xs \<le> i \<Longrightarrow> bslice (xs @ ys) i j = bslice ys (i - length xs) (j - length xs)"
  by (cases "i \<le> j") (simp_all add: bslice_def)

lemma bslice_all [wire]: "length xs \<le> j \<Longrightarrow> bslice xs 0 j = xs"
  by (simp add: bslice_def)

lemma bslice_full [simp]: "bslice xs 0 (length xs) = xs"
  by (simp add: bslice_def)

lemma bslice_to_end [simp]: "bslice xs i (length xs) = drop i xs"
  by (simp add: bslice_def)

lemma bslice_slice:
  "i + l \<le> j \<Longrightarrow> bslice (bslice xs i j) k l = bslice xs (i + k) (i + l)"
  by (simp add: bslice_def drop_take add.commute min_def)

lemma bslice_drop: "bslice (drop n xs) i j = bslice xs (n + i) (n + j)"
  by (simp add: bslice_def add.commute)

lemma bslice_replicate [wire]: "bslice (replicate n x) i j = replicate (min (j - i) (n - i)) x"
  by (simp add: bslice_def)

text \<open>A buffer cut at the ends of two adjacent slices.\<close>

lemma bslice_join: "i \<le> j \<Longrightarrow> j \<le> k \<Longrightarrow> bslice xs i j @ bslice xs j k = bslice xs i k"
proof -
  assume "i \<le> j" "j \<le> k"
  then obtain m n where "j = m + i" and "k = n + m + i"
    by (metis le_add_diff_inverse2 add.assoc)
  then show ?thesis
    by (simp add: bslice_def take_add add.commute [of n])
qed

lemma bslice_join_append:
  "i \<le> j \<Longrightarrow> j \<le> k \<Longrightarrow> bslice xs i j @ bslice xs j k @ ys = bslice xs i k @ ys"
  using bslice_join [of i j k xs] by (metis append.assoc)

lemma drop_bslice: "i \<le> j \<Longrightarrow> drop i xs = bslice xs i j @ drop j xs"
  using append_take_drop_id [of "j - i" "drop i xs"] by (simp add: bslice_def)

text \<open>The laws of an in-place copy: what a later slice of the buffer reads.\<close>

lemma bslice_alt: "bslice xs i j = drop i (take j xs)"
  by (simp add: bslice_def drop_take)

lemma bslice_overwrite_same [wire]:
  "i \<le> length xs \<Longrightarrow> j = i + length ys \<Longrightarrow> bslice (overwrite xs i ys) i j = ys"
  by (simp add: bslice_def overwrite_def)

lemma bslice_overwrite_before [wire]:
  "b \<le> i \<Longrightarrow> i \<le> length xs \<Longrightarrow> bslice (overwrite xs i ys) a b = bslice xs a b"
  by (simp add: overwrite_def bslice_alt)

lemma bslice_overwrite_after [wire]:
  "i + length ys \<le> a \<Longrightarrow> i + length ys \<le> length xs \<Longrightarrow> bslice (overwrite xs i ys) a b = bslice xs a b"
  by (simp add: bslice_def overwrite_def)

lemma nth_overwrite_before [wire]:
  "k < i \<Longrightarrow> i \<le> length xs \<Longrightarrow> overwrite xs i ys ! k = xs ! k"
  by (simp add: overwrite_def nth_append)

lemma nth_overwrite:
  "i + length ys \<le> length xs \<Longrightarrow> k < length xs \<Longrightarrow>
   overwrite xs i ys ! k = (if i \<le> k \<and> k < i + length ys then ys ! (k - i) else xs ! k)"
  by (auto simp: overwrite_def nth_append)

lemma drop_overwrite [wire]:
  "i + length ys \<le> n \<Longrightarrow> i + length ys \<le> length xs \<Longrightarrow> drop n (overwrite xs i ys) = drop n xs"
  by (simp add: overwrite_def)

lemma bslice_update_before [wire]: "k < a \<Longrightarrow> bslice (xs[k := v]) a b = bslice xs a b"
  by (simp add: bslice_def)

section \<open>Fixed layouts\<close>

text \<open>
  A block of \<open>copy_from_slice\<close> statements that fill disjoint fields of one buffer: the
  order of the statements does not matter, every field reads back as what was copied into
  it, and the rest of the buffer is unchanged.
\<close>

primrec put_fields :: "(nat \<times> byte list) list \<Rightarrow> byte list \<Rightarrow> byte list" where
  "put_fields [] b = b"
| "put_fields (f # fs) b = put_fields fs (overwrite b (fst f) (snd f))"

abbreviation apart :: "nat \<Rightarrow> nat \<Rightarrow> nat \<times> byte list \<Rightarrow> bool" where
  "apart i j f \<equiv> j \<le> fst f \<or> fst f + length (snd f) \<le> i"

primrec fields_ok :: "nat \<Rightarrow> (nat \<times> byte list) list \<Rightarrow> bool" where
  "fields_ok n [] = True"
| "fields_ok n (f # fs) = (fst f + length (snd f) \<le> n
     \<and> list_all (apart (fst f) (fst f + length (snd f))) fs \<and> fields_ok n fs)"

lemma length_put_fields: "fields_ok (length b) fs \<Longrightarrow> length (put_fields fs b) = length b"
  by (induction fs arbitrary: b) auto

lemma bslice_put_apart:
  "fields_ok (length b) fs \<Longrightarrow> list_all (apart i j) fs \<Longrightarrow> bslice (put_fields fs b) i j = bslice b i j"
proof (induction fs arbitrary: b)
  case (Cons f fs)
  then have "bslice (overwrite b (fst f) (snd f)) i j = bslice b i j"
    by (auto simp: wire)
  with Cons show ?case by simp
qed simp

lemma bslice_put_field:
  "fields_ok (length b) fs \<Longrightarrow> (i, ys) \<in> set fs \<Longrightarrow> bslice (put_fields fs b) i (i + length ys) = ys"
proof (induction fs arbitrary: b)
  case (Cons f fs)
  show ?case
  proof (cases "f = (i, ys)")
    case True
    with Cons.prems show ?thesis
      by (simp add: bslice_put_apart wire)
  next
    case False
    with Cons show ?thesis by simp
  qed
qed simp

lemma drop_put_fields:
  "fields_ok (length b) fs \<Longrightarrow> list_all (\<lambda>f. fst f + length (snd f) \<le> n) fs
     \<Longrightarrow> drop n (put_fields fs b) = drop n b"
  by (induction fs arbitrary: b) (auto simp: wire)

lemma put_fields_append [simp]: "put_fields (fs @ gs) b = put_fields gs (put_fields fs b)"
  by (induction fs arbitrary: b) auto

section \<open>Fixed-size values\<close>

text \<open>A Rust \<open>[u8; 32]\<close>: its length is part of the type, here a predicate.\<close>

definition is_b32 :: "byte list \<Rightarrow> bool" where
  "is_b32 xs \<longleftrightarrow> length xs = 32"

abbreviation zeros :: "nat \<Rightarrow> byte list" where "zeros n \<equiv> replicate n 0"

lemma le_nat_zeros [simp]: "le_nat (zeros n) = 0"
  by (induction n) auto

lemma list_ex_nonzero: "\<not> list_ex (\<lambda>x. x \<noteq> 0) xs \<longleftrightarrow> xs = zeros (length xs)"
  for xs :: "byte list"
  by (induction xs) auto

lemma list_ex_zeros [simp]: "\<not> list_ex (\<lambda>x. x \<noteq> 0) (zeros n)"
  by (simp add: list_ex_iff)

lemma is_b32_len [simp, wire]: "is_b32 xs \<Longrightarrow> length xs = 32"
  by (simp add: is_b32_def)

text \<open>The padding to the next multiple of 8 that both containers use.\<close>

definition pad_len :: "nat \<Rightarrow> nat" where
  "pad_len n = (8 - n mod 8) mod 8"

lemma pad_len_lt [simp]: "pad_len n < 8"
  by (simp add: pad_len_def)

lemma pad_len_aligned: "8 dvd n + pad_len n"
proof (cases "n mod 8 = 0")
  case False
  then have "n + pad_len n = 8 * (n div 8) + 8"
    using minus_mod_eq_mult_div [of n 8] mod_less_eq_dividend [of n 8]
    by (simp add: pad_len_def)
  then show ?thesis by simp
qed (auto simp: pad_len_def)

end
