(* ===== verification/Dhilog.thy ===== *)
theory Dhilog
  imports Dh_Prelude
begin

text \<open>
  The DHILOG v1 writer, \<open>src/crates/dh-inputlog/src/dhilog.rs\<close>: the segment header, the
  append-only \<open>LogWriter\<close>, one operation per record kind, and \<open>seal\<close>.

  A method on \<open>&mut self\<close> that returns a \<open>Result\<close> is a function from the writer to the
  result and the writer afterwards, so that what a failed call leaves behind is visible.
  BLAKE3 is a parameter \<open>blake3\<close> of the functions that use it.

  That a writer holds exactly the frames of the records it accepted, and that a method
  either appends one record or leaves the writer as it was, is shown in \<open>Log_Roundtrip\<close>.
\<close>

section \<open>Format constants\<close>

abbreviation FORMAT_VERSION :: u16 where "FORMAT_VERSION \<equiv> 0x0100"
abbreviation HEADER_LEN :: nat where "HEADER_LEN \<equiv> 256"
abbreviation MAX_PAYLOAD :: nat where "MAX_PAYLOAD \<equiv> 4096"
abbreviation MAX_DEV_EVENT_DATA :: nat where "MAX_DEV_EVENT_DATA \<equiv> 4088"

abbreviation FLAG_SEALED :: u32 where "FLAG_SEALED \<equiv> 1"
abbreviation FLAG_HAS_AUX :: u32 where "FLAG_HAS_AUX \<equiv> 2"
abbreviation FLAG_EPOCH_HASHES :: u32 where "FLAG_EPOCH_HASHES \<equiv> 4"

abbreviation KIND_PAD_SET :: u8 where "KIND_PAD_SET \<equiv> 0x01"
abbreviation KIND_DEV_EVENT :: u8 where "KIND_DEV_EVENT \<equiv> 0x02"
abbreviation KIND_NET_RX :: u8 where "KIND_NET_RX \<equiv> 0x03"
abbreviation KIND_ENTROPY :: u8 where "KIND_ENTROPY \<equiv> 0x40"
abbreviation KIND_TIMER_FIRE :: u8 where "KIND_TIMER_FIRE \<equiv> 0x41"
abbreviation KIND_EPOCH_HASH :: u8 where "KIND_EPOCH_HASH \<equiv> 0x42"
abbreviation KIND_SDK_EVENT :: u8 where "KIND_SDK_EVENT \<equiv> 0x43"
abbreviation KIND_NET_TX :: u8 where "KIND_NET_TX \<equiv> 0x44"
abbreviation KIND_FRAME_MARK :: u8 where "KIND_FRAME_MARK \<equiv> 0x45"
abbreviation KIND_BISECTION_CHECKPOINT :: u8 where "KIND_BISECTION_CHECKPOINT \<equiv> 0x46"
abbreviation KIND_END :: u8 where "KIND_END \<equiv> 0x7F"

abbreviation MAX_NET_RX_FRAME :: nat where "MAX_NET_RX_FRAME \<equiv> 2048"

abbreviation BISECTION_CHECKPOINT_FORMAT_VERSION :: u16 where
  "BISECTION_CHECKPOINT_FORMAT_VERSION \<equiv> 1"
abbreviation BISECTION_CHECKPOINT_FLAGS :: u16 where "BISECTION_CHECKPOINT_FLAGS \<equiv> 0"
abbreviation BISECTION_CHECKPOINT_PAYLOAD_LEN :: nat where
  "BISECTION_CHECKPOINT_PAYLOAD_LEN \<equiv> 56"

abbreviation RFLAG_AUX :: u8 where "RFLAG_AUX \<equiv> 1"

abbreviation DEVICE_ID_DETCHANNEL :: u16 where "DEVICE_ID_DETCHANNEL \<equiv> 0x0001"
abbreviation EVENT_RING_PUSH :: u16 where "EVENT_RING_PUSH \<equiv> 0x0001"
abbreviation EVENT_CONS_BUMP :: u16 where "EVENT_CONS_BUMP \<equiv> 0x0002"
abbreviation EVENT_PIO_ANSWER :: u16 where "EVENT_PIO_ANSWER \<equiv> 0x0003"

abbreviation FRAME_HINT_NONE :: u32 where "FRAME_HINT_NONE \<equiv> 0xFFFFFFFF"

text \<open>ASCII \<open>DHILOG\<close>.\<close>

abbreviation DHILOG_MAGIC :: "byte list" where
  "DHILOG_MAGIC \<equiv> [0x44, 0x48, 0x49, 0x4C, 0x4F, 0x47]"

section \<open>Writer state\<close>

record SegmentHeader =
  sh_base_snapshot_id :: "byte list"
  sh_entropy_seed :: "byte list"
  sh_machine_config_hash :: "byte list"
  sh_clock_num :: u32
  sh_clock_den :: u32
  sh_encoder_fingerprint :: u64

record SealParams =
  sp_end_snapshot_id :: "byte list"
  sp_end_icount :: u64
  sp_end_vns :: u64
  sp_end_state_hash :: "byte list"
  sp_stop_reason :: u8

datatype WriteError = WPayloadTooLong | WIcountRegressed | WSeqOverflow | WEmptyNetRx

record LogWriter =
  lw_buf :: "byte list"
  lw_header :: SegmentHeader
  lw_record_count :: u64
  lw_last_icount :: u64
  lw_has_aux :: bool
  lw_wrote_epoch_hash :: bool

definition log_new :: "SegmentHeader \<Rightarrow> LogWriter" where
  "log_new h = \<lparr>lw_buf = zeros HEADER_LEN, lw_header = h, lw_record_count = 0,
     lw_last_icount = 0, lw_has_aux = False, lw_wrote_epoch_hash = False\<rparr>"

definition digest8 :: "(byte list \<Rightarrow> byte list) \<Rightarrow> byte list \<Rightarrow> u64" where
  "digest8 blake3 bytes = from_le (bslice (blake3 bytes) 0 8)"

section \<open>Framing\<close>

definition frame_bytes :: "u8 \<Rightarrow> u8 \<Rightarrow> u32 \<Rightarrow> u64 \<Rightarrow> u64 \<Rightarrow> byte list \<Rightarrow> byte list" where
  "frame_bytes kind rflags seq icount boundary_rip payload =
     [kind, rflags] @ to_le (of_nat (length payload) :: u16) @ to_le seq @ to_le icount
       @ to_le boundary_rip @ payload @ zeros ((8 - length payload mod 8) mod 8)"

definition log_record ::
  "u8 \<Rightarrow> u8 \<Rightarrow> u64 \<Rightarrow> u64 \<Rightarrow> byte list \<Rightarrow> LogWriter \<Rightarrow> (unit, WriteError) res \<times> LogWriter" where
  "log_record kind rflags icount boundary_rip payload w =
     (if length payload > MAX_PAYLOAD then (Err WPayloadTooLong, w)
      else if lw_record_count w > 0 \<and> icount < lw_last_icount w then (Err WIcountRegressed, w)
      else (case word_of_nat_opt (unat (lw_record_count w)) of
          None \<Rightarrow> (Err WSeqOverflow, w)
        | Some seq \<Rightarrow>
            (Ok (), w\<lparr>lw_buf := lw_buf w @ frame_bytes kind rflags seq icount boundary_rip payload,
               lw_record_count := lw_record_count w + 1,
               lw_last_icount := icount,
               lw_has_aux := (lw_has_aux w \<or> rflags AND RFLAG_AUX \<noteq> 0)\<rparr>)))"

section \<open>Canonical records\<close>

definition pad_set ::
  "u64 \<Rightarrow> u64 \<Rightarrow> u8 \<Rightarrow> u32 \<Rightarrow> u32 \<Rightarrow> LogWriter \<Rightarrow> (unit, WriteError) res \<times> LogWriter" where
  "pad_set icount boundary_rip port buttons frame_hint w =
     (let payload = (zeros 12)[0 := port];
          payload = overwrite payload 4 (to_le buttons);
          payload = overwrite payload 8 (to_le frame_hint)
      in log_record KIND_PAD_SET 0 icount boundary_rip payload w)"

definition dev_event ::
  "u64 \<Rightarrow> u64 \<Rightarrow> u16 \<Rightarrow> u16 \<Rightarrow> byte list \<Rightarrow> LogWriter \<Rightarrow> (unit, WriteError) res \<times> LogWriter" where
  "dev_event icount boundary_rip device_id event_type data w =
     (if length data > MAX_DEV_EVENT_DATA then (Err WPayloadTooLong, w)
      else let data_len = (of_nat (length data) :: u32);
               payload = to_le device_id @ to_le event_type @ to_le data_len @ data
           in log_record KIND_DEV_EVENT 0 icount boundary_rip payload w)"

definition net_rx ::
  "u64 \<Rightarrow> u64 \<Rightarrow> byte list \<Rightarrow> LogWriter \<Rightarrow> (unit, WriteError) res \<times> LogWriter" where
  "net_rx icount boundary_rip frame w =
     (if frame = [] then (Err WEmptyNetRx, w)
      else if length frame > MAX_NET_RX_FRAME then (Err WPayloadTooLong, w)
      else log_record KIND_NET_RX 0 icount boundary_rip frame w)"

definition pio_answer ::
  "u64 \<Rightarrow> u64 \<Rightarrow> u16 \<Rightarrow> u32 \<Rightarrow> LogWriter \<Rightarrow> (unit, WriteError) res \<times> LogWriter" where
  "pio_answer icount boundary_rip port value w =
     (let data = overwrite (zeros 8) 0 (to_le port);
          data = overwrite data 4 (to_le value)
      in dev_event icount boundary_rip DEVICE_ID_DETCHANNEL EVENT_PIO_ANSWER data w)"

section \<open>AUX records\<close>

definition entropy ::
  "u64 \<Rightarrow> u64 \<Rightarrow> u32 \<Rightarrow> u64 \<Rightarrow> LogWriter \<Rightarrow> (unit, WriteError) res \<times> LogWriter" where
  "entropy icount boundary_rip len dig w =
     (let payload = overwrite (zeros 16) 0 (to_le len);
          payload = overwrite payload 8 (to_le dig)
      in log_record KIND_ENTROPY RFLAG_AUX icount boundary_rip payload w)"

definition net_tx ::
  "u64 \<Rightarrow> u64 \<Rightarrow> u32 \<Rightarrow> u64 \<Rightarrow> LogWriter \<Rightarrow> (unit, WriteError) res \<times> LogWriter" where
  "net_tx icount boundary_rip len dig w =
     (let payload = overwrite (zeros 16) 0 (to_le len);
          payload = overwrite payload 8 (to_le dig)
      in log_record KIND_NET_TX RFLAG_AUX icount boundary_rip payload w)"

definition epoch_hash ::
  "u64 \<Rightarrow> u64 \<Rightarrow> u64 \<Rightarrow> byte list \<Rightarrow> LogWriter \<Rightarrow> (unit, WriteError) res \<times> LogWriter" where
  "epoch_hash icount boundary_rip epoch_index chain_value w =
     (let payload = overwrite (zeros 40) 0 (to_le epoch_index);
          payload = overwrite payload 8 chain_value
      in case log_record KIND_EPOCH_HASH RFLAG_AUX icount boundary_rip payload w of
           (Ok _, w') \<Rightarrow> (Ok (), w'\<lparr>lw_wrote_epoch_hash := True\<rparr>)
         | (r, w') \<Rightarrow> (r, w'))"

definition timer_fire ::
  "u64 \<Rightarrow> u64 \<Rightarrow> u8 \<Rightarrow> u64 \<Rightarrow> u64 \<Rightarrow> LogWriter \<Rightarrow> (unit, WriteError) res \<times> LogWriter" where
  "timer_fire icount boundary_rip vector armed_deadline_vns delivered_icount w =
     (let payload = (zeros 20)[0 := vector];
          payload = overwrite payload 4 (to_le armed_deadline_vns);
          payload = overwrite payload 12 (to_le delivered_icount)
      in log_record KIND_TIMER_FIRE RFLAG_AUX icount boundary_rip payload w)"

definition sdk_event ::
  "u64 \<Rightarrow> u64 \<Rightarrow> u16 \<Rightarrow> u32 \<Rightarrow> u64 \<Rightarrow> LogWriter \<Rightarrow> (unit, WriteError) res \<times> LogWriter" where
  "sdk_event icount boundary_rip stream len dig w =
     (let payload = overwrite (zeros 16) 0 (to_le stream);
          payload = overwrite payload 4 (to_le len);
          payload = overwrite payload 8 (to_le dig)
      in log_record KIND_SDK_EVENT RFLAG_AUX icount boundary_rip payload w)"

definition frame_mark ::
  "u64 \<Rightarrow> u64 \<Rightarrow> u32 \<Rightarrow> LogWriter \<Rightarrow> (unit, WriteError) res \<times> LogWriter" where
  "frame_mark icount boundary_rip frame_index w =
     (let payload = overwrite (zeros 8) 0 (to_le frame_index)
      in log_record KIND_FRAME_MARK RFLAG_AUX icount boundary_rip payload w)"

definition bisection_checkpoint ::
  "u64 \<Rightarrow> u64 \<Rightarrow> u32 \<Rightarrow> byte list \<Rightarrow> u64 \<Rightarrow> LogWriter \<Rightarrow> (unit, WriteError) res \<times> LogWriter" where
  "bisection_checkpoint icount boundary_rip max_covered_gap checkpoint_snapshot_ref checkpoint_vns w =
     (let payload = zeros BISECTION_CHECKPOINT_PAYLOAD_LEN;
          payload = overwrite payload 0 (to_le BISECTION_CHECKPOINT_FORMAT_VERSION);
          payload = overwrite payload 2 (to_le BISECTION_CHECKPOINT_FLAGS);
          payload = overwrite payload 4 (to_le max_covered_gap);
          payload = overwrite payload 8 checkpoint_snapshot_ref;
          payload = overwrite payload 40 (to_le icount);
          payload = overwrite payload 48 (to_le checkpoint_vns)
      in log_record KIND_BISECTION_CHECKPOINT RFLAG_AUX icount boundary_rip payload w)"

section \<open>Sealing\<close>

definition log_seal ::
  "(byte list \<Rightarrow> byte list) \<Rightarrow> SealParams \<Rightarrow> LogWriter \<Rightarrow> (byte list, WriteError) res" where
  "log_seal blake3 params w =
     (let payload = (zeros 40)[0 := sp_stop_reason params];
          payload = overwrite payload 8 (sp_end_state_hash params);
          has_aux = lw_has_aux w
      in case log_record KIND_END RFLAG_AUX (sp_end_icount params) 0 payload w of
           (Err e, _) \<Rightarrow> Err e
         | (Panic, _) \<Rightarrow> Panic
         | (Ok _, w') \<Rightarrow>
             (let w' = w'\<lparr>lw_has_aux := has_aux\<rparr>;
                  h = lw_header w';
                  buf = lw_buf w';
                  buf = overwrite buf 0 DHILOG_MAGIC;
                  buf = overwrite buf 6 (to_le FORMAT_VERSION);
                  buf = overwrite buf 8 (to_le (of_nat HEADER_LEN :: u32));
                  flags = FLAG_SEALED OR (if lw_has_aux w' then FLAG_HAS_AUX else 0)
                            OR (if lw_wrote_epoch_hash w' then FLAG_EPOCH_HASHES else 0);
                  buf = overwrite buf 12 (to_le flags);
                  buf = overwrite buf 16 (sh_base_snapshot_id h);
                  buf = overwrite buf 48 (sp_end_snapshot_id params);
                  buf = overwrite buf 80 (sh_entropy_seed h);
                  buf = overwrite buf 112 (sh_machine_config_hash h);
                  buf = overwrite buf 144 (to_le (sh_clock_num h));
                  buf = overwrite buf 148 (to_le (sh_clock_den h));
                  buf = overwrite buf 152 (to_le (lw_record_count w'));
                  buf = overwrite buf 160 (to_le (sp_end_icount params));
                  buf = overwrite buf 168 (to_le (sp_end_vns params));
                  buf = overwrite buf 176 (sp_end_state_hash params);
                  buf = overwrite buf 240 (to_le (sh_encoder_fingerprint h));
                  body_hash = blake3 (drop HEADER_LEN buf)
              in Ok (overwrite buf 208 body_hash)))"

end
