(* ===== verification/Log_Reader.thy ===== *)
theory Log_Reader
  imports Dhilog
begin

text \<open>
  The validating DHILOG v1 reader, \<open>src/crates/dh-inputlog/src/reader.rs\<close>: the header
  parser, the record scan, the per-kind layout checks, the validation walk, the record
  iterator, the typed payload view and the inspection path for crash artifacts.

  Every slice of the source is a checked slice here (\<open>slice_res\<close>, \<open>rd_u64\<close>, ...), so an
  index the source does not dominate by a length check would make the model return
  \<open>Panic\<close>. The lemmas show that this does not happen, and that the walk accepts exactly
  the concatenations of frames of the records that satisfy the declarative format
  \<open>log_ok\<close>.
\<close>

section \<open>Errors and views\<close>

datatype ReadError =
    RTooShort
  | RBadMagic
  | RUnsupportedVersion u16
  | RBadHeaderLen u32
  | RUnknownHeaderFlags u32
  | RNotSealed
  | RReservedNonzero
  | RBodyHashMismatch
  | RTruncated u32
  | RPayloadTooLong u32
  | RSeqMismatch u32 u32
  | RIcountRegressed u32
  | RUnknownRecordFlags u8 u32
  | RUnknownCanonicalKind u8 u32
  | RKindAuxMismatch u8 u32
  | RBadPayloadLayout u8 u32
  | RUnsupportedBisectionCheckpointVersion u16 u32
  | RInvalidBisectionCheckpointFlags u16 u32
  | RBisectionCheckpointIcountMismatch u32 u64 u64
  | RNonzeroPadding u32
  | RRecordCountMismatch u64 u64
  | REndNotLast
  | REndMismatch string
  | RBadClock
  | RHasAuxFlagMismatch
  | REpochHashesFlagMismatch

record Header =
  hd_version :: u16
  hd_flags :: u32
  hd_base_snapshot_id :: "byte list"
  hd_end_snapshot_id :: "byte list"
  hd_entropy_seed :: "byte list"
  hd_machine_config_hash :: "byte list"
  hd_clock_num :: u32
  hd_clock_den :: u32
  hd_record_count :: u64
  hd_end_icount :: u64
  hd_end_vns :: u64
  hd_end_state_hash :: "byte list"
  hd_body_hash :: "byte list"
  hd_encoder_fingerprint :: u64

definition header_has_aux :: "Header \<Rightarrow> bool" where
  "header_has_aux h \<longleftrightarrow> hd_flags h AND FLAG_HAS_AUX \<noteq> 0"

definition header_has_epoch_hashes :: "Header \<Rightarrow> bool" where
  "header_has_epoch_hashes h \<longleftrightarrow> hd_flags h AND FLAG_EPOCH_HASHES \<noteq> 0"

record Rec =
  rec_kind :: u8
  rec_rflags :: u8
  rec_seq :: u32
  rec_icount :: u64
  rec_boundary_rip :: u64
  rec_payload :: "byte list"

definition is_aux :: "Rec \<Rightarrow> bool" where
  "is_aux r \<longleftrightarrow> rec_rflags r AND RFLAG_AUX \<noteq> 0"

datatype RecordBody =
    PadSet u8 u32 u32
  | DevEvent u16 u16 "byte list"
  | NetRx "byte list"
  | Entropy u32 u64
  | TimerFire u8 u64 u64
  | EpochHash u64 "byte list"
  | SdkEvent u16 u32 u64
  | NetTx u32 u64
  | FrameMark u32
  | BisectionCheckpoint u16 u16 u32 "byte list" u64 u64
  | End u8 "byte list"
  | Unknown u8 "byte list"

text \<open>\<open>Record::body\<close>: the typed payload, with the panics its slices could raise.\<close>

definition rec_body :: "Rec \<Rightarrow> (RecordBody, 'e) res" where
  "rec_body r = (let p = rec_payload r; k = rec_kind r in
     if k = KIND_PAD_SET then
       res_bind (index_res p 0) (\<lambda>port. res_bind (rd_u32 p 4) (\<lambda>buttons.
       res_bind (rd_u32 p 8) (\<lambda>frame_hint. Ok (PadSet port buttons frame_hint))))
     else if k = KIND_DEV_EVENT then
       res_bind (rd_u16 p 0) (\<lambda>device_id. res_bind (rd_u16 p 2) (\<lambda>event_type.
       res_bind (slice_res p 8 (length p)) (\<lambda>data. Ok (DevEvent device_id event_type data))))
     else if k = KIND_NET_RX then Ok (NetRx p)
     else if k = KIND_ENTROPY then
       res_bind (rd_u32 p 0) (\<lambda>len. res_bind (rd_u64 p 8) (\<lambda>dig. Ok (Entropy len dig)))
     else if k = KIND_TIMER_FIRE then
       res_bind (index_res p 0) (\<lambda>vector. res_bind (rd_u64 p 4) (\<lambda>armed.
       res_bind (rd_u64 p 12) (\<lambda>delivered. Ok (TimerFire vector armed delivered))))
     else if k = KIND_EPOCH_HASH then
       res_bind (rd_u64 p 0) (\<lambda>epoch_index. res_bind (slice_res p 8 40) (\<lambda>chain_value.
       Ok (EpochHash epoch_index chain_value)))
     else if k = KIND_SDK_EVENT then
       res_bind (rd_u16 p 0) (\<lambda>stream. res_bind (rd_u32 p 4) (\<lambda>len.
       res_bind (rd_u64 p 8) (\<lambda>dig. Ok (SdkEvent stream len dig))))
     else if k = KIND_NET_TX then
       res_bind (rd_u32 p 0) (\<lambda>len. res_bind (rd_u64 p 8) (\<lambda>dig. Ok (NetTx len dig)))
     else if k = KIND_FRAME_MARK then
       res_bind (rd_u32 p 0) (\<lambda>frame_index. Ok (FrameMark frame_index))
     else if k = KIND_BISECTION_CHECKPOINT then
       res_bind (rd_u16 p 0) (\<lambda>format_version. res_bind (rd_u16 p 2) (\<lambda>flags.
       res_bind (rd_u32 p 4) (\<lambda>max_covered_gap. res_bind (slice_res p 8 40) (\<lambda>snapshot_ref.
       res_bind (rd_u64 p 40) (\<lambda>checkpoint_icount. res_bind (rd_u64 p 48) (\<lambda>checkpoint_vns.
       Ok (BisectionCheckpoint format_version flags max_covered_gap snapshot_ref
             checkpoint_icount checkpoint_vns)))))))
     else if k = KIND_END then
       res_bind (index_res p 0) (\<lambda>stop_reason. res_bind (slice_res p 8 40) (\<lambda>end_state_hash.
       Ok (End stop_reason end_state_hash)))
     else Ok (Unknown k p))"

section \<open>Header\<close>

definition parse_header_with_seal :: "byte list \<Rightarrow> bool \<Rightarrow> (Header, ReadError) res" where
  "parse_header_with_seal bytes require_sealed =
     (if length bytes < HEADER_LEN then Err RTooShort
      else res_bind (slice_res bytes 0 6) (\<lambda>magic. if magic \<noteq> DHILOG_MAGIC then Err RBadMagic
      else res_bind (rd_u16 bytes 6) (\<lambda>version.
        if drop_bit 8 version \<noteq> 1 then Err (RUnsupportedVersion version)
      else res_bind (rd_u32 bytes 8) (\<lambda>header_len.
        if unat header_len \<noteq> HEADER_LEN then Err (RBadHeaderLen header_len)
      else res_bind (rd_u32 bytes 12) (\<lambda>flags.
        if flags AND NOT (FLAG_SEALED OR FLAG_HAS_AUX OR FLAG_EPOCH_HASHES) \<noteq> 0
        then Err (RUnknownHeaderFlags flags)
      else if require_sealed \<and> flags AND FLAG_SEALED = 0 then Err RNotSealed
      else res_bind (slice_res bytes 248 256) (\<lambda>reserved.
        if reserved \<noteq> zeros 8 then Err RReservedNonzero
      else res_bind (rd_u32 bytes 148) (\<lambda>den. if den = 0 then Err RBadClock
      else res_bind (slice_res bytes 16 48) (\<lambda>base.
      res_bind (slice_res bytes 48 80) (\<lambda>end_snap.
      res_bind (slice_res bytes 80 112) (\<lambda>seed.
      res_bind (slice_res bytes 112 144) (\<lambda>config.
      res_bind (rd_u32 bytes 144) (\<lambda>num.
      res_bind (rd_u64 bytes 152) (\<lambda>record_count.
      res_bind (rd_u64 bytes 160) (\<lambda>end_icount.
      res_bind (rd_u64 bytes 168) (\<lambda>end_vns.
      res_bind (slice_res bytes 176 208) (\<lambda>end_hash.
      res_bind (slice_res bytes 208 240) (\<lambda>body_hash.
      res_bind (rd_u64 bytes 240) (\<lambda>fingerprint.
      Ok \<lparr>hd_version = version, hd_flags = flags, hd_base_snapshot_id = base,
          hd_end_snapshot_id = end_snap, hd_entropy_seed = seed,
          hd_machine_config_hash = config, hd_clock_num = num, hd_clock_den = den,
          hd_record_count = record_count, hd_end_icount = end_icount, hd_end_vns = end_vns,
          hd_end_state_hash = end_hash, hd_body_hash = body_hash,
          hd_encoder_fingerprint = fingerprint\<rparr>))))))))))))))))))"

definition parse_header :: "byte list \<Rightarrow> (Header, ReadError) res" where
  "parse_header bytes = parse_header_with_seal bytes True"

definition parse_header_for_inspection :: "byte list \<Rightarrow> (Header, ReadError) res" where
  "parse_header_for_inspection bytes = parse_header_with_seal bytes False"

section \<open>Record scan\<close>

definition kind_class_aux :: "u8 \<Rightarrow> bool option" where
  "kind_class_aux kind =
     (if kind = KIND_PAD_SET \<or> kind = KIND_DEV_EVENT \<or> kind = KIND_NET_RX then Some False
      else if kind = KIND_ENTROPY \<or> kind = KIND_TIMER_FIRE \<or> kind = KIND_EPOCH_HASH
        \<or> kind = KIND_SDK_EVENT \<or> kind = KIND_NET_TX \<or> kind = KIND_FRAME_MARK
        \<or> kind = KIND_BISECTION_CHECKPOINT \<or> kind = KIND_END then Some True
      else None)"

text \<open>The payload layout of a known kind: the second \<open>match\<close> of \<open>validate_kind\<close>.\<close>

definition kind_layout :: "u8 \<Rightarrow> byte list \<Rightarrow> u32 \<Rightarrow> u64 \<Rightarrow> (bool, ReadError) res" where
  "kind_layout kind payload seq record_icount =
     (if kind = KIND_PAD_SET then Ok (length payload = 12)
      else if kind = KIND_DEV_EVENT then
        (if 8 \<le> length payload
         then res_bind (rd_u32 payload 4) (\<lambda>n. Ok (unat n = length payload - 8))
         else Ok False)
      else if kind = KIND_NET_RX then
        Ok (1 \<le> length payload \<and> length payload \<le> MAX_NET_RX_FRAME)
      else if kind = KIND_ENTROPY \<or> kind = KIND_SDK_EVENT \<or> kind = KIND_NET_TX then
        Ok (length payload = 16)
      else if kind = KIND_TIMER_FIRE then Ok (length payload = 20)
      else if kind = KIND_EPOCH_HASH \<or> kind = KIND_END then Ok (length payload = 40)
      else if kind = KIND_FRAME_MARK then Ok (length payload = 8)
      else if kind = KIND_BISECTION_CHECKPOINT then
        (if length payload \<noteq> BISECTION_CHECKPOINT_PAYLOAD_LEN then Ok False
         else res_bind (rd_u16 payload 0) (\<lambda>format_version.
           if format_version \<noteq> BISECTION_CHECKPOINT_FORMAT_VERSION
           then Err (RUnsupportedBisectionCheckpointVersion format_version seq)
         else res_bind (rd_u16 payload 2) (\<lambda>flags.
           if flags \<noteq> BISECTION_CHECKPOINT_FLAGS
           then Err (RInvalidBisectionCheckpointFlags flags seq)
         else res_bind (rd_u64 payload 40) (\<lambda>checkpoint_icount.
           if checkpoint_icount \<noteq> record_icount
           then Err (RBisectionCheckpointIcountMismatch seq record_icount checkpoint_icount)
         else Ok True))))
      else Ok True)"

definition validate_kind :: "u8 \<Rightarrow> bool \<Rightarrow> byte list \<Rightarrow> u32 \<Rightarrow> u64 \<Rightarrow> (unit, ReadError) res" where
  "validate_kind kind aux payload seq record_icount =
     (case kind_class_aux kind of
        None \<Rightarrow> if aux then Ok () else Err (RUnknownCanonicalKind kind seq)
      | Some class_aux \<Rightarrow>
          if class_aux \<noteq> aux then Err (RKindAuxMismatch kind seq)
          else res_bind (kind_layout kind payload seq record_icount)
            (\<lambda>layout_ok. if layout_ok then Ok () else Err (RBadPayloadLayout kind seq)))"

record RecordScan =
  sc_offset :: nat
  sc_count :: u64
  sc_last_icount :: u64

definition scan_default :: RecordScan where
  "scan_default = \<lparr>sc_offset = 0, sc_count = 0, sc_last_icount = 0\<rparr>"

definition scan_next_record ::
  "byte list \<Rightarrow> RecordScan \<Rightarrow> ((Rec \<times> RecordScan) option, ReadError) res" where
  "scan_next_record body scan =
     (if sc_offset scan \<ge> length body then Ok None
      else let seq_for_err = (case word_of_nat_opt (unat (sc_count scan)) of
                                None \<Rightarrow> 0xFFFFFFFF | Some s \<Rightarrow> s) in
      if length body - sc_offset scan < 24 then Err (RTruncated seq_for_err)
      else res_bind (slice_res body (sc_offset scan) (length body)) (\<lambda>b.
      res_bind (index_res b 0) (\<lambda>kind.
      res_bind (index_res b 1) (\<lambda>rflags.
      res_bind (rd_u16 b 2) (\<lambda>plen. let payload_len = unat plen in
      res_bind (rd_u32 b 4) (\<lambda>seq.
      res_bind (rd_u64 b 8) (\<lambda>icount.
      res_bind (rd_u64 b 16) (\<lambda>boundary_rip.
      if payload_len > MAX_PAYLOAD then Err (RPayloadTooLong seq_for_err)
      else let padded = 24 + payload_len + pad_len payload_len in
      if length body - sc_offset scan < padded then Err (RTruncated seq_for_err)
      else if unat seq \<noteq> unat (sc_count scan) then Err (RSeqMismatch seq_for_err seq)
      else if sc_count scan > 0 \<and> icount < sc_last_icount scan then Err (RIcountRegressed seq)
      else if rflags AND NOT RFLAG_AUX \<noteq> 0 then Err (RUnknownRecordFlags rflags seq)
      else res_bind (slice_res b (24 + payload_len) padded) (\<lambda>padding.
      if list_ex (\<lambda>x. x \<noteq> 0) padding then Err (RNonzeroPadding seq)
      else res_bind (slice_res b 24 (24 + payload_len)) (\<lambda>payload.
      res_bind (validate_kind kind (rflags AND RFLAG_AUX \<noteq> 0) payload seq icount) (\<lambda>_.
      Ok (Some (\<lparr>rec_kind = kind, rec_rflags = rflags, rec_seq = seq, rec_icount = icount,
                 rec_boundary_rip = boundary_rip, rec_payload = payload\<rparr>,
               scan\<lparr>sc_offset := sc_offset scan + padded, sc_last_icount := icount,
                    sc_count := sc_count scan + 1\<rparr>)))))))))))))"

section \<open>The validation walk\<close>

text \<open>The END arm of the walk's \<open>match\<close>.\<close>

definition validate_end :: "Header \<Rightarrow> Rec \<Rightarrow> (unit, ReadError) res" where
  "validate_end header r =
     (if rec_boundary_rip r \<noteq> 0 then Err (REndMismatch ''boundary_rip != 0'')
      else res_bind (slice_res (rec_payload r) 1 8) (\<lambda>padding.
        if padding \<noteq> zeros 7 then Err (REndMismatch ''nonzero pad bytes'')
      else if rec_icount r \<noteq> hd_end_icount header
        then Err (REndMismatch ''icount != header.end_icount'')
      else res_bind (slice_res (rec_payload r) 8 40) (\<lambda>h.
        if h \<noteq> hd_end_state_hash header
        then Err (REndMismatch ''end_state_hash != header.end_state_hash'')
      else Ok ())))"

lemma scan_next_record_advances:
  assumes "scan_next_record body scan = Ok (Some (r, scan'))"
  shows "sc_offset scan < sc_offset scan' \<and> sc_offset scan < length body"
  using assms
  by (auto simp: scan_next_record_def Let_def split: if_splits)

function validate_loop ::
  "Header \<Rightarrow> byte list \<Rightarrow> RecordScan \<Rightarrow> bool \<Rightarrow> bool \<Rightarrow> bool
     \<Rightarrow> (RecordScan \<times> bool \<times> bool \<times> bool, ReadError) res" where
  "validate_loop header body scan saw_end saw_aux_non_end saw_epoch_hash =
     (if sc_offset scan < length body then
        if saw_end then Err REndNotLast
        else (case scan_next_record body scan of
            Err e \<Rightarrow> Err e
          | Panic \<Rightarrow> Panic
          | Ok None \<Rightarrow> Panic
          | Ok (Some (r, scan')) \<Rightarrow>
              if rec_kind r = KIND_END then
                (case validate_end header r of
                   Err e \<Rightarrow> Err e
                 | Panic \<Rightarrow> Panic
                 | Ok _ \<Rightarrow> validate_loop header body scan' True saw_aux_non_end saw_epoch_hash)
              else if rec_kind r = KIND_EPOCH_HASH then
                validate_loop header body scan' saw_end saw_aux_non_end True
              else if is_aux r then
                validate_loop header body scan' saw_end True saw_epoch_hash
              else validate_loop header body scan' saw_end saw_aux_non_end saw_epoch_hash)
      else Ok (scan, saw_end, saw_aux_non_end, saw_epoch_hash))"
  by pat_completeness auto
termination
  by (relation "measure (\<lambda>(h, body, scan, _). length body - sc_offset scan)")
    (auto dest!: scan_next_record_advances)

declare validate_loop.simps [simp del]

definition validate_records :: "Header \<Rightarrow> byte list \<Rightarrow> (unit, ReadError) res" where
  "validate_records header body =
     res_bind (validate_loop header body scan_default False False False)
       (\<lambda>(scan, saw_end, saw_aux_non_end, saw_epoch_hash).
          if \<not> saw_end then Err REndNotLast
          else if sc_count scan \<noteq> hd_record_count header
            then Err (RRecordCountMismatch (hd_record_count header) (sc_count scan))
          else if header_has_aux header \<noteq> (saw_aux_non_end \<or> saw_epoch_hash)
            then Err RHasAuxFlagMismatch
          else if header_has_epoch_hashes header \<noteq> saw_epoch_hash
            then Err REpochHashesFlagMismatch
          else Ok ())"

section \<open>The reader\<close>

record LogReader =
  lr_header :: Header
  lr_body :: "byte list"

definition log_parse :: "(byte list \<Rightarrow> byte list) \<Rightarrow> byte list \<Rightarrow> (LogReader, ReadError) res" where
  "log_parse blake3 bytes =
     res_bind (parse_header bytes) (\<lambda>header.
     res_bind (slice_res bytes HEADER_LEN (length bytes)) (\<lambda>body.
     if blake3 body \<noteq> hd_body_hash header then Err RBodyHashMismatch
     else res_bind (validate_records header body) (\<lambda>_.
       Ok \<lparr>lr_header = header, lr_body = body\<rparr>)))"

text \<open>One step of the \<open>Records\<close> iterator, and the list it yields.\<close>

definition records_next :: "byte list \<Rightarrow> nat \<Rightarrow> ((Rec \<times> nat) option, 'e) res" where
  "records_next body offset =
     (if offset \<ge> length body then Ok None
      else res_bind (slice_res body offset (length body)) (\<lambda>b.
      res_bind (rd_u16 b 2) (\<lambda>plen. let payload_len = unat plen in
      res_bind (index_res b 0) (\<lambda>kind.
      res_bind (index_res b 1) (\<lambda>rflags.
      res_bind (rd_u32 b 4) (\<lambda>seq.
      res_bind (rd_u64 b 8) (\<lambda>icount.
      res_bind (rd_u64 b 16) (\<lambda>boundary_rip.
      res_bind (slice_res b 24 (24 + payload_len)) (\<lambda>payload.
      Ok (Some (\<lparr>rec_kind = kind, rec_rflags = rflags, rec_seq = seq, rec_icount = icount,
                 rec_boundary_rip = boundary_rip, rec_payload = payload\<rparr>,
               offset + (24 + payload_len + pad_len payload_len))))))))))))"

lemma records_next_advances:
  assumes "records_next body offset = Ok (Some (r, offset'))"
  shows "offset < offset' \<and> offset < length body"
  using assms by (auto simp: records_next_def Let_def split: if_splits)

function records_from :: "byte list \<Rightarrow> nat \<Rightarrow> (Rec list, unit) res" where
  "records_from body offset =
     (case (records_next body offset :: ((Rec \<times> nat) option, unit) res) of
        Err e \<Rightarrow> Err e
      | Panic \<Rightarrow> Panic
      | Ok None \<Rightarrow> Ok []
      | Ok (Some (r, offset')) \<Rightarrow>
          (case records_from body offset' of
             Ok rs \<Rightarrow> Ok (r # rs) | Err e \<Rightarrow> Err e | Panic \<Rightarrow> Panic))"
  by pat_completeness auto
termination
  by (relation "measure (\<lambda>(body, offset). length body - offset)")
    (auto dest!: records_next_advances)

declare records_from.simps [simp del]

definition log_records :: "LogReader \<Rightarrow> (Rec list, unit) res" where
  "log_records lr = records_from (lr_body lr) 0"

definition log_canonical :: "LogReader \<Rightarrow> (Rec list, unit) res" where
  "log_canonical lr = res_bind (log_records lr) (\<lambda>rs. Ok (filter (\<lambda>r. \<not> is_aux r) rs))"

definition log_aux :: "LogReader \<Rightarrow> (Rec list, unit) res" where
  "log_aux lr = res_bind (log_records lr) (\<lambda>rs. Ok (filter is_aux rs))"

text \<open>\<open>LogReader::end\<close>: the last record's payload; \<open>unwrap\<close> and \<open>unreachable!\<close> panic.\<close>

definition log_end :: "LogReader \<Rightarrow> (u8 \<times> byte list, unit) res" where
  "log_end lr = res_bind (log_records lr) (\<lambda>rs.
     if rs = [] then Panic
     else res_bind (rec_body (last rs)) (\<lambda>b.
       case b of End stop_reason end_state_hash \<Rightarrow> Ok (stop_reason, end_state_hash) | _ \<Rightarrow> Panic))"

section \<open>Inspection of crash artifacts\<close>

datatype InspectionStop = Eof | Corrupt ReadError

record LogInspection =
  li_header :: Header
  li_records :: "Rec list"
  li_stop :: InspectionStop

function inspect_loop ::
  "byte list \<Rightarrow> RecordScan \<Rightarrow> Rec list \<Rightarrow> (Rec list \<times> InspectionStop, ReadError) res" where
  "inspect_loop body state records =
     (case scan_next_record body state of
        Ok (Some (r, state')) \<Rightarrow> inspect_loop body state' (records @ [r])
      | Ok None \<Rightarrow> Ok (records, Eof)
      | Err err \<Rightarrow> Ok (records, Corrupt err)
      | Panic \<Rightarrow> Panic)"
  by pat_completeness auto
termination
  by (relation "measure (\<lambda>(body, scan, _). length body - sc_offset scan)")
    (auto dest!: scan_next_record_advances)

declare inspect_loop.simps [simp del]

definition parse_unsealed :: "byte list \<Rightarrow> (LogInspection, ReadError) res" where
  "parse_unsealed bytes =
     res_bind (parse_header_for_inspection bytes) (\<lambda>header.
     res_bind (slice_res bytes HEADER_LEN (length bytes)) (\<lambda>body.
     res_bind (inspect_loop body scan_default []) (\<lambda>(records, stop).
       Ok \<lparr>li_header = header, li_records = records, li_stop = stop\<rparr>)))"

section \<open>Frames\<close>

text \<open>The frame of a record, and the fields a frame is read back into.\<close>

definition rec_frame :: "Rec \<Rightarrow> byte list" where
  "rec_frame r = frame_bytes (rec_kind r) (rec_rflags r) (rec_seq r) (rec_icount r)
     (rec_boundary_rip r) (rec_payload r)"

lemma length_frame_bytes [simp, wire]:
  "length (frame_bytes k f s i b p) = 24 + length p + pad_len (length p)"
  by (simp add: frame_bytes_def pad_len_def)

lemma frame_bytes_head:
  obtains H where "frame_bytes k f s i b p = H @ p @ zeros (pad_len (length p))"
    and "length H = 24"
  by (rule that [of "[k, f] @ to_le (of_nat (length p) :: u16) @ to_le s @ to_le i @ to_le b"])
    (simp_all add: frame_bytes_def pad_len_def)

lemma frame_bytes_fields:
  shows "(frame_bytes k f s i b p @ rest) ! 0 = k"
    and "(frame_bytes k f s i b p @ rest) ! Suc 0 = f"
    and "from_le (bslice (frame_bytes k f s i b p @ rest) 2 4) = (of_nat (length p) :: u16)"
    and "from_le (bslice (frame_bytes k f s i b p @ rest) 4 8) = s"
    and "from_le (bslice (frame_bytes k f s i b p @ rest) 8 16) = i"
    and "from_le (bslice (frame_bytes k f s i b p @ rest) 16 24) = b"
  by (simp_all add: frame_bytes_def bslice_def)

lemma frame_bytes_payload:
  shows "bslice (frame_bytes k f s i b p @ rest) 24 (24 + length p) = p"
    and "bslice (frame_bytes k f s i b p @ rest) (24 + length p) (24 + length p + pad_len (length p))
           = zeros (pad_len (length p))"
  by (rule frame_bytes_head [of k f s i b p]; simp add: wire)+

lemma frame_of_slices:
  assumes "24 + n + pad_len n \<le> length b" and "n = unat (from_le (bslice b 2 4) :: u16)"
    and pad: "bslice b (24 + n) (24 + n + pad_len n) = zeros (pad_len n)"
  shows "frame_bytes (b ! 0) (b ! 1) (from_le (bslice b 4 8)) (from_le (bslice b 8 16))
      (from_le (bslice b 16 24)) (bslice b 24 (24 + n)) = bslice b 0 (24 + n + pad_len n)"
proof -
  have "[b ! 0, b ! 1] = bslice b 0 2"
    using assms(1) by (cases b; cases "tl b") (auto simp: bslice_def)
  moreover have "length (bslice b 24 (24 + n)) = n"
    using assms(1) by simp
  moreover have "to_le (of_nat n :: u16) = bslice b 2 4"
    using assms(1) by (simp add: assms(2))
  ultimately show ?thesis
    using assms(1) pad [symmetric]
    by (simp add: frame_bytes_def bslice_join bslice_join_append flip: pad_len_def)
qed

section \<open>The scan accepts exactly the frames of admissible records\<close>

definition rec_wf :: "Rec \<Rightarrow> bool" where
  "rec_wf r \<longleftrightarrow> length (rec_payload r) \<le> MAX_PAYLOAD \<and> rec_rflags r AND NOT RFLAG_AUX = 0
     \<and> validate_kind (rec_kind r) (is_aux r) (rec_payload r) (rec_seq r) (rec_icount r) = Ok ()"

definition scan_admits :: "RecordScan \<Rightarrow> Rec \<Rightarrow> bool" where
  "scan_admits scan r \<longleftrightarrow> rec_wf r \<and> unat (rec_seq r) = unat (sc_count scan)
     \<and> (sc_count scan > 0 \<longrightarrow> sc_last_icount scan \<le> rec_icount r)"

definition scan_advance :: "RecordScan \<Rightarrow> Rec \<Rightarrow> RecordScan" where
  "scan_advance scan r = scan\<lparr>sc_offset := sc_offset scan + length (rec_frame r),
     sc_last_icount := rec_icount r, sc_count := sc_count scan + 1\<rparr>"

lemma scan_complete:
  assumes "drop (sc_offset scan) body = rec_frame r @ rest" and "scan_admits scan r"
  shows "scan_next_record body scan = Ok (Some (r, scan_advance scan r))"
proof -
  let ?n = "length (rec_payload r)"
  have len: "length body - sc_offset scan = 24 + ?n + pad_len ?n + length rest"
    using arg_cong [OF assms(1), of length] by (simp add: rec_frame_def)
  have b: "bslice body (sc_offset scan) (length body) = rec_frame r @ rest"
    using assms(1) by simp
  have n: "unat (of_nat ?n :: u16) = ?n"
    using assms(2) by (simp add: scan_admits_def rec_wf_def)
  have lt: "sc_offset scan < length body"
    using len by simp
  have wm: "sc_count scan = 0 \<or> sc_last_icount scan \<le> rec_icount r"
    using assms(2) by (auto simp: scan_admits_def word_gt_0)
  show ?thesis
    using assms(2) len b n lt wm
    by (simp add: scan_next_record_def Let_def rec_frame_def scan_admits_def rec_wf_def
        frame_bytes_fields frame_bytes_payload scan_advance_def is_aux_def not_less)
qed

lemma scan_sound:
  assumes "scan_next_record body scan = Ok (Some (r, scan'))"
  shows "drop (sc_offset scan) body = rec_frame r @ drop (sc_offset scan') body"
    and "scan_admits scan r" and "scan' = scan_advance scan r"
proof -
  let ?b = "drop (sc_offset scan) body"
  let ?n = "unat (from_le (bslice ?b 2 4) :: u16)"
  from assms have r: "r = \<lparr>rec_kind = ?b ! 0, rec_rflags = ?b ! 1, rec_seq = from_le (bslice ?b 4 8),
      rec_icount = from_le (bslice ?b 8 16), rec_boundary_rip = from_le (bslice ?b 16 24),
      rec_payload = bslice ?b 24 (24 + ?n)\<rparr>"
    and len: "24 + ?n + pad_len ?n \<le> length ?b"
    and pad: "\<not> list_ex (\<lambda>x. x \<noteq> 0) (bslice ?b (24 + ?n) (24 + ?n + pad_len ?n))"
    and scan': "scan' = scan\<lparr>sc_offset := sc_offset scan + (24 + ?n + pad_len ?n),
        sc_last_icount := rec_icount r, sc_count := sc_count scan + 1\<rparr>"
    and adm: "scan_admits scan r"
    by (auto simp: scan_next_record_def Let_def scan_admits_def rec_wf_def is_aux_def not_less
        split: if_splits)
  have n: "length (rec_payload r) = ?n"
    using len by (simp add: r)
  have "bslice ?b (24 + ?n) (24 + ?n + pad_len ?n) = zeros (pad_len ?n)"
    using pad len by (simp add: list_ex_nonzero)
  from frame_of_slices [OF len refl this]
  have fr: "rec_frame r = bslice ?b 0 (24 + ?n + pad_len ?n)"
    by (simp add: rec_frame_def r)
  show "scan' = scan_advance scan r"
    using n by (simp add: scan' scan_advance_def rec_frame_def)
  show "scan_admits scan r" by (rule adm)
  show "drop (sc_offset scan) body = rec_frame r @ drop (sc_offset scan') body"
    using drop_bslice [of 0 "24 + ?n + pad_len ?n" ?b] by (simp add: fr scan' add.commute)
qed

section \<open>No panic on any input\<close>

lemma kind_layout_no_panic [simp]: "kind_layout k p s i \<noteq> Panic"
  unfolding kind_layout_def by (intro no_panic_intros) simp_all

lemma validate_kind_no_panic [simp]: "validate_kind k a p s i \<noteq> Panic"
  by (auto simp: validate_kind_def res_bind_eq_Panic split: option.split)

lemma scan_next_record_no_panic [simp]: "scan_next_record body scan \<noteq> Panic"
  by (simp add: scan_next_record_def Let_def res_bind_eq_Panic del: length_bslice)

lemma parse_header_no_panic [simp]: "parse_header_with_seal bytes sealed \<noteq> Panic"
  by (simp add: parse_header_with_seal_def)

lemma rec_wf_end_payload: "rec_wf r \<Longrightarrow> rec_kind r = KIND_END \<Longrightarrow> length (rec_payload r) = 40"
  by (simp add: rec_wf_def validate_kind_def kind_class_aux_def kind_layout_def split: if_splits)

lemma rec_wf_epoch_aux: "rec_wf r \<Longrightarrow> rec_kind r = KIND_EPOCH_HASH \<Longrightarrow> is_aux r"
  by (simp add: rec_wf_def validate_kind_def kind_class_aux_def kind_layout_def split: if_splits)

lemma validate_end_no_panic: "rec_wf r \<Longrightarrow> rec_kind r = KIND_END \<Longrightarrow> validate_end h r \<noteq> Panic"
  using rec_wf_end_payload [of r] unfolding validate_end_def
  by (intro no_panic_intros) simp_all

lemma validate_loop_no_panic [simp]: "validate_loop h body scan se sa sh \<noteq> Panic"
proof (induction h body scan se sa sh rule: validate_loop.induct)
  case (1 h body scan se sa sh)
  show ?case
  proof (cases "sc_offset scan < length body \<and> \<not> se")
    case True
    show ?thesis
    proof (cases "scan_next_record body scan")
      case (Ok v)
      show ?thesis
      proof (cases v)
        case None
        with Ok have "length body \<le> sc_offset scan"
          by (simp add: scan_next_record_def Let_def split: if_splits)
        with True show ?thesis by simp
      next
        case (Some p)
        obtain r scan' where p: "p = (r, scan')" by (cases p)
        have "rec_wf r"
          using scan_sound(2) [of body scan r scan'] Ok Some p by (simp add: scan_admits_def)
        with 1 True Ok Some p show ?thesis
          by (subst validate_loop.simps)
            (auto split: res.split dest: validate_end_no_panic)
      qed
    qed (use True in \<open>simp_all add: validate_loop.simps [of h body scan]\<close>)
  qed (simp add: validate_loop.simps [of h body scan])
qed

lemma validate_records_no_panic [simp]: "validate_records h body \<noteq> Panic"
  by (auto simp: validate_records_def res_bind_eq_Panic split: if_splits)

lemma log_parse_not_panic: "log_parse blake3 bytes \<noteq> Panic"
proof -
  have "256 \<le> length bytes" if "parse_header bytes = Ok h" for h
    using that by (simp add: parse_header_def parse_header_with_seal_def split: if_splits)
  then show ?thesis
    by (auto simp: log_parse_def parse_header_def res_bind_eq_Panic split: if_splits)
qed

section \<open>The walk\<close>

fun admits_all :: "RecordScan \<Rightarrow> Rec list \<Rightarrow> bool" where
  "admits_all scan [] = True"
| "admits_all scan (r # rs) = (scan_admits scan r \<and> admits_all (scan_advance scan r) rs)"

fun walk_ok :: "Header \<Rightarrow> bool \<Rightarrow> Rec list \<Rightarrow> bool" where
  "walk_ok h saw_end [] = True"
| "walk_ok h saw_end (r # rs) = (\<not> saw_end \<and> (rec_kind r = KIND_END \<longrightarrow> validate_end h r = Ok ())
     \<and> walk_ok h (rec_kind r = KIND_END) rs)"

definition walk_result :: "RecordScan \<Rightarrow> bool \<Rightarrow> bool \<Rightarrow> bool \<Rightarrow> Rec list \<Rightarrow> RecordScan \<times> bool \<times> bool \<times> bool" where
  "walk_result scan se sa sh rs =
     (foldl scan_advance scan rs,
      se \<or> (\<exists>r \<in> set rs. rec_kind r = KIND_END),
      sa \<or> (\<exists>r \<in> set rs. is_aux r \<and> rec_kind r \<noteq> KIND_END \<and> rec_kind r \<noteq> KIND_EPOCH_HASH),
      sh \<or> (\<exists>r \<in> set rs. rec_kind r = KIND_EPOCH_HASH))"

lemma length_rec_frame [simp]:
  "length (rec_frame r) = 24 + length (rec_payload r) + pad_len (length (rec_payload r))"
  by (simp add: rec_frame_def)

lemma sc_offset_advance: "sc_offset (scan_advance scan r) = sc_offset scan + length (rec_frame r)"
  by (simp add: scan_advance_def)

lemma validate_loop_complete:
  assumes "drop (sc_offset scan) body = concat (map rec_frame rs)"
    and "admits_all scan rs" and "walk_ok h se rs"
  shows "validate_loop h body scan se sa sh = Ok (walk_result scan se sa sh rs)"
  using assms
proof (induction rs arbitrary: scan se sa sh)
  case Nil
  then show ?case by (simp add: validate_loop.simps [of h body scan] walk_result_def)
next
  case (Cons r rs)
  from Cons.prems have d: "drop (sc_offset scan) body = rec_frame r @ concat (map rec_frame rs)"
    by simp
  have lt: "sc_offset scan < length body"
    using arg_cong [OF d, of length] by simp
  have d': "drop (sc_offset (scan_advance scan r)) body = concat (map rec_frame rs)"
    using arg_cong [OF d, of "drop (length (rec_frame r))"]
    by (simp add: sc_offset_advance add.commute del: length_rec_frame)
  have scan: "scan_next_record body scan = Ok (Some (r, scan_advance scan r))"
    using d Cons.prems by (intro scan_complete) auto
  have "validate_loop h body (scan_advance scan r) (rec_kind r = KIND_END) sa' sh'
      = Ok (walk_result (scan_advance scan r) (rec_kind r = KIND_END) sa' sh' rs)" for sa' sh'
    using Cons.prems by (intro Cons.IH d') auto
  then show ?case
    using Cons.prems lt scan
    by (subst validate_loop.simps) (auto simp: walk_result_def)
qed

lemma validate_loop_sound:
  assumes "validate_loop h body scan se sa sh = Ok res"
  shows "\<exists>rs. drop (sc_offset scan) body = concat (map rec_frame rs)
    \<and> admits_all scan rs \<and> walk_ok h se rs"
  using assms
proof (induction h body scan se sa sh rule: validate_loop.induct)
  case (1 h body scan se sa sh)
  show ?case
  proof (cases "sc_offset scan < length body")
    case False
    then show ?thesis by (intro exI [of _ "[]"]) simp
  next
    case True
    with "1.prems" obtain r scan' where se: "\<not> se"
      and sn: "scan_next_record body scan = Ok (Some (r, scan'))"
      by (auto simp: validate_loop.simps [of h body scan] split: if_splits res.splits option.splits)
    note snd = scan_sound [OF sn]
    have ve: "rec_kind r = KIND_END \<longrightarrow> validate_end h r = Ok ()"
      using "1.prems" True se sn
      by (auto simp: validate_loop.simps [of h body scan] split: res.splits)
    have "\<exists>rs. drop (sc_offset scan') body = concat (map rec_frame rs)
        \<and> admits_all scan' rs \<and> walk_ok h (rec_kind r = KIND_END) rs"
      using "1.prems" "1.IH" True se sn ve
      by (auto simp: validate_loop.simps [of h body scan] split: if_splits)
    then obtain rs where "drop (sc_offset scan') body = concat (map rec_frame rs)"
        "admits_all scan' rs" "walk_ok h (rec_kind r = KIND_END) rs" by blast
    with snd ve se show ?thesis
      by (intro exI [of _ "r # rs"]) auto
  qed
qed

section \<open>The declarative format\<close>

definition log_ok :: "Header \<Rightarrow> Rec list \<Rightarrow> bool" where
  "log_ok h rs \<longleftrightarrow> rs \<noteq> []
     \<and> (\<forall>i < length rs. unat (rec_seq (rs ! i)) = i)
     \<and> sorted (map rec_icount rs)
     \<and> (\<forall>r \<in> set rs. rec_wf r)
     \<and> rec_kind (last rs) = KIND_END \<and> (\<forall>r \<in> set (butlast rs). rec_kind r \<noteq> KIND_END)
     \<and> validate_end h (last rs) = Ok ()
     \<and> unat (hd_record_count h) = length rs
     \<and> header_has_aux h = (\<exists>r \<in> set (butlast rs). is_aux r)
     \<and> header_has_epoch_hashes h = (\<exists>r \<in> set rs. rec_kind r = KIND_EPOCH_HASH)"

lemma unat_suc_u64: "unat (c :: u64) = unat (s :: u32) \<Longrightarrow> unat (c + 1) = Suc (unat c)"
  using unat_lt_pow [of s] by (simp add: unat_word_ariths)

lemma admits_all_iff:
  "admits_all scan rs \<longleftrightarrow>
     (\<forall>i < length rs. unat (rec_seq (rs ! i)) = unat (sc_count scan) + i)
     \<and> (sc_count scan > 0 \<longrightarrow> rs \<noteq> [] \<longrightarrow> sc_last_icount scan \<le> rec_icount (hd rs))
     \<and> sorted (map rec_icount rs) \<and> (\<forall>r \<in> set rs. rec_wf r)"
proof (induction rs arbitrary: scan)
  case (Cons r rs)
  show ?case
  proof (cases "unat (rec_seq r) = unat (sc_count scan)")
    case True
    from True have suc: "unat (sc_count scan + 1) = Suc (unat (sc_count scan))"
      by (metis unat_suc_u64)
    then have pos: "sc_count scan + 1 > 0"
      by (simp add: word_gt_0_no unat_eq_zero [symmetric] word_less_nat_alt)
    have nth: "(\<forall>i < length (r # rs). unat (rec_seq ((r # rs) ! i)) = unat (sc_count scan) + i)
        \<longleftrightarrow> (\<forall>i < length rs. unat (rec_seq (rs ! i)) = Suc (unat (sc_count scan)) + i)"
      using True by (auto simp: less_Suc_eq_0_disj)
    show ?thesis
      unfolding nth admits_all.simps Cons.IH
      using suc pos True
      by (cases rs) (auto simp: scan_advance_def scan_admits_def)
  next
    case False
    then show ?thesis by (auto simp: scan_admits_def)
  qed
qed simp

lemma walk_ok_iff:
  assumes "\<exists>r \<in> set rs. rec_kind r = KIND_END"
  shows "walk_ok h False rs \<longleftrightarrow> rec_kind (last rs) = KIND_END
    \<and> (\<forall>r \<in> set (butlast rs). rec_kind r \<noteq> KIND_END) \<and> validate_end h (last rs) = Ok ()"
  using assms
proof (induction rs)
  case (Cons r rs)
  have [simp]: "walk_ok h True rs \<longleftrightarrow> rs = []" by (cases rs) auto
  show ?case
    using Cons by (cases "rec_kind r = KIND_END") auto
qed simp

lemma sc_count_foldl: "sc_count (foldl scan_advance scan rs) = sc_count scan + of_nat (length rs)"
  by (induction rs arbitrary: scan) (auto simp: scan_advance_def)

lemma split_last: "rs \<noteq> [] \<Longrightarrow> set rs = insert (last rs) (set (butlast rs))"
  by (metis append_butlast_last_id insert_is_Un list.set(1) list.simps(15) set_append sup_commute)

lemma aux_non_end_or_epoch:
  assumes "\<forall>r \<in> set rs. rec_wf r" and "rs \<noteq> []" and "rec_kind (last rs) = KIND_END"
    and "\<forall>r \<in> set (butlast rs). rec_kind r \<noteq> KIND_END"
  shows "((\<exists>r \<in> set rs. is_aux r \<and> rec_kind r \<noteq> KIND_END \<and> rec_kind r \<noteq> KIND_EPOCH_HASH)
      \<or> (\<exists>r \<in> set rs. rec_kind r = KIND_EPOCH_HASH)) \<longleftrightarrow> (\<exists>r \<in> set (butlast rs). is_aux r)"
  using assms by (auto simp: split_last dest: rec_wf_epoch_aux)

lemma validate_records_walk:
  assumes "body = concat (map rec_frame rs)" and "admits_all scan_default rs" and "walk_ok h False rs"
  shows "validate_records h body = Ok () \<longleftrightarrow> (\<exists>r \<in> set rs. rec_kind r = KIND_END)
    \<and> of_nat (length rs) = hd_record_count h
    \<and> header_has_aux h = ((\<exists>r \<in> set rs. is_aux r \<and> rec_kind r \<noteq> KIND_END \<and> rec_kind r \<noteq> KIND_EPOCH_HASH)
      \<or> (\<exists>r \<in> set rs. rec_kind r = KIND_EPOCH_HASH))
    \<and> header_has_epoch_hashes h = (\<exists>r \<in> set rs. rec_kind r = KIND_EPOCH_HASH)"
proof -
  have "validate_loop h body scan_default False False False
      = Ok (walk_result scan_default False False False rs)"
    using assms by (intro validate_loop_complete) (simp_all add: scan_default_def)
  then show ?thesis
    by (simp add: validate_records_def walk_result_def sc_count_foldl scan_default_def)
qed

lemma length_fits:
  assumes "\<forall>i < length rs. unat (rec_seq (rs ! i)) = i"
  shows "unat (of_nat (length rs) :: u64) = length rs"
proof (cases rs rule: rev_cases)
  case (snoc xs r)
  have "length xs < 2 ^ 32"
    using unat_lt_pow [of "rec_seq (rs ! length xs)"] assms snoc by auto
  then have "length rs < 2 ^ LENGTH(64)"
    by (simp add: snoc)
  then show ?thesis by (rule unat_of_nat_fits)
qed simp

lemma log_ok_walk:
  assumes "\<exists>r \<in> set rs. rec_kind r = KIND_END"
  shows "log_ok h rs \<longleftrightarrow> admits_all scan_default rs \<and> walk_ok h False rs
    \<and> of_nat (length rs) = hd_record_count h
    \<and> header_has_aux h = ((\<exists>r \<in> set rs. is_aux r \<and> rec_kind r \<noteq> KIND_END \<and> rec_kind r \<noteq> KIND_EPOCH_HASH)
      \<or> (\<exists>r \<in> set rs. rec_kind r = KIND_EPOCH_HASH))
    \<and> header_has_epoch_hashes h = (\<exists>r \<in> set rs. rec_kind r = KIND_EPOCH_HASH)"
    (is "_ \<longleftrightarrow> ?rhs")
proof -
  have ne: "rs \<noteq> []" using assms by auto
  have cnt: "unat (hd_record_count h) = length rs \<longleftrightarrow> of_nat (length rs) = hd_record_count h"
    if "\<forall>i < length rs. unat (rec_seq (rs ! i)) = i"
    using length_fits [OF that] by (auto simp: word_unat_eq_iff)
  show ?thesis
    unfolding log_ok_def walk_ok_iff [OF assms] admits_all_iff
    using ne cnt aux_non_end_or_epoch [of rs] by (auto simp: scan_default_def)
qed

lemma validate_records_eq:
  "validate_records h body = Ok () \<longleftrightarrow> (\<exists>rs. body = concat (map rec_frame rs) \<and> log_ok h rs)"
proof
  assume v: "validate_records h body = Ok ()"
  then obtain res where "validate_loop h body scan_default False False False = Ok res"
    by (auto simp: validate_records_def)
  from validate_loop_sound [OF this] obtain rs where
    rs: "body = concat (map rec_frame rs)" "admits_all scan_default rs" "walk_ok h False rs"
    by (auto simp: scan_default_def)
  with v have "log_ok h rs"
    using log_ok_walk [of rs h] by (simp add: validate_records_walk)
  with rs show "\<exists>rs. body = concat (map rec_frame rs) \<and> log_ok h rs" by blast
next
  assume "\<exists>rs. body = concat (map rec_frame rs) \<and> log_ok h rs"
  then obtain rs where b: "body = concat (map rec_frame rs)" and ok: "log_ok h rs" by blast
  have e: "\<exists>r \<in> set rs. rec_kind r = KIND_END"
    using ok by (intro bexI [of _ "last rs"]) (simp_all add: log_ok_def)
  show "validate_records h body = Ok ()"
    using ok b e by (simp add: log_ok_walk [OF e] validate_records_walk)
qed

section \<open>The iterator\<close>

lemma records_next_frame:
  assumes "length (rec_payload r) < 65536" and "drop offset body = rec_frame r @ rest"
  shows "records_next body offset = Ok (Some (r, offset + length (rec_frame r)))"
proof -
  have "offset < length body"
    using arg_cong [OF assms(2), of length] by simp
  moreover have "unat (of_nat (length (rec_payload r)) :: u16) = length (rec_payload r)"
    using assms(1) by simp
  ultimately show ?thesis
    using assms
    by (simp add: records_next_def Let_def rec_frame_def frame_bytes_fields frame_bytes_payload)
qed

lemma records_from_frames:
  assumes "\<forall>r \<in> set rs. length (rec_payload r) < 65536"
    and "drop offset body = concat (map rec_frame rs)"
  shows "records_from body offset = Ok rs"
  using assms
proof (induction rs arbitrary: offset)
  case Nil
  then show ?case by (simp add: records_from.simps [of body offset] records_next_def)
next
  case (Cons r rs)
  from Cons.prems have d: "drop offset body = rec_frame r @ concat (map rec_frame rs)"
    by simp
  have "drop (offset + length (rec_frame r)) body = concat (map rec_frame rs)"
    using arg_cong [OF d, of "drop (length (rec_frame r))"]
    by (simp add: add.commute del: length_rec_frame)
  with Cons have "records_from body (offset + length (rec_frame r)) = Ok rs"
    by simp
  moreover have "records_next body offset = (Ok (Some (r, offset + length (rec_frame r))) :: (_, unit) res)"
    using d Cons.prems by (intro records_next_frame) auto
  ultimately show ?case
    by (simp add: records_from.simps [of body offset] del: length_rec_frame)
qed

section \<open>Typed views and inspection\<close>

lemma log_ok_records:
  assumes "log_ok h rs"
  shows "records_from (concat (map rec_frame rs)) 0 = Ok rs"
  using assms by (intro records_from_frames) (auto simp: log_ok_def rec_wf_def)

lemma rec_wf_body:
  assumes "rec_wf r"
  shows "\<exists>b. rec_body r = (Ok b :: (RecordBody, 'e) res)"
proof -
  have "rec_body r \<noteq> (Panic :: (RecordBody, 'e) res)" "\<And>e. rec_body r \<noteq> (Err e :: (RecordBody, 'e) res)"
    using assms
    by (auto simp: rec_wf_def validate_kind_def kind_class_aux_def kind_layout_def rec_body_def Let_def
        res_bind_eq_Panic split: if_splits)
  then show ?thesis by (cases "rec_body r :: (RecordBody, 'e) res") auto
qed

lemma validate_end_body:
  assumes "rec_wf r" and "rec_kind r = KIND_END" and "validate_end h r = Ok ()"
  shows "rec_body r = (Ok (End (rec_payload r ! 0) (hd_end_state_hash h)) :: (RecordBody, 'e) res)
    \<and> rec_icount r = hd_end_icount h"
  using assms rec_wf_end_payload [of r]
  by (auto simp: validate_end_def rec_body_def Let_def split: if_splits)

text \<open>
  \<open>good_prefix\<close>: \<open>rs\<close> is the longest run of admissible frames at the scan position, and
  \<open>rest\<close> is what follows it.
\<close>

definition good_prefix :: "RecordScan \<Rightarrow> byte list \<Rightarrow> Rec list \<Rightarrow> byte list \<Rightarrow> bool" where
  "good_prefix scan bs rs rest \<longleftrightarrow> bs = concat (map rec_frame rs) @ rest \<and> admits_all scan rs
     \<and> (\<forall>r rest'. rest = rec_frame r @ rest' \<longrightarrow> \<not> admits_all scan (rs @ [r]))"

lemma rec_frame_not_Nil [simp]: "rec_frame r \<noteq> []"
  using length_rec_frame [of r] by (metis add_is_0 list.size(3) zero_neq_numeral)

lemma inspect_loop_prefix:
  "\<exists>rs stop rest. inspect_loop body scan acc = Ok (acc @ rs, stop)
    \<and> good_prefix scan (drop (sc_offset scan) body) rs rest \<and> (stop = Eof \<longleftrightarrow> rest = [])"
proof (induction body scan acc rule: inspect_loop.induct)
  case (1 body scan acc)
  let ?d = "drop (sc_offset scan) body"
  show ?case
  proof (cases "scan_next_record body scan")
    case (Ok v)
    show ?thesis
    proof (cases v)
      case None
      with Ok have "length body \<le> sc_offset scan"
        by (simp add: scan_next_record_def Let_def split: if_splits)
      with Ok None show ?thesis
        by (intro exI [of _ "[]"] exI [of _ Eof]) (simp add: inspect_loop.simps [of body scan] good_prefix_def)
    next
      case (Some p)
      obtain r scan' where p: "p = (r, scan')" by (cases p)
      note sound = scan_sound [OF Ok [unfolded Some p]]
      from 1 [OF Ok Some p [symmetric]] obtain rs stop rest where
        ih: "inspect_loop body scan' (acc @ [r]) = Ok ((acc @ [r]) @ rs, stop)"
          "good_prefix scan' (drop (sc_offset scan') body) rs rest" "stop = Eof \<longleftrightarrow> rest = []"
        by blast
      with sound have "good_prefix scan ?d (r # rs) rest"
        by (auto simp: good_prefix_def)
      with ih Ok Some p show ?thesis
        by (intro exI [of _ "r # rs"] exI [of _ stop] exI [of _ rest])
          (simp add: inspect_loop.simps [of body scan])
    qed
  next
    case (Err e)
    then have lt: "sc_offset scan < length body"
      by (simp add: scan_next_record_def split: if_splits)
    have "good_prefix scan ?d [] ?d"
      using Err scan_complete [of scan body] by (fastforce simp: good_prefix_def)
    with Err lt show ?thesis
      by (intro exI [of _ "[]"] exI [of _ "Corrupt e"] exI [of _ ?d])
        (simp add: inspect_loop.simps [of body scan])
  qed simp
qed

lemma parse_header_long: "parse_header_with_seal bytes sealed = Ok h \<Longrightarrow> 256 \<le> length bytes"
  by (simp add: parse_header_with_seal_def split: if_splits)

lemma parse_unsealed_not_panic: "parse_unsealed bytes \<noteq> Panic"
proof -
  have "inspect_loop body scan_default [] \<noteq> Panic" for body
    using inspect_loop_prefix [of body scan_default "[]"] by auto
  then show ?thesis
    by (auto simp: parse_unsealed_def parse_header_for_inspection_def res_bind_eq_Panic
        dest: parse_header_long)
qed

lemma log_parse_format:
  assumes p: "log_parse blake3 bytes = Ok lr"
  obtains rs where "parse_header bytes = Ok (lr_header lr)" and "lr_body lr = drop HEADER_LEN bytes"
    and "blake3 (lr_body lr) = hd_body_hash (lr_header lr)"
    and "lr_body lr = concat (map rec_frame rs)" and "log_ok (lr_header lr) rs" and "log_records lr = Ok rs"
proof -
  from p obtain h where h: "parse_header bytes = Ok h" "256 \<le> length bytes"
    by (auto simp: log_parse_def parse_header_def dest: parse_header_long)
  with p have v: "validate_records h (drop 256 bytes) = Ok ()" "blake3 (drop 256 bytes) = hd_body_hash h"
    "lr = \<lparr>lr_header = h, lr_body = drop 256 bytes\<rparr>"
    by (auto simp: log_parse_def split: if_splits)
  then obtain rs where "drop 256 bytes = concat (map rec_frame rs)" "log_ok h rs"
    by (auto simp: validate_records_eq)
  with h v show thesis
    by (intro that [of rs]) (auto simp: log_records_def log_ok_records)
qed

section \<open>Properties\<close>

text \<open>
  C2. The reader accepts exactly the images whose header parses as sealed, whose body hash
  matches, and whose body is a concatenation of frames of a record list in the declarative
  format: dense sequence numbers, sorted icounts, well-formed payloads, one END, last and
  agreeing with the header, and header counts and flags that match. The iterator then
  yields exactly those records.
\<close>

theorem log_parse_iff:
  "log_parse blake3 bytes = Ok lr \<longleftrightarrow>
     parse_header bytes = Ok (lr_header lr) \<and> lr_body lr = drop HEADER_LEN bytes
     \<and> blake3 (lr_body lr) = hd_body_hash (lr_header lr)
     \<and> (\<exists>rs. lr_body lr = concat (map rec_frame rs) \<and> log_ok (lr_header lr) rs \<and> log_records lr = Ok rs)"
    (is "_ \<longleftrightarrow> ?rhs")
proof
  assume "log_parse blake3 bytes = Ok lr"
  then show ?rhs by (rule log_parse_format) blast
next
  assume r: ?rhs
  then have "256 \<le> length bytes"
    by (auto simp: parse_header_def dest: parse_header_long)
  moreover have "validate_records (lr_header lr) (drop 256 bytes) = Ok ()"
    using r unfolding validate_records_eq by metis
  ultimately show "log_parse blake3 bytes = Ok lr"
    using r by (auto simp: log_parse_def)
qed

text \<open>
  C3. No byte string makes the sealed parser or the inspection parser panic: every slice,
  index and \<open>unwrap\<close> of the two walks is dominated by a length check.
\<close>

theorem readers_never_panic: "log_parse blake3 bytes \<noteq> Panic \<and> parse_unsealed bytes \<noteq> Panic"
  by (simp add: log_parse_not_panic parse_unsealed_not_panic)

text \<open>
  C4. The inspection path of crash artifacts is complete and sound: once the header is
  readable it returns the longest run of admissible records at the start of the body,
  and reports a clean end of file exactly when nothing follows that run.
\<close>

theorem parse_unsealed_longest_prefix:
  assumes "parse_header_for_inspection bytes = Ok h"
  shows "\<exists>rs stop rest. parse_unsealed bytes = Ok \<lparr>li_header = h, li_records = rs, li_stop = stop\<rparr>
    \<and> good_prefix scan_default (drop HEADER_LEN bytes) rs rest \<and> (stop = Eof \<longleftrightarrow> rest = [])"
proof -
  have "256 \<le> length bytes"
    using assms by (auto simp: parse_header_for_inspection_def dest: parse_header_long)
  moreover obtain rs stop rest where "inspect_loop (drop 256 bytes) scan_default [] = Ok (rs, stop)"
    "good_prefix scan_default (drop 256 bytes) rs rest" "stop = Eof \<longleftrightarrow> rest = []"
    using inspect_loop_prefix [of "drop 256 bytes" scan_default "[]"] by (auto simp: scan_default_def)
  ultimately show ?thesis
    using assms by (auto simp: parse_unsealed_def)
qed

definition ex_crash_image :: "byte list" where
  "ex_crash_image = DHILOG_MAGIC @ [0, 1, 0, 1] @ zeros 138 @ [1] @ zeros 107 @ [KIND_FRAME_MARK]"

theorem parse_unsealed_longest_prefix_witness:
  "\<exists>h rs stop rest. parse_unsealed ex_crash_image = Ok \<lparr>li_header = h, li_records = rs, li_stop = stop\<rparr>
    \<and> good_prefix scan_default [KIND_FRAME_MARK] rs rest \<and> (stop = Eof \<longleftrightarrow> rest = [])"
proof -
  have "\<exists>h. parse_header_for_inspection ex_crash_image = Ok h"
    by (simp add: parse_header_for_inspection_def parse_header_with_seal_def ex_crash_image_def bslice_def
        from_le_def)
  then obtain h where "parse_header_for_inspection ex_crash_image = Ok h" by blast
  from parse_unsealed_longest_prefix [OF this] show ?thesis
    by (auto simp: ex_crash_image_def)
qed

end
