(* ===== verification/Log_Roundtrip.thy ===== *)
theory Log_Roundtrip
  imports Log_Reader
begin

text \<open>
  The writer and the reader together. A client of \<open>LogWriter\<close> is any sequence of calls to
  its record methods, whose errors it may ignore; \<open>accepted\<close> lists the calls the writer took.
  The writer's contract \<open>writes\<close> relates its buffer to the records it stands for; every
  call keeps it, so that a sealed image satisfies the reader's declarative format and is
  read back call by call.
\<close>

section \<open>Clients of the writer\<close>

datatype LogOp =
    OpPadSet u64 u64 u8 u32 u32
  | OpDevEvent u64 u64 u16 u16 "byte list"
  | OpNetRx u64 u64 "byte list"
  | OpPioAnswer u64 u64 u16 u32
  | OpEntropy u64 u64 u32 u64
  | OpNetTx u64 u64 u32 u64
  | OpEpochHash u64 u64 u64 "byte list"
  | OpTimerFire u64 u64 u8 u64 u64
  | OpSdkEvent u64 u64 u16 u32 u64
  | OpFrameMark u64 u64 u32
  | OpBisectionCheckpoint u64 u64 u32 "byte list" u64

fun apply_op :: "LogOp \<Rightarrow> LogWriter \<Rightarrow> (unit, WriteError) res \<times> LogWriter" where
  "apply_op (OpPadSet i b port buttons hint) w = pad_set i b port buttons hint w"
| "apply_op (OpDevEvent i b dev ev data) w = dev_event i b dev ev data w"
| "apply_op (OpNetRx i b frame) w = net_rx i b frame w"
| "apply_op (OpPioAnswer i b port v) w = pio_answer i b port v w"
| "apply_op (OpEntropy i b len dig) w = entropy i b len dig w"
| "apply_op (OpNetTx i b len dig) w = net_tx i b len dig w"
| "apply_op (OpEpochHash i b e cv) w = epoch_hash i b e cv w"
| "apply_op (OpTimerFire i b v armed deliv) w = timer_fire i b v armed deliv w"
| "apply_op (OpSdkEvent i b st len dig) w = sdk_event i b st len dig w"
| "apply_op (OpFrameMark i b f) w = frame_mark i b f w"
| "apply_op (OpBisectionCheckpoint i b g sr v) w = bisection_checkpoint i b g sr v w"

fun run_ops :: "LogOp list \<Rightarrow> LogWriter \<Rightarrow> LogWriter" where
  "run_ops [] w = w"
| "run_ops (op # ops) w = run_ops ops (snd (apply_op op w))"

fun accepted :: "LogOp list \<Rightarrow> LogWriter \<Rightarrow> LogOp list" where
  "accepted [] w = []"
| "accepted (op # ops) w =
     (if fst (apply_op op w) = Ok () then op # accepted ops (snd (apply_op op w))
      else accepted ops (snd (apply_op op w)))"

text \<open>The arguments that are \<open>[u8; 32]\<close> in the source.\<close>

fun op_typed :: "LogOp \<Rightarrow> bool" where
  "op_typed (OpEpochHash i b e cv) = is_b32 cv"
| "op_typed (OpBisectionCheckpoint i b g sr v) = is_b32 sr"
| "op_typed _ = True"

definition header_typed :: "SegmentHeader \<Rightarrow> bool" where
  "header_typed h \<longleftrightarrow> is_b32 (sh_base_snapshot_id h) \<and> is_b32 (sh_entropy_seed h)
     \<and> is_b32 (sh_machine_config_hash h)"

definition params_typed :: "SealParams \<Rightarrow> bool" where
  "params_typed p \<longleftrightarrow> is_b32 (sp_end_snapshot_id p) \<and> is_b32 (sp_end_state_hash p)"

text \<open>What a replayer sees of a call: its boundary and its typed payload.\<close>

fun op_boundary :: "LogOp \<Rightarrow> u64 \<times> u64" where
  "op_boundary (OpPadSet i b _ _ _) = (i, b)"
| "op_boundary (OpDevEvent i b _ _ _) = (i, b)"
| "op_boundary (OpNetRx i b _) = (i, b)"
| "op_boundary (OpPioAnswer i b _ _) = (i, b)"
| "op_boundary (OpEntropy i b _ _) = (i, b)"
| "op_boundary (OpNetTx i b _ _) = (i, b)"
| "op_boundary (OpEpochHash i b _ _) = (i, b)"
| "op_boundary (OpTimerFire i b _ _ _) = (i, b)"
| "op_boundary (OpSdkEvent i b _ _ _) = (i, b)"
| "op_boundary (OpFrameMark i b _) = (i, b)"
| "op_boundary (OpBisectionCheckpoint i b _ _ _) = (i, b)"

fun op_body :: "LogOp \<Rightarrow> RecordBody" where
  "op_body (OpPadSet i b port buttons hint) = PadSet port buttons hint"
| "op_body (OpDevEvent i b dev ev data) = DevEvent dev ev data"
| "op_body (OpNetRx i b frame) = NetRx frame"
| "op_body (OpPioAnswer i b port v) =
     DevEvent DEVICE_ID_DETCHANNEL EVENT_PIO_ANSWER (to_le port @ [0, 0] @ to_le v)"
| "op_body (OpEntropy i b len dig) = Entropy len dig"
| "op_body (OpNetTx i b len dig) = NetTx len dig"
| "op_body (OpEpochHash i b e cv) = EpochHash e cv"
| "op_body (OpTimerFire i b v armed deliv) = TimerFire v armed deliv"
| "op_body (OpSdkEvent i b st len dig) = SdkEvent st len dig"
| "op_body (OpFrameMark i b f) = FrameMark f"
| "op_body (OpBisectionCheckpoint i b g sr v) =
     BisectionCheckpoint BISECTION_CHECKPOINT_FORMAT_VERSION BISECTION_CHECKPOINT_FLAGS g sr i v"

section \<open>A failed call changes nothing\<close>

lemmas op_defs = pad_set_def dev_event_def net_rx_def pio_answer_def entropy_def net_tx_def
  epoch_hash_def timer_fire_def sdk_event_def frame_mark_def bisection_checkpoint_def

lemma log_record_error: "fst (log_record k f i b p w) \<noteq> Ok () \<Longrightarrow> snd (log_record k f i b p w) = w"
  by (auto simp: log_record_def split: option.splits)

lemma log_record_not_panic: "fst (log_record k f i b p w) \<noteq> Panic"
  by (simp add: log_record_def split: option.split)

lemma log_record_ErrD: "log_record k f i b p w = (Err e, w') \<Longrightarrow> w' = w"
  using log_record_error [of k f i b p w] by simp

lemma log_record_PanicD: "log_record k f i b p w \<noteq> (Panic, w')"
  using log_record_not_panic [of k f i b p w] by auto

lemma apply_op_error: "fst (apply_op op w) \<noteq> Ok () \<Longrightarrow> snd (apply_op op w) = w"
  by (cases op) (auto simp: op_defs Let_def log_record_error log_record_PanicD
      split: prod.splits res.splits if_splits dest: log_record_ErrD)

section \<open>The writer's contract\<close>

definition writes :: "LogWriter \<Rightarrow> Rec list \<Rightarrow> bool" where
  "writes w rs \<longleftrightarrow> lw_buf w = zeros HEADER_LEN @ concat (map rec_frame rs)
     \<and> unat (lw_record_count w) = length rs
     \<and> (rs \<noteq> [] \<longrightarrow> lw_last_icount w = rec_icount (last rs))
     \<and> lw_has_aux w = (\<exists>r \<in> set rs. is_aux r)
     \<and> lw_wrote_epoch_hash w = (\<exists>r \<in> set rs. rec_kind r = KIND_EPOCH_HASH)
     \<and> (\<forall>i < length rs. unat (rec_seq (rs ! i)) = i)
     \<and> sorted (map rec_icount rs)
     \<and> (\<forall>r \<in> set rs. rec_wf r \<and> rec_kind r \<noteq> KIND_END)"

lemma writes_new: "writes (log_new h) []"
  by (simp add: writes_def log_new_def)

text \<open>
  One append: the buffer grows by one frame, whose sequence number is the index of the
  record and whose icount is not below the last one.
\<close>

lemma log_record_Ok:
  assumes "log_record k f i b p w = (Ok (), w')"
  obtains seq where "unat seq = unat (lw_record_count w)" and "length p \<le> MAX_PAYLOAD"
    and "lw_record_count w > 0 \<longrightarrow> lw_last_icount w \<le> i"
    and "w' = w\<lparr>lw_buf := lw_buf w @ frame_bytes k f seq i b p,
           lw_record_count := lw_record_count w + 1, lw_last_icount := i,
           lw_has_aux := (lw_has_aux w \<or> f AND RFLAG_AUX \<noteq> 0)\<rparr>"
  using assms
  by (auto simp: log_record_def word_of_nat_opt_Some_iff not_less split: if_splits option.splits)

lemma sorted_snoc: "sorted (xs @ [x]) \<longleftrightarrow> sorted xs \<and> (xs \<noteq> [] \<longrightarrow> last xs \<le> x)"
  by (induction xs) (auto simp: sorted_append dest: order_trans split: if_splits)


text \<open>A frame the reader accepts for any sequence number, with the typed payload it shows.\<close>

definition frame_shows :: "u8 \<Rightarrow> u8 \<Rightarrow> u64 \<Rightarrow> byte list \<Rightarrow> RecordBody \<Rightarrow> bool" where
  "frame_shows k f i p body \<longleftrightarrow> k \<noteq> KIND_END \<and> f AND NOT RFLAG_AUX = 0
     \<and> (\<forall>seq. validate_kind k (f AND RFLAG_AUX \<noteq> 0) p seq i = Ok ())
     \<and> (\<forall>seq b. rec_body \<lparr>rec_kind = k, rec_rflags = f, rec_seq = seq, rec_icount = i,
           rec_boundary_rip = b, rec_payload = p\<rparr> = (Ok body :: (RecordBody, unit) res))"

lemmas frame_shows_simps =
  frame_shows_def validate_kind_def kind_class_aux_def kind_layout_def rec_body_def

lemma log_record_writes:
  assumes "log_record k f i b p w = (Ok (), w')" and "writes w rs" and "frame_shows k f i p body"
  obtains r where "writes (w'\<lparr>lw_wrote_epoch_hash := (lw_wrote_epoch_hash w \<or> k = KIND_EPOCH_HASH)\<rparr>) (rs @ [r])"
    and "rec_body r = (Ok body :: (RecordBody, unit) res)" and "rec_icount r = i" and "rec_boundary_rip r = b"
proof -
  from assms(1) obtain seq where seq: "unat seq = unat (lw_record_count w)"
    and len: "length p \<le> MAX_PAYLOAD" and mono: "lw_record_count w > 0 \<longrightarrow> lw_last_icount w \<le> i"
    and w': "w' = w\<lparr>lw_buf := lw_buf w @ frame_bytes k f seq i b p,
        lw_record_count := lw_record_count w + 1, lw_last_icount := i,
        lw_has_aux := (lw_has_aux w \<or> f AND RFLAG_AUX \<noteq> 0)\<rparr>"
    by (rule log_record_Ok)
  let ?r = "\<lparr>rec_kind = k, rec_rflags = f, rec_seq = seq, rec_icount = i,
      rec_boundary_rip = b, rec_payload = p\<rparr>"
  have wf: "rec_wf ?r" "k \<noteq> KIND_END"
    using assms(3) len by (simp_all add: frame_shows_def rec_wf_def is_aux_def)
  have cnt: "unat (lw_record_count w + 1) = Suc (length rs)"
    using seq assms(2) unat_suc_u64 [of "lw_record_count w" seq] by (simp add: writes_def)
  have "rs \<noteq> [] \<longrightarrow> last (map rec_icount rs) \<le> i"
    using mono assms(2) by (auto simp: writes_def last_map word_gt_0 simp flip: unat_eq_zero)
  then have "writes (w'\<lparr>lw_wrote_epoch_hash := (lw_wrote_epoch_hash w \<or> k = KIND_EPOCH_HASH)\<rparr>) (rs @ [?r])"
    using assms(2) wf cnt seq
    by (auto simp: writes_def w' rec_frame_def is_aux_def sorted_snoc nth_append less_Suc_eq)
  moreover have "rec_body ?r = (Ok body :: (RecordBody, unit) res)"
    using assms(3) by (simp add: frame_shows_def)
  ultimately show thesis
    by (rule that) simp_all
qed

lemma log_record_epoch_flag:
  "log_record k f i b p w = (r, w') \<Longrightarrow> lw_wrote_epoch_hash w' = lw_wrote_epoch_hash w"
  by (auto simp: log_record_def split: if_splits option.splits)

definition appends :: "LogWriter \<Rightarrow> LogWriter \<Rightarrow> u64 \<Rightarrow> u64 \<Rightarrow> RecordBody \<Rightarrow> bool" where
  "appends w w' i b body \<longleftrightarrow> (\<exists>k f p w1. log_record k f i b p w = (Ok (), w1)
     \<and> w' = w1\<lparr>lw_wrote_epoch_hash := (lw_wrote_epoch_hash w \<or> k = KIND_EPOCH_HASH)\<rparr>
     \<and> frame_shows k f i p body)"

lemma appends_plain:
  "log_record k f i b p w = (Ok (), w') \<Longrightarrow> k \<noteq> KIND_EPOCH_HASH \<Longrightarrow> frame_shows k f i p body
     \<Longrightarrow> appends w w' i b body"
  unfolding appends_def using log_record_epoch_flag [of k f i b p w "Ok ()" w']
  by (intro exI [of _ k] exI [of _ f] exI [of _ p] exI [of _ w']) simp

lemma appends_writes:
  assumes "appends w w' i b body" and "writes w rs"
  obtains r where "writes w' (rs @ [r])" and "rec_body r = (Ok body :: (RecordBody, unit) res)"
    and "rec_icount r = i" and "rec_boundary_rip r = b"
  using assms log_record_writes unfolding appends_def by metis

lemma pad_set_appends:
  "pad_set i b port buttons hint w = (Ok (), w') \<Longrightarrow> appends w w' i b (PadSet port buttons hint)"
  unfolding pad_set_def Let_def
  by (erule appends_plain) (simp_all add: frame_shows_simps wire)

lemma dev_event_appends:
  "dev_event i b dev ev data w = (Ok (), w') \<Longrightarrow> appends w w' i b (DevEvent dev ev data)"
  unfolding dev_event_def Let_def
  by (split if_split_asm) (simp, erule appends_plain, simp_all add: frame_shows_simps wire)

lemma net_rx_appends:
  "net_rx i b frame w = (Ok (), w') \<Longrightarrow> appends w w' i b (NetRx frame)"
  unfolding net_rx_def
  by (auto simp: frame_shows_simps Suc_le_eq elim!: appends_plain split: if_splits)

lemma pio_answer_appends:
  "pio_answer i b port v w = (Ok (), w') \<Longrightarrow>
     appends w w' i b (DevEvent DEVICE_ID_DETCHANNEL EVENT_PIO_ANSWER (to_le port @ [0, 0] @ to_le v))"
  unfolding pio_answer_def Let_def
  by (drule dev_event_appends) (simp add: overwrite_def numeral_2_eq_2)

lemma entropy_appends:
  "entropy i b len dig w = (Ok (), w') \<Longrightarrow> appends w w' i b (Entropy len dig)"
  unfolding entropy_def Let_def
  by (erule appends_plain) (simp_all add: frame_shows_simps wire)

lemma net_tx_appends:
  "net_tx i b len dig w = (Ok (), w') \<Longrightarrow> appends w w' i b (NetTx len dig)"
  unfolding net_tx_def Let_def
  by (erule appends_plain) (simp_all add: frame_shows_simps wire)

lemma timer_fire_appends:
  "timer_fire i b v armed deliv w = (Ok (), w') \<Longrightarrow> appends w w' i b (TimerFire v armed deliv)"
  unfolding timer_fire_def Let_def
  by (erule appends_plain) (simp_all add: frame_shows_simps wire)

lemma sdk_event_appends:
  "sdk_event i b st len dig w = (Ok (), w') \<Longrightarrow> appends w w' i b (SdkEvent st len dig)"
  unfolding sdk_event_def Let_def
  by (erule appends_plain) (simp_all add: frame_shows_simps wire)

lemma frame_mark_appends:
  "frame_mark i b f w = (Ok (), w') \<Longrightarrow> appends w w' i b (FrameMark f)"
  unfolding frame_mark_def Let_def
  by (erule appends_plain) (simp_all add: frame_shows_simps wire)

lemma bisection_checkpoint_appends:
  "bisection_checkpoint i b g sr v w = (Ok (), w') \<Longrightarrow> is_b32 sr \<Longrightarrow>
     appends w w' i b (BisectionCheckpoint BISECTION_CHECKPOINT_FORMAT_VERSION
       BISECTION_CHECKPOINT_FLAGS g sr i v)"
  unfolding bisection_checkpoint_def Let_def
  by (erule appends_plain) (simp_all add: frame_shows_simps wire)

lemma epoch_hash_appends:
  assumes "epoch_hash i b e cv w = (Ok (), w')" and "is_b32 cv"
  shows "appends w w' i b (EpochHash e cv)"
proof -
  let ?p = "overwrite (overwrite (zeros 40) 0 (to_le e)) 8 cv"
  from assms(1) obtain w1 where "log_record KIND_EPOCH_HASH RFLAG_AUX i b ?p w = (Ok (), w1)"
    and "w' = w1\<lparr>lw_wrote_epoch_hash := True\<rparr>"
    by (auto simp: epoch_hash_def Let_def split: prod.splits res.splits)
  moreover have "frame_shows KIND_EPOCH_HASH RFLAG_AUX i ?p (EpochHash e cv)"
    using assms(2) by (simp add: frame_shows_simps wire)
  ultimately show ?thesis
    unfolding appends_def by fastforce
qed

lemmas op_appends = pad_set_appends dev_event_appends net_rx_appends pio_answer_appends
  entropy_appends net_tx_appends timer_fire_appends sdk_event_appends frame_mark_appends
  bisection_checkpoint_appends epoch_hash_appends

lemma apply_op_appends:
  "apply_op op w = (Ok (), w') \<Longrightarrow> op_typed op \<Longrightarrow>
     appends w w' (fst (op_boundary op)) (snd (op_boundary op)) (op_body op)"
  by (cases op) (simp_all add: op_appends [unfolded append_Cons append_Nil])

section \<open>Any client\<close>

lemma log_record_header: "log_record k f i b p w = (r, w') \<Longrightarrow> lw_header w' = lw_header w"
  by (auto simp: log_record_def split: if_splits option.splits)

lemma apply_op_header [simp]: "op_typed op \<Longrightarrow> lw_header (snd (apply_op op w)) = lw_header w"
proof (cases "fst (apply_op op w) = Ok ()")
  case True
  assume "op_typed op"
  with True have "appends w (snd (apply_op op w)) (fst (op_boundary op)) (snd (op_boundary op)) (op_body op)"
    by (intro apply_op_appends) (simp_all add: prod_eq_iff)
  then show ?thesis
    by (auto simp: appends_def dest: log_record_header)
qed (simp add: apply_op_error)

lemma run_ops_header [simp]: "\<forall>op \<in> set ops. op_typed op \<Longrightarrow> lw_header (run_ops ops w) = lw_header w"
  by (induction ops arbitrary: w) auto

lemma run_ops_writes:
  assumes "\<forall>op \<in> set ops. op_typed op" and "writes w rs"
  shows "\<exists>rs'. writes (run_ops ops w) (rs @ rs')
    \<and> map (\<lambda>r. (rec_icount r, rec_boundary_rip r)) rs' = map op_boundary (accepted ops w)
    \<and> map rec_body rs' = map (\<lambda>op. Ok (op_body op) :: (RecordBody, unit) res) (accepted ops w)"
  using assms
proof (induction ops arbitrary: w rs)
  case Nil
  then show ?case by (intro exI [of _ "[]"]) simp
next
  case (Cons op ops)
  let ?w = "snd (apply_op op w)"
  show ?case
  proof (cases "fst (apply_op op w) = Ok ()")
    case True
    with Cons.prems have "appends w ?w (fst (op_boundary op)) (snd (op_boundary op)) (op_body op)"
      by (intro apply_op_appends) (simp_all add: prod_eq_iff)
    then obtain r where r: "writes ?w (rs @ [r])" "rec_body r = (Ok (op_body op) :: (RecordBody, unit) res)"
      "rec_icount r = fst (op_boundary op)" "rec_boundary_rip r = snd (op_boundary op)"
      using Cons.prems(2) by (rule appends_writes)
    from Cons.IH [OF _ r(1)] Cons.prems(1) obtain rs' where
      "writes (run_ops ops ?w) ((rs @ [r]) @ rs')"
      "map (\<lambda>r. (rec_icount r, rec_boundary_rip r)) rs' = map op_boundary (accepted ops ?w)"
      "map rec_body rs' = map (\<lambda>op. Ok (op_body op) :: (RecordBody, unit) res) (accepted ops ?w)"
      by auto
    with r True show ?thesis
      by (intro exI [of _ "r # rs'"]) simp
  next
    case False
    then have "?w = w" by (rule apply_op_error)
    with Cons False show ?thesis by simp
  qed
qed

section \<open>Sealing\<close>

definition sealed_flags :: "LogWriter \<Rightarrow> u32" where
  "sealed_flags w = FLAG_SEALED OR (if lw_has_aux w then FLAG_HAS_AUX else 0)
     OR (if lw_wrote_epoch_hash w then FLAG_EPOCH_HASHES else 0)"

definition sealed_header :: "(byte list \<Rightarrow> byte list) \<Rightarrow> SealParams \<Rightarrow> LogWriter \<Rightarrow> byte list \<Rightarrow> Header" where
  "sealed_header blake3 p w body =
     \<lparr>hd_version = FORMAT_VERSION, hd_flags = sealed_flags w,
      hd_base_snapshot_id = sh_base_snapshot_id (lw_header w),
      hd_end_snapshot_id = sp_end_snapshot_id p,
      hd_entropy_seed = sh_entropy_seed (lw_header w),
      hd_machine_config_hash = sh_machine_config_hash (lw_header w),
      hd_clock_num = sh_clock_num (lw_header w), hd_clock_den = sh_clock_den (lw_header w),
      hd_record_count = lw_record_count w + 1, hd_end_icount = sp_end_icount p,
      hd_end_vns = sp_end_vns p, hd_end_state_hash = sp_end_state_hash p,
      hd_body_hash = blake3 body,
      hd_encoder_fingerprint = sh_encoder_fingerprint (lw_header w)\<rparr>"

lemma sealed_flags_simps [simp]:
  "sealed_flags w AND - 8 = 0"
  "sealed_flags w AND FLAG_SEALED \<noteq> 0"
  "(sealed_flags w AND FLAG_HAS_AUX \<noteq> 0) = lw_has_aux w"
  "(sealed_flags w AND FLAG_EPOCH_HASHES \<noteq> 0) = lw_wrote_epoch_hash w"
  by (simp_all add: sealed_flags_def)

definition end_record :: "SealParams \<Rightarrow> u32 \<Rightarrow> Rec" where
  "end_record p seq = \<lparr>rec_kind = KIND_END, rec_rflags = RFLAG_AUX, rec_seq = seq,
     rec_icount = sp_end_icount p, rec_boundary_rip = 0,
     rec_payload = overwrite ((zeros 40)[0 := sp_stop_reason p]) 8 (sp_end_state_hash p)\<rparr>"

text \<open>The header fields \<open>seal\<close> copies in, in the order of the statements.\<close>

definition seal_fields :: "(byte list \<Rightarrow> byte list) \<Rightarrow> SealParams \<Rightarrow> LogWriter \<Rightarrow> byte list \<Rightarrow> (nat \<times> byte list) list" where
  "seal_fields blake3 p w body =
     [(0, DHILOG_MAGIC), (6, to_le FORMAT_VERSION), (8, to_le (of_nat HEADER_LEN :: u32)),
      (12, to_le (sealed_flags w)), (16, sh_base_snapshot_id (lw_header w)),
      (48, sp_end_snapshot_id p), (80, sh_entropy_seed (lw_header w)),
      (112, sh_machine_config_hash (lw_header w)), (144, to_le (sh_clock_num (lw_header w))),
      (148, to_le (sh_clock_den (lw_header w))), (152, to_le (lw_record_count w + 1)),
      (160, to_le (sp_end_icount p)), (168, to_le (sp_end_vns p)), (176, sp_end_state_hash p),
      (240, to_le (sh_encoder_fingerprint (lw_header w))), (208, blake3 body)]"

lemma seal_fields_ok:
  assumes "header_typed (lw_header w)" and "params_typed p" and "\<forall>x. length (blake3 x) = 32"
    and "HEADER_LEN \<le> n"
  shows "fields_ok n (seal_fields blake3 p w body)"
    and "list_all (\<lambda>f. fst f + length (snd f) \<le> HEADER_LEN) (seal_fields blake3 p w body)"
    and "list_all (apart 248 256) (seal_fields blake3 p w body)"
  using assms by (simp_all add: seal_fields_def header_typed_def params_typed_def)

lemma log_seal_Ok:
  assumes "log_seal blake3 p w = Ok bytes" and "header_typed (lw_header w)" and "params_typed p"
    and "\<forall>x. length (blake3 x) = 32" and "HEADER_LEN \<le> length (lw_buf w)"
  obtains seq where "unat seq = unat (lw_record_count w)"
    and "lw_record_count w > 0 \<longrightarrow> lw_last_icount w \<le> sp_end_icount p"
    and "bytes = put_fields (seal_fields blake3 p w (drop HEADER_LEN (lw_buf w) @ rec_frame (end_record p seq)))
       (lw_buf w @ rec_frame (end_record p seq))"
proof -
  let ?pl = "overwrite ((zeros 40)[0 := sp_stop_reason p]) 8 (sp_end_state_hash p)"
  obtain r w' where r: "log_record KIND_END RFLAG_AUX (sp_end_icount p) 0 ?pl w = (r, w')"
    by (cases "log_record KIND_END RFLAG_AUX (sp_end_icount p) 0 ?pl w")
  have lr: "log_record KIND_END RFLAG_AUX (sp_end_icount p) 0 ?pl w = (Ok (), w')"
  proof (cases r)
    case (Err e)
    with assms(1) r show ?thesis by (simp add: log_seal_def Let_def)
  qed (use r log_record_PanicD in auto)
  then obtain seq where seq: "unat seq = unat (lw_record_count w)"
    and mono: "lw_record_count w > 0 \<longrightarrow> lw_last_icount w \<le> sp_end_icount p"
    and w': "w' = w\<lparr>lw_buf := lw_buf w @ frame_bytes KIND_END RFLAG_AUX seq (sp_end_icount p) 0 ?pl,
        lw_record_count := lw_record_count w + 1, lw_last_icount := sp_end_icount p,
        lw_has_aux := (lw_has_aux w \<or> RFLAG_AUX AND RFLAG_AUX \<noteq> 0)\<rparr>"
    by (rule log_record_Ok) blast
  let ?buf = "lw_buf w @ rec_frame (end_record p seq)"
  let ?fs = "butlast (seal_fields blake3 p w [])"
  have fr: "frame_bytes KIND_END RFLAG_AUX seq (sp_end_icount p) 0 ?pl = rec_frame (end_record p seq)"
    by (simp add: rec_frame_def end_record_def)
  have "bytes = put_fields (?fs @ [(208, blake3 (drop HEADER_LEN (put_fields ?fs ?buf)))]) ?buf"
    using assms(1) unfolding log_seal_def Let_def lr prod.case res.case w' fr seal_fields_def sealed_flags_def
    by (simp del: length_overwrite)
  moreover have "fields_ok (length ?buf) ?fs" "list_all (\<lambda>f. fst f + length (snd f) \<le> HEADER_LEN) ?fs"
    using seal_fields_ok [OF assms(2-4), of "length ?buf" "[]"] assms(5) by (simp_all add: seal_fields_def)
  ultimately have "bytes = put_fields (seal_fields blake3 p w (drop HEADER_LEN ?buf)) ?buf"
    by (simp add: drop_put_fields) (simp add: seal_fields_def)
  with seq mono show thesis
    using assms(5) by (intro that) simp_all
qed

lemma seal_parses_header:
  fixes bytes
  assumes bytes: "bytes = put_fields (seal_fields blake3 p w body) buf" and "HEADER_LEN \<le> length buf"
    and typed: "header_typed (lw_header w)" "params_typed p" "\<forall>x. length (blake3 x) = 32"
    and "sh_clock_den (lw_header w) \<noteq> 0" and "bslice buf 248 256 = zeros 8"
  shows "parse_header bytes = Ok (sealed_header blake3 p w body)"
proof -
  note ok = seal_fields_ok [OF typed assms(2), of body]
  have len: "length bytes = length buf"
    using ok(1) by (simp add: bytes length_put_fields)
  have rsv: "bslice bytes 248 256 = zeros 8"
    using ok assms(7) by (simp add: bytes bslice_put_apart)
  have rd: "bslice bytes i j = ys"
    if "(i, ys) \<in> set (seal_fields blake3 p w body)" and "j = i + length ys" for i j ys
    using bslice_put_field [OF ok(1) that(1)] that(2) by (simp add: bytes)
  have "bslice bytes 0 6 = DHILOG_MAGIC" and "bslice bytes 6 8 = to_le FORMAT_VERSION"
    and "bslice bytes 8 12 = to_le (of_nat HEADER_LEN :: u32)"
    and "bslice bytes 12 16 = to_le (sealed_flags w)"
    and "bslice bytes 16 48 = sh_base_snapshot_id (lw_header w)"
    and "bslice bytes 48 80 = sp_end_snapshot_id p"
    and "bslice bytes 80 112 = sh_entropy_seed (lw_header w)"
    and "bslice bytes 112 144 = sh_machine_config_hash (lw_header w)"
    and "bslice bytes 144 148 = to_le (sh_clock_num (lw_header w))"
    and "bslice bytes 148 152 = to_le (sh_clock_den (lw_header w))"
    and "bslice bytes 152 160 = to_le (lw_record_count w + 1)"
    and "bslice bytes 160 168 = to_le (sp_end_icount p)"
    and "bslice bytes 168 176 = to_le (sp_end_vns p)"
    and "bslice bytes 176 208 = sp_end_state_hash p"
    and "bslice bytes 208 240 = blake3 body"
    and "bslice bytes 240 248 = to_le (sh_encoder_fingerprint (lw_header w))"
    using typed
    by (auto intro!: rd simp: seal_fields_def header_typed_def params_typed_def)
  then show ?thesis
    using len assms(2,6) rsv
    by (simp add: parse_header_def parse_header_with_seal_def sealed_header_def)
qed

lemma writes_log_ok:
  assumes "writes w rs" and "unat seq = unat (lw_record_count w)" and "params_typed p"
    and "lw_record_count w > 0 \<longrightarrow> lw_last_icount w \<le> sp_end_icount p"
  shows "log_ok (sealed_header blake3 p w body) (rs @ [end_record p seq])"
proof -
  let ?e = "end_record p seq"
  have h32: "length (sp_end_state_hash p) = 32"
    using assms(3) by (simp add: params_typed_def)
  have e: "rec_wf ?e" "validate_end (sealed_header blake3 p w body) ?e = Ok ()" "is_aux ?e"
    "rec_icount ?e = sp_end_icount p" "rec_kind ?e = KIND_END" "rec_seq ?e = seq"
    using h32 by (simp_all add: end_record_def rec_wf_def is_aux_def validate_kind_def
        kind_class_aux_def kind_layout_def validate_end_def sealed_header_def wire)
  have cnt: "unat (lw_record_count w + 1) = Suc (length rs)"
    using assms(1,2) unat_suc_u64 [of "lw_record_count w" seq] by (simp add: writes_def)
  have "rs \<noteq> [] \<longrightarrow> last (map rec_icount rs) \<le> sp_end_icount p"
    using assms(1,4) by (auto simp: writes_def last_map word_gt_0 simp flip: unat_eq_zero)
  then show ?thesis
    using assms(1,2) e cnt
    by (auto simp: log_ok_def writes_def sorted_snoc nth_append less_Suc_eq sealed_header_def
        header_has_aux_def header_has_epoch_hashes_def)
qed

lemma end_record_body:
  "params_typed p \<Longrightarrow> rec_body (end_record p seq) = Ok (End (sp_stop_reason p) (sp_end_state_hash p))"
  by (simp add: params_typed_def end_record_def rec_body_def wire)

lemma seal_writes_parse:
  assumes w: "writes w rs" and typed: "header_typed (lw_header w)" "params_typed p" "\<forall>x. length (blake3 x) = 32"
    and den: "sh_clock_den (lw_header w) \<noteq> 0" and seal: "log_seal blake3 p w = Ok bytes"
  obtains seq body where
    "log_parse blake3 bytes = Ok \<lparr>lr_header = sealed_header blake3 p w body, lr_body = body\<rparr>"
    and "records_from body 0 = Ok (rs @ [end_record p seq])"
proof -
  have buf: "lw_buf w = zeros HEADER_LEN @ concat (map rec_frame rs)"
    using w by (simp add: writes_def)
  have len: "HEADER_LEN \<le> length (lw_buf w)" by (simp add: buf)
  obtain seq where seq: "unat seq = unat (lw_record_count w)"
    and mono: "lw_record_count w > 0 \<longrightarrow> lw_last_icount w \<le> sp_end_icount p"
    and bytes: "bytes = put_fields (seal_fields blake3 p w (drop HEADER_LEN (lw_buf w) @ rec_frame (end_record p seq)))
       (lw_buf w @ rec_frame (end_record p seq))"
    by (rule log_seal_Ok [OF seal typed len])
  let ?rs = "rs @ [end_record p seq]"
  let ?body = "concat (map rec_frame ?rs)"
  have b: "bytes = put_fields (seal_fields blake3 p w ?body) (zeros HEADER_LEN @ ?body)"
    using bytes by (simp add: buf)
  have hdr: "parse_header bytes = Ok (sealed_header blake3 p w ?body)"
    by (rule seal_parses_header [OF b _ typed den]) (simp_all add: wire)
  have bl: "HEADER_LEN \<le> length bytes" "drop HEADER_LEN bytes = ?body"
    using seal_fields_ok [OF typed, of "length (zeros HEADER_LEN @ ?body)" ?body]
    by (simp_all add: b length_put_fields drop_put_fields)
  have ok: "log_ok (sealed_header blake3 p w ?body) ?rs"
    by (rule writes_log_ok [OF w seq typed(2) mono])
  then have "validate_records (sealed_header blake3 p w ?body) ?body = Ok ()"
    unfolding validate_records_eq by blast
  then have "log_parse blake3 bytes = Ok \<lparr>lr_header = sealed_header blake3 p w ?body, lr_body = ?body\<rparr>"
    using hdr bl by (simp add: log_parse_def sealed_header_def)
  moreover have "records_from ?body 0 = Ok ?rs"
    using ok by (intro records_from_frames) (auto simp: log_ok_def rec_wf_def)
  ultimately show thesis by (rule that)
qed

text \<open>\<open>seal\<close> succeeds whenever the watermark and the sequence width allow the END record.\<close>

lemma log_seal_succeeds:
  assumes "unat (lw_record_count w) < 2 ^ 32" and "lw_last_icount w \<le> sp_end_icount p"
    and "is_b32 (sp_end_state_hash p)"
  shows "\<exists>bytes. log_seal blake3 p w = Ok bytes"
proof -
  let ?pl = "overwrite ((zeros 40)[0 := sp_stop_reason p]) 8 (sp_end_state_hash p)"
  have "fst (log_record KIND_END RFLAG_AUX (sp_end_icount p) 0 ?pl w) = Ok ()"
    using assms by (simp add: log_record_def word_of_nat_opt_def not_less)
  then obtain w' where "log_record KIND_END RFLAG_AUX (sp_end_icount p) 0 ?pl w = (Ok (), w')"
    by (metis prod.collapse)
  then show ?thesis
    unfolding log_seal_def Let_def by simp
qed

section \<open>Properties\<close>

text \<open>
  C1. Sealing and parsing round-trip. Whatever calls a client makes on a fresh writer, if
  the log seals then the reader accepts the image, its iterator yields the calls the
  writer accepted, in order, with the boundary and the typed payload each call had,
  followed by END, and the header carries the segment's identity and end state.
\<close>

theorem seal_parse_roundtrip:
  assumes "header_typed h" and "sh_clock_den h \<noteq> 0" and "\<forall>op \<in> set ops. op_typed op"
    and "params_typed p" and "\<forall>x. length (blake3 x) = 32"
    and "log_seal blake3 p (run_ops ops (log_new h)) = Ok bytes"
  shows "\<exists>lr rs. log_parse blake3 bytes = Ok lr \<and> log_records lr = Ok rs
    \<and> map (\<lambda>r. (rec_icount r, rec_boundary_rip r)) (butlast rs) = map op_boundary (accepted ops (log_new h))
    \<and> map rec_body (butlast rs)
        = map (\<lambda>op. Ok (op_body op) :: (RecordBody, unit) res) (accepted ops (log_new h))
    \<and> log_end lr = Ok (sp_stop_reason p, sp_end_state_hash p)
    \<and> hd_base_snapshot_id (lr_header lr) = sh_base_snapshot_id h
    \<and> hd_end_snapshot_id (lr_header lr) = sp_end_snapshot_id p
    \<and> hd_entropy_seed (lr_header lr) = sh_entropy_seed h
    \<and> hd_machine_config_hash (lr_header lr) = sh_machine_config_hash h
    \<and> hd_clock_num (lr_header lr) = sh_clock_num h \<and> hd_clock_den (lr_header lr) = sh_clock_den h
    \<and> hd_end_icount (lr_header lr) = sp_end_icount p \<and> hd_end_vns (lr_header lr) = sp_end_vns p
    \<and> hd_encoder_fingerprint (lr_header lr) = sh_encoder_fingerprint h"
proof -
  let ?w = "run_ops ops (log_new h)"
  have h: "lw_header ?w = h"
    using assms(3) by (simp add: log_new_def)
  from run_ops_writes [OF assms(3) writes_new [of h]] obtain rs where w: "writes ?w rs"
    and b: "map (\<lambda>r. (rec_icount r, rec_boundary_rip r)) rs = map op_boundary (accepted ops (log_new h))"
    and body: "map rec_body rs = map (\<lambda>op. Ok (op_body op) :: (RecordBody, unit) res) (accepted ops (log_new h))"
    by auto
  obtain seq bd where
    "log_parse blake3 bytes = Ok \<lparr>lr_header = sealed_header blake3 p ?w bd, lr_body = bd\<rparr>"
    "records_from bd 0 = Ok (rs @ [end_record p seq])"
    by (rule seal_writes_parse [OF w, of p blake3 bytes]) (simp_all add: assms h)
  with b body h assms(4) show ?thesis
    by (intro exI [of _ "\<lparr>lr_header = sealed_header blake3 p ?w bd, lr_body = bd\<rparr>"]
        exI [of _ "rs @ [end_record p seq]"])
      (simp add: log_records_def log_end_def end_record_body sealed_header_def)
qed

definition ex_header :: SegmentHeader where
  "ex_header = \<lparr>sh_base_snapshot_id = replicate 32 1, sh_entropy_seed = zeros 32,
     sh_machine_config_hash = zeros 32, sh_clock_num = 1, sh_clock_den = 1,
     sh_encoder_fingerprint = 0\<rparr>"

definition ex_params :: SealParams where
  "ex_params = \<lparr>sp_end_snapshot_id = replicate 32 1, sp_end_icount = 5000, sp_end_vns = 5000,
     sp_end_state_hash = zeros 32, sp_stop_reason = 2\<rparr>"

definition ex_ops :: "LogOp list" where
  "ex_ops = [OpPadSet 100 0x1000 0 3 FRAME_HINT_NONE, OpFrameMark 99 0 1, OpNetRx 100 0 [],
     OpEpochHash 200 0x2000 1 (zeros 32)]"

lemma ex_accepted:
  "accepted ex_ops (log_new ex_header) =
     [OpPadSet 100 0x1000 0 3 FRAME_HINT_NONE, OpEpochHash 200 0x2000 1 (zeros 32)]"
  by (simp add: ex_ops_def log_new_def op_defs Let_def log_record_def word_of_nat_opt_def)

lemma ex_seals: "\<exists>bytes. log_seal (\<lambda>_. zeros 32) ex_params (run_ops ex_ops (log_new ex_header)) = Ok bytes"
  by (rule log_seal_succeeds)
    (simp_all add: ex_params_def ex_ops_def log_new_def op_defs Let_def log_record_def
      word_of_nat_opt_def is_b32_def)

theorem seal_parse_roundtrip_witness:
  "\<exists>bytes lr rs. log_seal (\<lambda>_. zeros 32) ex_params (run_ops ex_ops (log_new ex_header)) = Ok bytes
     \<and> log_parse (\<lambda>_. zeros 32) bytes = Ok lr \<and> log_records lr = Ok rs
     \<and> map rec_body (butlast rs)
         = [Ok (PadSet 0 3 FRAME_HINT_NONE), Ok (EpochHash 1 (zeros 32)) :: (RecordBody, unit) res]"
proof -
  obtain bytes where b: "log_seal (\<lambda>_. zeros 32) ex_params (run_ops ex_ops (log_new ex_header)) = Ok bytes"
    using ex_seals by blast
  have "header_typed ex_header" "sh_clock_den ex_header \<noteq> 0" "\<forall>op \<in> set ex_ops. op_typed op"
    "params_typed ex_params" "\<forall>x. length ((\<lambda>_ :: byte list. zeros 32) x) = 32"
    by (simp_all add: header_typed_def ex_header_def ex_ops_def params_typed_def ex_params_def is_b32_def)
  from seal_parse_roundtrip [OF this b] b show ?thesis
    by (auto simp: ex_accepted)
qed

lemma ex_typed [simp]:
  "header_typed ex_header" "params_typed ex_params" "sh_clock_den ex_header \<noteq> 0"
  "sh_base_snapshot_id ex_header = replicate 32 1" "sp_end_snapshot_id ex_params = replicate 32 1"
  by (simp_all add: header_typed_def ex_header_def params_typed_def ex_params_def is_b32_def)

lemma ex_parses:
  "\<exists>bytes lr. log_parse (\<lambda>_. zeros 32) bytes = Ok lr \<and> hd_base_snapshot_id (lr_header lr) = replicate 32 1
     \<and> hd_end_snapshot_id (lr_header lr) = replicate 32 1"
proof -
  let ?w = "run_ops ex_ops (log_new ex_header)"
  obtain bytes where b: "log_seal (\<lambda>_. zeros 32) ex_params ?w = Ok bytes"
    using ex_seals by blast
  have ops: "\<forall>op \<in> set ex_ops. op_typed op"
    by (simp add: ex_ops_def is_b32_def)
  then have h: "lw_header ?w = ex_header"
    by (simp add: log_new_def)
  from run_ops_writes [OF ops writes_new] obtain rs where w: "writes ?w rs" by auto
  obtain bd where "log_parse (\<lambda>_. zeros 32) bytes
      = Ok \<lparr>lr_header = sealed_header (\<lambda>_. zeros 32) ex_params ?w bd, lr_body = bd\<rparr>"
    by (rule seal_writes_parse [OF w _ _ _ _ b])
      (simp_all add: h)
  then show ?thesis
    by (intro exI [of _ bytes]) (simp add: sealed_header_def h)
qed

text \<open>
  C5. The accessors of an accepted log are total and agree: every record has a typed body,
  \<open>canonical\<close> and \<open>aux\<close> split the records, \<open>end\<close> returns the header's state hash, and no
  record lies after the header's end icount.
\<close>

theorem parsed_log_views:
  assumes "log_parse blake3 bytes = Ok lr"
  shows "\<exists>rs. log_records lr = Ok rs \<and> list_all (\<lambda>r. \<exists>b. rec_body r = (Ok b :: (RecordBody, unit) res)) rs
    \<and> log_canonical lr = Ok (filter (\<lambda>r. \<not> is_aux r) rs) \<and> log_aux lr = Ok (filter is_aux rs)
    \<and> log_end lr = Ok (rec_payload (last rs) ! 0, hd_end_state_hash (lr_header lr))
    \<and> list_all (\<lambda>r. rec_icount r \<le> hd_end_icount (lr_header lr)) rs"
proof (rule log_parse_format [OF assms])
  fix rs
  assume ok: "log_ok (lr_header lr) rs" and rs: "log_records lr = Ok rs"
  then have ne: "rs \<noteq> []" and wf: "\<forall>r \<in> set rs. rec_wf r" and srt: "sorted (map rec_icount rs)"
    by (auto simp: log_ok_def)
  from ok ne have e: "rec_body (last rs) = (Ok (End (rec_payload (last rs) ! 0) (hd_end_state_hash (lr_header lr))) :: (RecordBody, unit) res)"
    "rec_icount (last rs) = hd_end_icount (lr_header lr)"
    using validate_end_body [of "last rs" "lr_header lr"] by (auto simp: log_ok_def)
  have "rec_icount r \<le> rec_icount (last rs)" if "r \<in> set rs" for r
    using that srt ne by (cases rs rule: rev_cases) (auto simp: sorted_append)
  with e ne wf rs show ?thesis
    by (auto simp: log_canonical_def log_aux_def log_end_def list_all_iff intro: rec_wf_body)
qed

theorem parsed_log_views_witness:
  "\<exists>bytes lr rs. log_parse (\<lambda>_. zeros 32) bytes = Ok lr \<and> log_records lr = Ok rs
     \<and> log_end lr = Ok (rec_payload (last rs) ! 0, hd_end_state_hash (lr_header lr))"
proof -
  obtain bytes lr where p: "log_parse (\<lambda>_. zeros 32) bytes = Ok lr"
    using ex_parses by blast
  from parsed_log_views [OF p] p show ?thesis by blast
qed

text \<open>
  C6. A record method that fails leaves the writer exactly as it was: no bytes are
  appended, no counter moves, no flag is set.
\<close>

theorem failed_append_changes_nothing:
  "fst (apply_op op w) \<noteq> Ok () \<Longrightarrow> snd (apply_op op w) = w"
  by (rule apply_op_error)

theorem failed_append_changes_nothing_witness:
  "snd (apply_op (OpNetRx 7 0 []) (log_new ex_header)) = log_new ex_header"
  by (rule failed_append_changes_nothing) (simp add: net_rx_def)

end
