(* ===== verification/Splice.thy ===== *)
theory Splice
  imports Log_Roundtrip
begin

text \<open>
  Lineages of sealed segments, \<open>src/crates/dh-inputlog/src/splice.rs\<close>: \<open>Lineage::new\<close>
  with its three passes (parse, one machine, stitching), \<open>Lineage::extend\<close> and the
  accessors. The lemmas show that \<open>extend\<close> is \<open>new\<close> on one more segment, errors
  included, that an accepted lineage is exactly a chain of segments of one machine in
  which each segment starts at the snapshot its parent ended in, and that no accessor of
  an accepted lineage panics.
\<close>

datatype SpliceError =
    SpEmpty
  | SpSegment nat ReadError
  | SpBrokenStitch nat
  | SpMissingEndSnapshot nat
  | SpConfigMismatch nat
  | SpClockMismatch nat

record Edge =
  ed_index :: nat
  ed_base_snapshot_id :: "byte list"
  ed_log :: LogReader

record Lineage =
  ln_segments :: "(byte list \<times> Header) list"

section \<open>Construction\<close>

text \<open>The parse loop of \<open>new\<close>.\<close>

primrec lineage_parse ::
  "(byte list \<Rightarrow> byte list) \<Rightarrow> nat \<Rightarrow> byte list list \<Rightarrow> ((byte list \<times> Header) list, SpliceError) res" where
  "lineage_parse blake3 index [] = Ok []"
| "lineage_parse blake3 index (bytes # segments) =
     res_bind (map_err (SpSegment index) (log_parse blake3 bytes)) (\<lambda>log.
     res_bind (lineage_parse blake3 (Suc index) segments) (\<lambda>parsed.
       Ok ((bytes, lr_header log) # parsed)))"

text \<open>The machine-identity checks against segment 0, shared by \<open>new\<close> and \<open>extend\<close>.\<close>

definition same_machine :: "Header \<Rightarrow> nat \<Rightarrow> Header \<Rightarrow> (unit, SpliceError) res" where
  "same_machine first index h =
     (if hd_machine_config_hash h \<noteq> hd_machine_config_hash first then Err (SpConfigMismatch index)
      else if hd_clock_num h \<noteq> hd_clock_num first \<or> hd_clock_den h \<noteq> hd_clock_den first
        then Err (SpClockMismatch index)
      else Ok ())"

primrec lineage_machines ::
  "Header \<Rightarrow> nat \<Rightarrow> (byte list \<times> Header) list \<Rightarrow> (unit, SpliceError) res" where
  "lineage_machines first index [] = Ok ()"
| "lineage_machines first index (p # parsed) =
     res_bind (same_machine first index (snd p)) (\<lambda>_. lineage_machines first (Suc index) parsed)"

text \<open>One stitch check, between segment \<open>index\<close> and its successor.\<close>

definition stitch :: "nat \<Rightarrow> Header \<Rightarrow> Header \<Rightarrow> (unit, SpliceError) res" where
  "stitch index parent child =
     (if hd_end_snapshot_id parent = zeros 32 then Err (SpMissingEndSnapshot index)
      else if hd_end_snapshot_id parent \<noteq> hd_base_snapshot_id child then Err (SpBrokenStitch index)
      else Ok ())"

fun lineage_stitches :: "nat \<Rightarrow> (byte list \<times> Header) list \<Rightarrow> (unit, SpliceError) res" where
  "lineage_stitches index (p # q # parsed) =
     res_bind (stitch index (snd p) (snd q)) (\<lambda>_. lineage_stitches (Suc index) (q # parsed))"
| "lineage_stitches index parsed = Ok ()"

definition lineage_new :: "(byte list \<Rightarrow> byte list) \<Rightarrow> byte list list \<Rightarrow> (Lineage, SpliceError) res" where
  "lineage_new blake3 segments =
     (if segments = [] then Err SpEmpty
      else res_bind (lineage_parse blake3 0 segments) (\<lambda>parsed.
      res_bind (index_res parsed 0) (\<lambda>first.
      res_bind (lineage_machines (snd first) 0 parsed) (\<lambda>_.
      res_bind (lineage_stitches 0 parsed) (\<lambda>_. Ok \<lparr>ln_segments = parsed\<rparr>)))))"

definition lineage_extend ::
  "(byte list \<Rightarrow> byte list) \<Rightarrow> Lineage \<Rightarrow> byte list \<Rightarrow> (Lineage, SpliceError) res" where
  "lineage_extend blake3 ln child_segment = (let index = length (ln_segments ln) in
     res_bind (map_err (SpSegment index) (log_parse blake3 child_segment)) (\<lambda>log. let h = lr_header log in
     res_bind (index_res (ln_segments ln) 0) (\<lambda>first.
     res_bind (same_machine (snd first) index h) (\<lambda>_.
     res_bind (if index = 0 then Panic else index_res (ln_segments ln) (index - 1)) (\<lambda>lst.
     res_bind (stitch (index - 1) (snd lst) h) (\<lambda>_.
       Ok \<lparr>ln_segments = ln_segments ln @ [(child_segment, h)]\<rparr>))))))"

section \<open>Accessors\<close>

definition lineage_len :: "Lineage \<Rightarrow> nat" where
  "lineage_len ln = length (ln_segments ln)"

definition lineage_root_base :: "Lineage \<Rightarrow> (byte list, unit) res" where
  "lineage_root_base ln = res_bind (index_res (ln_segments ln) 0) (\<lambda>p. Ok (hd_base_snapshot_id (snd p)))"

definition lineage_end_identity :: "Lineage \<Rightarrow> (byte list \<times> byte list \<times> u64, unit) res" where
  "lineage_end_identity ln =
     (if ln_segments ln = [] then Panic
      else let h = snd (last (ln_segments ln)) in
        Ok (hd_end_snapshot_id h, hd_end_state_hash h, hd_end_icount h))"

text \<open>The edges the iterator yields; \<open>expect\<close> turns a parse failure into a panic.\<close>

primrec edges_from ::
  "(byte list \<Rightarrow> byte list) \<Rightarrow> nat \<Rightarrow> (byte list \<times> Header) list \<Rightarrow> (Edge list, unit) res" where
  "edges_from blake3 index [] = Ok []"
| "edges_from blake3 index (p # ps) =
     (case log_parse blake3 (fst p) of
        Ok log \<Rightarrow> res_bind (edges_from blake3 (Suc index) ps) (\<lambda>es.
          Ok (\<lparr>ed_index = index, ed_base_snapshot_id = hd_base_snapshot_id (snd p), ed_log = log\<rparr> # es))
      | _ \<Rightarrow> Panic)"

definition lineage_edges :: "(byte list \<Rightarrow> byte list) \<Rightarrow> Lineage \<Rightarrow> (Edge list, unit) res" where
  "lineage_edges blake3 ln = edges_from blake3 0 (ln_segments ln)"

section \<open>Extending is constructing\<close>

lemma lineage_parse_snoc:
  "lineage_parse blake3 i (bs @ [b]) =
     res_bind (lineage_parse blake3 i bs) (\<lambda>ps.
     res_bind (map_err (SpSegment (i + length bs)) (log_parse blake3 b)) (\<lambda>log.
       Ok (ps @ [(b, lr_header log)])))"
proof (induction bs arbitrary: i)
  case Nil
  show ?case by (cases "log_parse blake3 b") simp_all
next
  case (Cons c bs)
  show ?case
    by (cases "log_parse blake3 c"; cases "lineage_parse blake3 (Suc i) bs"; cases "log_parse blake3 b")
      (simp_all add: Cons)
qed

lemma lineage_machines_snoc:
  "lineage_machines f i (ps @ [p]) =
     res_bind (lineage_machines f i ps) (\<lambda>_. same_machine f (i + length ps) (snd p))"
proof (induction ps arbitrary: i)
  case Nil
  show ?case by (cases "same_machine f i (snd p)") simp_all
next
  case (Cons q ps)
  show ?case by (cases "same_machine f i (snd q)") (simp_all add: Cons)
qed

lemma lineage_stitches_snoc:
  "lineage_stitches i ((ps @ [q]) @ [p]) =
     res_bind (lineage_stitches i (ps @ [q])) (\<lambda>_. stitch (i + length ps) (snd q) (snd p))"
proof (induction ps arbitrary: i)
  case Nil
  show ?case by (cases "stitch i (snd q) (snd p)") simp_all
next
  case (Cons r ps)
  show ?case
    using Cons by (cases ps; cases "stitch i (snd r) (snd (hd (ps @ [q])))") simp_all
qed

lemma lineage_parse_length: "lineage_parse blake3 i bs = Ok ps \<Longrightarrow> length ps = length bs"
  by (induction bs arbitrary: i ps) auto

lemma lineage_new_Ok:
  "lineage_new blake3 segs = Ok ln \<longleftrightarrow> (\<exists>f ps. lineage_parse blake3 0 segs = Ok (f # ps)
     \<and> lineage_machines (snd f) 0 (f # ps) = Ok () \<and> lineage_stitches 0 (f # ps) = Ok ()
     \<and> ln = \<lparr>ln_segments = f # ps\<rparr>)"
proof -
  have "parsed = [] \<longleftrightarrow> segs = []" if "lineage_parse blake3 0 segs = Ok parsed" for parsed
    using lineage_parse_length [OF that] by auto
  then show ?thesis
    by (fastforce simp: lineage_new_def index_res_def neq_Nil_conv split: if_splits)
qed

lemma lineage_extend_new:
  assumes "lineage_new blake3 segs = Ok ln"
  shows "lineage_extend blake3 ln seg = lineage_new blake3 (segs @ [seg])"
proof -
  from assms obtain f ps where p: "lineage_parse blake3 0 segs = Ok (f # ps)"
    and m: "lineage_machines (snd f) 0 (f # ps) = Ok ()" and s: "lineage_stitches 0 (f # ps) = Ok ()"
    and ln: "ln = \<lparr>ln_segments = f # ps\<rparr>"
    by (auto simp: lineage_new_Ok)
  obtain qs q where q: "f # ps = qs @ [q]" by (metis list.distinct(1) rev_exhaust)
  have len: "length segs = length (f # ps)"
    using lineage_parse_length [OF p] by simp
  have n: "length ps = length qs"
    using arg_cong [OF q, of length] by simp
  then have l: "(f # ps) ! length ps = q"
    by (simp add: q)
  have st: "lineage_stitches 0 ((f # ps) @ [c]) = stitch (length ps) (snd q) (snd c)" for c
    using s unfolding q lineage_stitches_snoc by (simp add: n)
  have ma: "lineage_machines (snd f) 0 ((f # ps) @ [c]) = same_machine (snd f) (Suc (length ps)) (snd c)" for c
    using lineage_machines_snoc [of "snd f" 0 "f # ps" c] m by simp
  show ?thesis
  proof (cases "log_parse blake3 seg")
    case (Ok log)
    let ?c = "(seg, lr_header log)"
    have "lineage_new blake3 (segs @ [seg]) = res_bind (lineage_machines (snd f) 0 ((f # ps) @ [?c])) (\<lambda>_.
        res_bind (lineage_stitches 0 ((f # ps) @ [?c])) (\<lambda>_. Ok \<lparr>ln_segments = (f # ps) @ [?c]\<rparr>))"
      by (simp add: lineage_new_def lineage_parse_snoc p Ok index_res_def del: lineage_stitches.simps lineage_machines.simps)
    then show ?thesis
      unfolding st ma using l by (simp add: lineage_extend_def ln Let_def Ok index_res_def)
  qed (simp_all add: lineage_new_def lineage_extend_def lineage_parse_snoc p ln Let_def len)
qed

section \<open>Accepted lineages\<close>

definition stitched :: "Header list \<Rightarrow> bool" where
  "stitched hs \<longleftrightarrow> (\<forall>i. Suc i < length hs \<longrightarrow> hd_end_snapshot_id (hs ! i) \<noteq> zeros 32
     \<and> hd_end_snapshot_id (hs ! i) = hd_base_snapshot_id (hs ! Suc i))"

definition one_machine :: "Header list \<Rightarrow> bool" where
  "one_machine hs \<longleftrightarrow> (\<forall>h \<in> set hs. hd_machine_config_hash h = hd_machine_config_hash (hd hs)
     \<and> hd_clock_num h = hd_clock_num (hd hs) \<and> hd_clock_den h = hd_clock_den (hd hs))"

definition parses_to :: "(byte list \<Rightarrow> byte list) \<Rightarrow> byte list \<Rightarrow> byte list \<times> Header \<Rightarrow> bool" where
  "parses_to blake3 b p \<longleftrightarrow> (\<exists>lr. log_parse blake3 b = Ok lr \<and> p = (b, lr_header lr))"

lemma lineage_parse_Ok: "lineage_parse blake3 i bs = Ok ps \<longleftrightarrow> list_all2 (parses_to blake3) bs ps"
proof (induction bs arbitrary: i ps)
  case (Cons b bs)
  show ?case
    by (cases "log_parse blake3 b"; cases ps) (auto simp: Cons parses_to_def)
qed auto

lemma lineage_machines_Ok:
  "lineage_machines f i ps = Ok () \<longleftrightarrow> (\<forall>h \<in> set (map snd ps).
     hd_machine_config_hash h = hd_machine_config_hash f
     \<and> hd_clock_num h = hd_clock_num f \<and> hd_clock_den h = hd_clock_den f)"
  by (induction ps arbitrary: i) (auto simp: same_machine_def)

lemma stitched_short [simp]: "stitched []" "stitched [h]"
  by (simp_all add: stitched_def)

lemma stitched_Cons [simp]:
  "stitched (g # h # hs) \<longleftrightarrow> hd_end_snapshot_id g \<noteq> zeros 32
     \<and> hd_end_snapshot_id g = hd_base_snapshot_id h \<and> stitched (h # hs)"
proof -
  have "(\<forall>i. P i) \<longleftrightarrow> P 0 \<and> (\<forall>i. P (Suc i))" for P
    by (metis not0_implies_Suc)
  from this [of "\<lambda>i. Suc i < length (g # h # hs) \<longrightarrow> hd_end_snapshot_id ((g # h # hs) ! i) \<noteq> zeros 32
     \<and> hd_end_snapshot_id ((g # h # hs) ! i) = hd_base_snapshot_id ((g # h # hs) ! Suc i)"]
  show ?thesis by (simp add: stitched_def)
qed

lemma lineage_stitches_Ok: "lineage_stitches i ps = Ok () \<longleftrightarrow> stitched (map snd ps)"
  by (induction i ps rule: lineage_stitches.induct) (auto simp: stitch_def)

lemma lineage_new_iff:
  "lineage_new blake3 segs = Ok ln \<longleftrightarrow> segs \<noteq> []
     \<and> list_all2 (parses_to blake3) segs (ln_segments ln)
     \<and> one_machine (map snd (ln_segments ln)) \<and> stitched (map snd (ln_segments ln))"
  unfolding lineage_new_Ok lineage_parse_Ok lineage_machines_Ok lineage_stitches_Ok one_machine_def
  by (cases "ln_segments ln"; cases ln) auto

lemma edges_from_parsed:
  assumes "list_all2 (parses_to blake3) segs ps"
  shows "\<exists>es. edges_from blake3 i ps = Ok es \<and> map (log_parse blake3) segs = map (Ok \<circ> ed_log) es
    \<and> map ed_index es = [i..<i + length segs]
    \<and> map (lr_header \<circ> ed_log) es = map snd ps
    \<and> map ed_base_snapshot_id es = map (hd_base_snapshot_id \<circ> snd) ps"
  using assms
proof (induction arbitrary: i rule: list_all2_induct)
  case (Cons b bs p ps)
  from Cons.IH [of "Suc i"] Cons.hyps show ?case
    by (auto simp: parses_to_def upt_rec [of i] Suc_le_eq)
qed auto

section \<open>Properties\<close>

text \<open>
  C7. Extending is constructing: for a lineage \<open>new\<close> accepted, \<open>extend\<close> with one more
  segment returns exactly what \<open>new\<close> returns on all the segments, the error and the
  index it names included.
\<close>

theorem extend_is_new:
  assumes "lineage_new blake3 segs = Ok ln"
  shows "lineage_extend blake3 ln seg = lineage_new blake3 (segs @ [seg])"
  by (rule lineage_extend_new [OF assms])

text \<open>A segment that starts and ends in the same snapshot, so it extends its own lineage.\<close>

lemma ex_lineage:
  "\<exists>bytes ln. lineage_new (\<lambda>_. zeros 32) [bytes] = Ok ln \<and> (\<exists>ln'. lineage_new (\<lambda>_. zeros 32) [bytes, bytes] = Ok ln')"
proof -
  obtain bytes lr where p: "log_parse (\<lambda>_. zeros 32) bytes = Ok lr"
    "hd_base_snapshot_id (lr_header lr) = replicate 32 1" "hd_end_snapshot_id (lr_header lr) = replicate 32 1"
    using ex_parses by blast
  then show ?thesis
    by (intro exI [of _ bytes]) (simp add: lineage_new_def index_res_def same_machine_def stitch_def)
qed

theorem extend_is_new_witness:
  "\<exists>bytes ln ln'. lineage_new (\<lambda>_. zeros 32) [bytes] = Ok ln
     \<and> lineage_extend (\<lambda>_. zeros 32) ln bytes = Ok ln'"
proof -
  obtain bytes ln ln' where l: "lineage_new (\<lambda>_. zeros 32) [bytes] = Ok ln"
    "lineage_new (\<lambda>_. zeros 32) [bytes, bytes] = Ok ln'"
    using ex_lineage by blast
  from extend_is_new [OF l(1), of bytes] l show ?thesis by auto
qed

text \<open>
  C8. An accepted lineage is a replay plan anchored at its root: the edges are the parsed
  segments in order, all of one machine, the first starts at \<open>root_base\<close>, each later one
  starts at the snapshot the edge before it ended in, the last one gives \<open>end_identity\<close>,
  and no accessor panics.
\<close>

theorem lineage_edges_chain:
  assumes "lineage_new blake3 segs = Ok ln"
  shows "\<exists>es. lineage_edges blake3 ln = Ok es \<and> es \<noteq> [] \<and> length es = lineage_len ln
    \<and> map (log_parse blake3) segs = map (Ok \<circ> ed_log) es \<and> map ed_index es = [0..<length segs]
    \<and> one_machine (map (lr_header \<circ> ed_log) es) \<and> stitched (map (lr_header \<circ> ed_log) es)
    \<and> map ed_base_snapshot_id es = map hd_base_snapshot_id (map (lr_header \<circ> ed_log) es)
    \<and> lineage_root_base ln = Ok (ed_base_snapshot_id (hd es))
    \<and> lineage_end_identity ln = (let h = lr_header (ed_log (last es)) in
         Ok (hd_end_snapshot_id h, hd_end_state_hash h, hd_end_icount h))"
proof -
  let ?ps = "ln_segments ln"
  from assms have ne: "segs \<noteq> []" and p: "list_all2 (parses_to blake3) segs ?ps"
    and ok: "one_machine (map snd ?ps)" "stitched (map snd ?ps)"
    by (auto simp: lineage_new_iff)
  from edges_from_parsed [OF p, of 0] obtain es where
    e: "edges_from blake3 0 ?ps = Ok es" "map (log_parse blake3) segs = map (Ok \<circ> ed_log) es"
      "map ed_index es = [0..<length segs]" and h: "map (lr_header \<circ> ed_log) es = map snd ?ps"
      and b: "map ed_base_snapshot_id es = map (hd_base_snapshot_id \<circ> snd) ?ps"
    by auto
  have len: "length es = length ?ps" "?ps \<noteq> []" "es \<noteq> []"
    using arg_cong [OF h, of length] ne list_all2_lengthD [OF p] by auto
  have hl: "lr_header (ed_log (last es)) = snd (last ?ps)"
    using arg_cong [OF h, of last] len by (simp add: last_map)
  have bh: "ed_base_snapshot_id (hd es) = hd_base_snapshot_id (snd (hd ?ps))"
    using arg_cong [OF b, of hd] len by (simp add: hd_map)
  have "map ed_base_snapshot_id es = map hd_base_snapshot_id (map (lr_header \<circ> ed_log) es)"
    unfolding h b by simp
  moreover have "one_machine (map (lr_header \<circ> ed_log) es)" "stitched (map (lr_header \<circ> ed_log) es)"
    unfolding h by (rule ok)+
  ultimately show ?thesis
    using e len hl bh by (intro exI [of _ es])
      (auto simp: lineage_edges_def lineage_len_def lineage_root_base_def lineage_end_identity_def
        index_res_def Let_def hd_conv_nth)
qed

theorem lineage_edges_chain_witness:
  "\<exists>bytes ln es. lineage_new (\<lambda>_. zeros 32) [bytes, bytes] = Ok ln \<and> lineage_edges (\<lambda>_. zeros 32) ln = Ok es
     \<and> map ed_index es = [0, 1] \<and> stitched (map (lr_header \<circ> ed_log) es)"
proof -
  obtain bytes ln where l: "lineage_new (\<lambda>_. zeros 32) [bytes, bytes] = Ok ln"
    using ex_lineage by blast
  have "[0..<length [bytes, bytes]] = [0, 1]" by (simp add: upt_rec)
  with lineage_edges_chain [OF l] l show ?thesis by metis
qed

end
