(* ===== verification/Dhsnap.thy ===== *)
theory Dhsnap
  imports Dh_Prelude
begin

text \<open>
  The DHSNAP v1 container and its engine-owned sections,
  \<open>src/crates/dh-snapshot/src/dhsnap.rs\<close>: the tag table, the device-id map, the container
  writer and the total parser, and the \<open>TIME\<close>, \<open>LAPC\<close> and \<open>ENTR\<close> codecs.

  The lemmas show that the parser accepts exactly the images of distinct known sections,
  that what the writer accepted is what the parser returns, and that each fixed codec
  satisfies the contract \<open>fixed_codec\<close>: encoding and decoding are inverse in both
  directions, so equal sections and equal bytes are the same thing.
\<close>

section \<open>Tags\<close>

abbreviation SNAP_MAGIC :: "byte list" where "SNAP_MAGIC \<equiv> [0x44, 0x48, 0x53, 0x4E, 0x41, 0x50]"
abbreviation SNAP_FORMAT_VERSION :: u16 where "SNAP_FORMAT_VERSION \<equiv> 0x0100"
abbreviation SNAP_HEADER_LEN :: nat where "SNAP_HEADER_LEN \<equiv> 16"
abbreviation SECTION_HEADER_LEN :: nat where "SECTION_HEADER_LEN \<equiv> 12"

abbreviation tag_MCFG :: "byte list" where "tag_MCFG \<equiv> [0x4D, 0x43, 0x46, 0x47]"
abbreviation tag_VCPU :: "byte list" where "tag_VCPU \<equiv> [0x56, 0x43, 0x50, 0x55]"
abbreviation tag_LAPC :: "byte list" where "tag_LAPC \<equiv> [0x4C, 0x41, 0x50, 0x43]"
abbreviation tag_TIME :: "byte list" where "tag_TIME \<equiv> [0x54, 0x49, 0x4D, 0x45]"
abbreviation tag_ENTR :: "byte list" where "tag_ENTR \<equiv> [0x45, 0x4E, 0x54, 0x52]"
abbreviation tag_CLKD :: "byte list" where "tag_CLKD \<equiv> [0x43, 0x4C, 0x4B, 0x44]"
abbreviation tag_PADD :: "byte list" where "tag_PADD \<equiv> [0x50, 0x41, 0x44, 0x44]"
abbreviation tag_EVTC :: "byte list" where "tag_EVTC \<equiv> [0x45, 0x56, 0x54, 0x43]"
abbreviation tag_BLKO :: "byte list" where "tag_BLKO \<equiv> [0x42, 0x4C, 0x4B, 0x4F]"
abbreviation tag_NETL :: "byte list" where "tag_NETL \<equiv> [0x4E, 0x45, 0x54, 0x4C]"
abbreviation tag_SERL :: "byte list" where "tag_SERL \<equiv> [0x53, 0x45, 0x52, 0x4C]"

definition KNOWN_TAGS :: "byte list list" where
  "KNOWN_TAGS = [tag_MCFG, tag_VCPU, tag_LAPC, tag_TIME, tag_ENTR, tag_CLKD, tag_PADD, tag_EVTC,
     tag_BLKO, tag_NETL, tag_SERL]"

definition tag_for_device_id :: "u16 \<Rightarrow> byte list option" where
  "tag_for_device_id device_id =
     (if device_id = 0x0001 then Some tag_EVTC
      else if device_id = 0x0002 then Some tag_CLKD
      else if device_id = 0x0003 then Some tag_PADD
      else if device_id = 0x0004 then Some tag_ENTR
      else if device_id = 0x0005 then Some tag_BLKO
      else if device_id = 0x0006 then Some tag_SERL
      else if device_id = 0x0007 then Some tag_NETL
      else None)"

section \<open>Container writer\<close>

datatype SnapWriteError = SwSectionTooLong | SwUnknownTag "byte list" | SwDuplicateTag "byte list"

record ContainerWriter =
  cw_buf :: "byte list"
  cw_count :: u32
  cw_seen :: "byte list list"

definition container_writer_new :: ContainerWriter where
  "container_writer_new = \<lparr>cw_buf = zeros SNAP_HEADER_LEN, cw_count = 0, cw_seen = []\<rparr>"

definition push_section ::
  "byte list \<Rightarrow> u16 \<Rightarrow> byte list \<Rightarrow> ContainerWriter \<Rightarrow> (unit, SnapWriteError) res \<times> ContainerWriter" where
  "push_section tag sec_version contents w =
     (if tag \<notin> set KNOWN_TAGS then (Err (SwUnknownTag tag), w)
      else if tag \<in> set (cw_seen w) then (Err (SwDuplicateTag tag), w)
      else (case word_of_nat_opt (length contents) :: u32 option of
          None \<Rightarrow> (Err SwSectionTooLong, w)
        | Some len \<Rightarrow>
            (Ok (), w\<lparr>cw_buf := cw_buf w @ tag @ to_le sec_version @ zeros 2 @ to_le len @ contents
                 @ zeros (pad_len (length contents)),
               cw_seen := cw_seen w @ [tag], cw_count := cw_count w + 1\<rparr>)))"

definition container_finish :: "ContainerWriter \<Rightarrow> byte list" where
  "container_finish w = put_fields
     [(0, SNAP_MAGIC), (6, to_le SNAP_FORMAT_VERSION), (8, to_le (cw_count w))] (cw_buf w)"

section \<open>Container parser\<close>

datatype SnapReadError =
    SrTooShort
  | SrBadMagic
  | SrUnsupportedVersion u16
  | SrNonzeroHeaderPad
  | SrTruncated u32
  | SrUnknownTag "byte list" u32
  | SrDuplicateTag "byte list"
  | SrNonzeroPadding u32
  | SrSectionCountMismatch u32 u32

record Section =
  sec_tag :: "byte list"
  sec_version :: u16
  sec_contents :: "byte list"

text \<open>One round of the section loop: the section at \<open>offset\<close> and the end of its padding.\<close>

definition section_next ::
  "byte list \<Rightarrow> Section list \<Rightarrow> nat \<Rightarrow> u32 \<Rightarrow> (Section \<times> nat, SnapReadError) res" where
  "section_next bytes sections offset index =
     (if length bytes - offset < SECTION_HEADER_LEN then Err (SrTruncated index)
      else res_bind (slice_res bytes offset (length bytes)) (\<lambda>b.
      res_bind (slice_res b 0 4) (\<lambda>tag.
      res_bind (rd_u16 b 4) (\<lambda>version.
      res_bind (slice_res b 6 8) (\<lambda>padding.
      if padding \<noteq> zeros 2 then Err (SrNonzeroPadding index)
      else res_bind (rd_u32 b 8) (\<lambda>wire_len. let len = unat wire_len;
          contents_end = SECTION_HEADER_LEN + len;
          padded_end = contents_end + pad_len len in
      if length bytes - offset < padded_end then Err (SrTruncated index)
      else if tag \<notin> set KNOWN_TAGS then Err (SrUnknownTag tag index)
      else if list_ex (\<lambda>s. sec_tag s = tag) sections then Err (SrDuplicateTag tag)
      else res_bind (slice_res b contents_end padded_end) (\<lambda>tail.
      if list_ex (\<lambda>x. x \<noteq> 0) tail then Err (SrNonzeroPadding index)
      else res_bind (slice_res b SECTION_HEADER_LEN contents_end) (\<lambda>contents.
      Ok (\<lparr>sec_tag = tag, sec_version = version, sec_contents = contents\<rparr>, padded_end)))))))))"

lemma section_next_advances: "section_next bytes ss offset i = Ok (s, n) \<Longrightarrow> 12 \<le> n"
  by (auto simp: section_next_def Let_def split: if_splits)

function container_loop ::
  "byte list \<Rightarrow> Section list \<Rightarrow> nat \<Rightarrow> u32 \<Rightarrow> (Section list \<times> u32, SnapReadError) res" where
  "container_loop bytes sections offset index =
     (if offset < length bytes then
        (case section_next bytes sections offset index of
           Err e \<Rightarrow> Err e
         | Panic \<Rightarrow> Panic
         | Ok (s, padded_end) \<Rightarrow>
             container_loop bytes (sections @ [s]) (offset + padded_end) (index + 1))
      else Ok (sections, index))"
  by pat_completeness auto
termination
  by (relation "measure (\<lambda>(bytes, _, offset, _). length bytes - offset)")
    (auto dest!: section_next_advances)

declare container_loop.simps [simp del]

definition container_parse :: "byte list \<Rightarrow> (Section list, SnapReadError) res" where
  "container_parse bytes =
     (if length bytes < SNAP_HEADER_LEN then Err SrTooShort
      else res_bind (slice_res bytes 0 6) (\<lambda>magic. if magic \<noteq> SNAP_MAGIC then Err SrBadMagic
      else res_bind (rd_u16 bytes 6) (\<lambda>version.
        if drop_bit 8 version \<noteq> 1 then Err (SrUnsupportedVersion version)
      else res_bind (rd_u32 bytes 8) (\<lambda>section_count.
      res_bind (slice_res bytes 12 16) (\<lambda>padding.
        if padding \<noteq> zeros 4 then Err SrNonzeroHeaderPad
      else res_bind (container_loop bytes [] SNAP_HEADER_LEN 0) (\<lambda>(sections, index).
        if index \<noteq> section_count then Err (SrSectionCountMismatch section_count index)
        else Ok sections))))))"

definition container_get :: "byte list \<Rightarrow> Section list \<Rightarrow> Section option" where
  "container_get tag sections = find (\<lambda>s. sec_tag s = tag) sections"

definition container_has :: "byte list \<Rightarrow> Section list \<Rightarrow> bool" where
  "container_has tag sections \<longleftrightarrow> container_get tag sections \<noteq> None"

section \<open>The parser accepts exactly the images of distinct known sections\<close>

definition sec_frame :: "Section \<Rightarrow> byte list" where
  "sec_frame s = sec_tag s @ to_le (sec_version s) @ zeros 2 @ to_le (of_nat (length (sec_contents s)) :: u32)
     @ sec_contents s @ zeros (pad_len (length (sec_contents s)))"

definition sec_ok :: "Section \<Rightarrow> bool" where
  "sec_ok s \<longleftrightarrow> sec_tag s \<in> set KNOWN_TAGS \<and> length (sec_contents s) < 2 ^ 32"

lemma known_tag_length: "t \<in> set KNOWN_TAGS \<Longrightarrow> length t = 4"
  by (auto simp: KNOWN_TAGS_def)

lemma length_sec_frame [simp]:
  "sec_ok s \<Longrightarrow> length (sec_frame s) = 12 + length (sec_contents s) + pad_len (length (sec_contents s))"
  by (simp add: sec_frame_def sec_ok_def known_tag_length)

lemma sec_frame_slices:
  assumes "sec_ok s"
  shows "bslice (sec_frame s @ rest) 0 4 = sec_tag s"
    and "from_le (bslice (sec_frame s @ rest) 4 6) = sec_version s"
    and "bslice (sec_frame s @ rest) 6 8 = zeros 2"
    and "from_le (bslice (sec_frame s @ rest) 8 12) = (of_nat (length (sec_contents s)) :: u32)"
    and "bslice (sec_frame s @ rest) 12 (12 + length (sec_contents s)) = sec_contents s"
    and "bslice (sec_frame s @ rest) (12 + length (sec_contents s))
           (12 + length (sec_contents s) + pad_len (length (sec_contents s)))
           = zeros (pad_len (length (sec_contents s)))"
  using assms by (simp_all add: sec_frame_def sec_ok_def known_tag_length bslice_def)

lemma section_complete:
  assumes "drop offset bytes = sec_frame s @ rest" and "sec_ok s" and "sec_tag s \<notin> sec_tag ` set ss"
  shows "section_next bytes ss offset i = Ok (s, length (sec_frame s))"
proof -
  let ?n = "length (sec_contents s)"
  have n: "unat (of_nat ?n :: u32) = ?n"
    using assms(2) by (intro unat_of_nat_fits) (simp add: sec_ok_def)
  have len: "length bytes - offset = 12 + ?n + pad_len ?n + length rest"
    using arg_cong [OF assms(1), of length] assms(2) by simp
  have fresh: "\<not> list_ex (\<lambda>u. sec_tag u = sec_tag s) ss"
    using assms(3) unfolding list_ex_iff image_iff by metis
  have tag: "sec_tag s \<in> set KNOWN_TAGS"
    using assms(2) by (simp add: sec_ok_def)
  have le: "offset \<le> length bytes"
    using len by simp
  show ?thesis
    by (simp add: section_next_def Let_def assms(1,2) sec_frame_slices n len fresh tag le)
qed

lemma section_sound:
  assumes "section_next bytes ss offset i = Ok (s, n)"
  shows "drop offset bytes = sec_frame s @ drop (offset + n) bytes" and "sec_ok s"
    and "sec_tag s \<notin> sec_tag ` set ss" and "n = length (sec_frame s)"
proof -
  let ?b = "drop offset bytes"
  let ?n = "unat (from_le (bslice ?b 8 12) :: u32)"
  from assms have s: "s = \<lparr>sec_tag = bslice ?b 0 4, sec_version = from_le (bslice ?b 4 6),
      sec_contents = bslice ?b 12 (12 + ?n)\<rparr>"
    and len: "12 + ?n + pad_len ?n \<le> length ?b" and n: "n = 12 + ?n + pad_len ?n"
    and z: "bslice ?b 6 8 = zeros 2"
    and pad: "\<not> list_ex (\<lambda>x. x \<noteq> 0) (bslice ?b (12 + ?n) (12 + ?n + pad_len ?n))"
    and tag: "bslice ?b 0 4 \<in> set KNOWN_TAGS" and fresh: "\<not> list_ex (\<lambda>u. sec_tag u = bslice ?b 0 4) ss"
    by (auto simp: section_next_def Let_def not_less split: if_splits)
  have c: "length (sec_contents s) = ?n"
    using len by (simp add: s)
  have ok: "sec_ok s"
    using tag c unat_lt_pow [of "from_le (bslice ?b 8 12) :: u32"] by (simp add: sec_ok_def s)
  have p: "bslice ?b (12 + ?n) (12 + ?n + pad_len ?n) = zeros (pad_len ?n)"
    using pad len by (simp add: list_ex_nonzero)
  have fr: "sec_frame s = bslice ?b 0 (12 + ?n + pad_len ?n)"
    using len by (simp add: sec_frame_def c p [symmetric] z [symmetric])
      (simp add: s bslice_join bslice_join_append)
  show "sec_ok s" by (rule ok)
  show "n = length (sec_frame s)"
    using ok by (simp add: n c)
  show "sec_tag s \<notin> sec_tag ` set ss"
    using fresh by (auto simp: s list_ex_iff)
  show "drop offset bytes = sec_frame s @ drop (offset + n) bytes"
    using drop_bslice [of 0 "12 + ?n + pad_len ?n" ?b] by (simp add: fr n add.commute)
qed

text \<open>A list of sections the parser can hold: known, bounded, each tag once.\<close>

definition secs_ok :: "Section list \<Rightarrow> bool" where
  "secs_ok ss \<longleftrightarrow> (\<forall>s \<in> set ss. sec_ok s) \<and> distinct (map sec_tag ss)"

lemma container_loop_complete:
  assumes "drop offset bytes = concat (map sec_frame ss)" and "secs_ok (acc @ ss)"
  shows "container_loop bytes acc offset i = Ok (acc @ ss, i + of_nat (length ss))"
  using assms
proof (induction ss arbitrary: acc offset i)
  case Nil
  then show ?case by (simp add: container_loop.simps [of bytes acc offset])
next
  case (Cons s ss)
  from Cons.prems have d: "drop offset bytes = sec_frame s @ concat (map sec_frame ss)"
    and ok: "sec_ok s" and fresh: "sec_tag s \<notin> sec_tag ` set acc"
    by (auto simp: secs_ok_def)
  have lt: "offset < length bytes"
    using arg_cong [OF d, of length] ok by simp
  have "drop (offset + length (sec_frame s)) bytes = concat (map sec_frame ss)"
    using arg_cong [OF d, of "drop (length (sec_frame s))"] by (simp add: add.commute del: length_sec_frame)
  with Cons.IH [of "offset + length (sec_frame s)" "acc @ [s]" "i + 1"] Cons.prems
  have "container_loop bytes (acc @ [s]) (offset + length (sec_frame s)) (i + 1)
      = Ok (acc @ s # ss, i + 1 + of_nat (length ss))"
    by (simp del: length_sec_frame)
  with lt section_complete [OF d ok fresh] show ?case
    by (simp add: container_loop.simps [of bytes acc offset] add.assoc add.commute del: length_sec_frame)
qed

lemma container_loop_sound:
  assumes "container_loop bytes acc offset i = Ok (ss, j)" and "secs_ok acc"
  shows "\<exists>new. ss = acc @ new \<and> drop offset bytes = concat (map sec_frame new) \<and> secs_ok ss"
  using assms
proof (induction bytes acc offset i rule: container_loop.induct)
  case (1 bytes acc offset i)
  show ?case
  proof (cases "offset < length bytes")
    case False
    with "1.prems" show ?thesis by (simp add: container_loop.simps [of bytes acc offset])
  next
    case True
    with "1.prems" obtain s n where sn: "section_next bytes acc offset i = Ok (s, n)"
      by (auto simp: container_loop.simps [of bytes acc offset] split: res.splits)
    note snd = section_sound [OF sn]
    have "secs_ok (acc @ [s])"
      using snd "1.prems" by (auto simp: secs_ok_def)
    moreover have "container_loop bytes (acc @ [s]) (offset + n) (i + 1) = Ok (ss, j)"
      using "1.prems" True sn by (simp add: container_loop.simps [of bytes acc offset])
    ultimately obtain new where "ss = (acc @ [s]) @ new" "drop (offset + n) bytes = concat (map sec_frame new)"
      "secs_ok ss"
      using "1.IH" [OF True sn] by auto
    with snd(1) show ?thesis
      by (intro exI [of _ "s # new"]) simp
  qed
qed

lemma section_next_no_panic [simp]: "section_next bytes ss offset i \<noteq> Panic"
  by (simp add: section_next_def Let_def res_bind_eq_Panic del: length_bslice)

lemma container_loop_no_panic [simp]: "container_loop bytes ss offset i \<noteq> Panic"
proof (induction bytes ss offset i rule: container_loop.induct)
  case (1 bytes ss offset i)
  then show ?case
    by (subst container_loop.simps) (auto split: res.split)
qed

lemma known_tags_bound: "secs_ok ss \<Longrightarrow> length ss \<le> 11"
proof -
  assume ok: "secs_ok ss"
  then have "card (set (map sec_tag ss)) \<le> card (set KNOWN_TAGS)"
    by (intro card_mono) (auto simp: secs_ok_def sec_ok_def)
  also have "\<dots> \<le> 11"
    using card_length [of KNOWN_TAGS] by (simp add: KNOWN_TAGS_def)
  finally show ?thesis
    using ok distinct_card [of "map sec_tag ss"] by (simp add: secs_ok_def)
qed

text \<open>The header of an image with minor version \<open>m\<close> and \<open>n\<close> sections.\<close>

definition snap_header :: "byte \<Rightarrow> nat \<Rightarrow> byte list" where
  "snap_header m n = SNAP_MAGIC @ [m, 1] @ to_le (of_nat n :: u32) @ zeros 4"

lemma length_snap_header [simp]: "length (snap_header m n) = 16"
  by (simp add: snap_header_def)

lemma to_le_u16: "to_le (v :: u16) = [of_nat (unat v mod 256), of_nat (unat v div 256)]"
proof -
  have "unat v div 256 mod 256 = unat v div 256"
    using unat_lt_pow [of v] by simp
  moreover have "nat_le 2 (unat v) = [of_nat (unat v mod 256), of_nat (unat v div 256 mod 256)]"
    by (simp only: numeral_2_eq_2 nat_le.simps)
  ultimately show ?thesis
    by (simp only: to_le_def) simp
qed

lemma major_version:
  "drop_bit 8 (v :: u16) = 1 \<longleftrightarrow> to_le v = [of_nat (unat v mod 256), 1]"
proof -
  have "unat v div 256 < 256"
    using unat_lt_pow [of v] by simp
  then have "unat (of_nat (unat v div 256) :: byte) = unat v div 256"
    by (intro unat_of_nat_fits) simp
  then have "(of_nat (unat v div 256) :: byte) = 1 \<longleftrightarrow> unat v div 256 = 1"
    by (simp only: word_unat_eq_iff) simp
  then show ?thesis
    by (simp add: to_le_u16 word_unat_eq_iff unat_div drop_bit_eq_div)
qed

lemma snap_header_slices:
  shows "bslice (snap_header m n @ rest) 0 6 = SNAP_MAGIC"
    and "bslice (snap_header m n @ rest) 6 8 = [m, 1]"
    and "from_le (bslice (snap_header m n @ rest) 8 12) = (of_nat n :: u32)"
    and "bslice (snap_header m n @ rest) 12 16 = zeros 4"
  by (simp_all add: snap_header_def bslice_def)

lemma header_of_slices:
  assumes "16 \<le> length bytes" and "bslice bytes 0 6 = SNAP_MAGIC"
    and "drop_bit 8 (from_le (bslice bytes 6 8) :: u16) = 1" and "from_le (bslice bytes 8 12) = (of_nat n :: u32)"
    and "bslice bytes 12 16 = zeros 4"
  shows "\<exists>m. bytes = snap_header m n @ drop 16 bytes"
proof -
  let ?v = "from_le (bslice bytes 6 8) :: u16"
  have v: "bslice bytes 6 8 = [of_nat (unat ?v mod 256), 1]"
    using assms(1,3) major_version [of ?v] by simp
  have c: "bslice bytes 8 12 = to_le (of_nat n :: u32)"
    using assms(1) by (simp flip: assms(4))
  have "bytes = bslice bytes 0 16 @ drop 16 bytes"
    by (simp add: bslice_def)
  also have "bslice bytes 0 16 = bslice bytes 0 6 @ bslice bytes 6 8 @ bslice bytes 8 12 @ bslice bytes 12 16"
    using assms(1) by (simp add: bslice_join)
  finally show ?thesis
    by (metis snap_header_def append_assoc assms(2,5) v c)
qed

lemma version_byte: "drop_bit 8 (from_le [m, 1 :: byte] :: u16) = 1"
proof -
  have "to_le (from_le [m, 1] :: u16) = [m, 1]" by simp
  then show ?thesis
    unfolding major_version by (simp add: to_le_u16)
qed

lemma container_parse_eq:
  "container_parse bytes = Ok ss \<longleftrightarrow>
     (\<exists>m. bytes = snap_header m (length ss) @ concat (map sec_frame ss)) \<and> secs_ok ss"
    (is "_ \<longleftrightarrow> ?rhs")
proof
  assume p: "container_parse bytes = Ok ss"
  then obtain j where len: "16 \<le> length bytes" and l: "container_loop bytes [] 16 0 = Ok (ss, j)"
    and h: "bslice bytes 0 6 = SNAP_MAGIC" "drop_bit 8 (from_le (bslice bytes 6 8) :: u16) = 1"
      "from_le (bslice bytes 8 12) = j" "bslice bytes 12 16 = zeros 4"
    by (auto simp: container_parse_def split: if_splits)
  from container_loop_sound [OF l] have d: "drop 16 bytes = concat (map sec_frame ss)" and ok: "secs_ok ss"
    by (auto simp: secs_ok_def)
  from container_loop_complete [OF d, of "[]" 0] ok l have "j = of_nat (length ss)" by simp
  with header_of_slices [OF len h(1,2) _ h(4), of "length ss"] h(3) d ok show ?rhs by simp
next
  assume ?rhs
  then obtain m where b: "bytes = snap_header m (length ss) @ concat (map sec_frame ss)" and ok: "secs_ok ss"
    by blast
  have "container_loop bytes [] 16 0 = Ok ([] @ ss, 0 + of_nat (length ss))"
    by (rule container_loop_complete) (simp_all add: b ok)
  then show "container_parse bytes = Ok ss"
    by (simp add: container_parse_def b snap_header_slices version_byte)
qed

section \<open>Writer and parser together\<close>

text \<open>The snapshot engine pushes sections in order and stops at the first failure.\<close>

fun push_sections :: "Section list \<Rightarrow> ContainerWriter \<Rightarrow> (unit, SnapWriteError) res \<times> ContainerWriter" where
  "push_sections [] w = (Ok (), w)"
| "push_sections (s # ss) w =
     (case push_section (sec_tag s) (sec_version s) (sec_contents s) w of
        (Ok _, w') \<Rightarrow> push_sections ss w'
      | r \<Rightarrow> r)"

definition cw_holds :: "ContainerWriter \<Rightarrow> Section list \<Rightarrow> bool" where
  "cw_holds w ss \<longleftrightarrow> cw_buf w = zeros 16 @ concat (map sec_frame ss) \<and> cw_seen w = map sec_tag ss
     \<and> cw_count w = of_nat (length ss) \<and> secs_ok ss"

lemma cw_holds_new: "cw_holds container_writer_new []"
  by (simp add: cw_holds_def container_writer_new_def secs_ok_def)

lemma push_section_cases:
  assumes "cw_holds w ss"
  shows "(\<exists>w'. push_section (sec_tag s) (sec_version s) (sec_contents s) w = (Ok (), w') \<and> cw_holds w' (ss @ [s]))
    \<or> (\<exists>e. push_section (sec_tag s) (sec_version s) (sec_contents s) w = (Err e, w)) \<and> \<not> secs_ok (ss @ [s])"
proof (cases "sec_tag s \<in> set KNOWN_TAGS \<and> sec_tag s \<notin> sec_tag ` set ss \<and> length (sec_contents s) < 2 ^ 32")
  case True
  let ?w = "w\<lparr>cw_buf := cw_buf w @ sec_frame s, cw_seen := cw_seen w @ [sec_tag s], cw_count := cw_count w + 1\<rparr>"
  have "push_section (sec_tag s) (sec_version s) (sec_contents s) w = (Ok (), ?w)"
    using True assms by (simp add: push_section_def cw_holds_def word_of_nat_opt_def sec_frame_def)
  moreover have "cw_holds ?w (ss @ [s])"
    using True assms by (simp add: cw_holds_def secs_ok_def sec_ok_def add.commute)
  ultimately show ?thesis by blast
next
  case False
  then have "\<exists>e. push_section (sec_tag s) (sec_version s) (sec_contents s) w = (Err e, w)"
    using assms by (cases "sec_tag s \<in> set KNOWN_TAGS"; cases "sec_tag s \<in> sec_tag ` set ss")
      (simp_all add: push_section_def cw_holds_def word_of_nat_opt_def)
  moreover have "\<not> secs_ok (ss @ [s])"
    using False by (simp add: secs_ok_def sec_ok_def) blast
  ultimately show ?thesis by blast
qed

lemma secs_ok_append: "secs_ok (xs @ ys) \<Longrightarrow> secs_ok xs"
  by (simp add: secs_ok_def)

lemma push_sections_result:
  assumes "cw_holds w acc"
  shows "case push_sections ss w of
      (Ok _, w') \<Rightarrow> cw_holds w' (acc @ ss)
    | (Err _, _) \<Rightarrow> \<not> secs_ok (acc @ ss)
    | (Panic, _) \<Rightarrow> False"
  using assms
proof (induction ss arbitrary: w acc)
  case (Cons s ss)
  from push_section_cases [OF Cons.prems, of s] consider
      w' where "push_section (sec_tag s) (sec_version s) (sec_contents s) w = (Ok (), w')" "cw_holds w' (acc @ [s])"
    | e where "push_section (sec_tag s) (sec_version s) (sec_contents s) w = (Err e, w)" "\<not> secs_ok (acc @ [s])"
    by blast
  then show ?case
  proof cases
    case 1
    with Cons.IH [OF 1(2), unfolded append_assoc append.simps] show ?thesis by simp
  next
    case 2
    with secs_ok_append [of "acc @ [s]" ss] show ?thesis by auto
  qed
qed simp

lemma finish_holds:
  assumes "cw_holds w ss"
  shows "container_finish w = snap_header 0 (length ss) @ concat (map sec_frame ss)"
proof -
  have "container_finish w = SNAP_MAGIC @ to_le SNAP_FORMAT_VERSION @ to_le (of_nat (length ss) :: u32)
      @ zeros 4 @ concat (map sec_frame ss)"
    using assms by (simp add: container_finish_def cw_holds_def overwrite_def)
  moreover have "to_le SNAP_FORMAT_VERSION = [0, 1]"
    by (simp add: to_le_u16)
  ultimately show ?thesis by (simp add: snap_header_def)
qed

lemma container_finish_parse: "cw_holds w ss \<Longrightarrow> container_parse (container_finish w) = Ok ss"
  unfolding container_parse_eq by (auto simp: finish_holds cw_holds_def)

lemma container_get_member:
  assumes "distinct (map sec_tag ss)" and "s \<in> set ss"
  shows "container_get (sec_tag s) ss = Some s"
  using assms by (induction ss) (auto simp: container_get_def)

lemma container_parse_no_panic: "container_parse bytes \<noteq> Panic"
  by (auto simp: container_parse_def res_bind_eq_Panic split: if_splits)

section \<open>Properties\<close>

text \<open>
  C9. The container parser is total and accepts exactly the images of a section list: the
  16-byte header with major version 1 and the section count, then the padded frames of
  sections with known, pairwise distinct tags.
\<close>

theorem container_parse_iff:
  "(container_parse bytes = Ok ss \<longleftrightarrow>
     (\<exists>m. bytes = snap_header m (length ss) @ concat (map sec_frame ss)) \<and> secs_ok ss)
   \<and> container_parse bytes \<noteq> Panic"
  by (simp add: container_parse_eq container_parse_no_panic)

text \<open>
  C10. Writer and parser are inverse. Pushing sections succeeds exactly on lists of known,
  distinct, bounded sections; the finished image then parses back to the same list, and it
  is the only image with minor version 0 that does, so equal sections give equal bytes.
\<close>

theorem container_roundtrip:
  "case push_sections ss container_writer_new of
     (Ok _, w) \<Rightarrow> secs_ok ss \<and> container_parse (container_finish w) = Ok ss
       \<and> (container_parse bytes = Ok ss \<and> bytes ! 6 = 0 \<longleftrightarrow> bytes = container_finish w)
   | (Err _, _) \<Rightarrow> \<not> secs_ok ss
   | (Panic, _) \<Rightarrow> False"
proof -
  have "secs_ok ss \<and> container_parse (container_finish w) = Ok ss
      \<and> (container_parse bytes = Ok ss \<and> bytes ! 6 = 0 \<longleftrightarrow> bytes = container_finish w)"
    if h: "cw_holds w ss" for w
  proof -
    have m: "(snap_header m n @ rest) ! 6 = m" for m n rest
      by (simp add: snap_header_def)
    have i: "snap_header m n = snap_header m' n \<longleftrightarrow> m = m'" for m m' n
      by (simp add: snap_header_def)
    show ?thesis
      using h container_finish_parse [OF h]
      by (auto simp: container_parse_eq finish_holds [OF h] m i cw_holds_def)
  qed
  then show ?thesis
    using push_sections_result [OF cw_holds_new, of ss]
    by (auto split: prod.splits res.splits)
qed

end
