(* ===== verification/Snap_Sections.thy ===== *)
theory Snap_Sections
  imports Dhsnap
begin

text \<open>
  The engine-owned fixed sections of \<open>src/crates/dh-snapshot/src/dhsnap.rs\<close>: \<open>TIME\<close>,
  \<open>ENTR\<close> in both versions and \<open>LAPC\<close> with its cursor-driven codec and legacy decoder.

  The contract \<open>fixed_codec\<close> says that a codec is total, rejects every other version, and
  is a bijection between the well-formed sections and the byte strings it accepts. It is
  interpreted on the four codecs, and the container lemma proved once inside it gives the
  round trip of a section through a sealed container.
\<close>

section \<open>The sections\<close>

datatype SectionError = BadVersion u16 | BadLength nat | NonzeroReserved nat

subsection \<open>TIME\<close>

record TimeSection =
  ts_cumulative_icount :: u64
  ts_vns :: u64
  ts_epoch_index :: u64
  ts_hash_chain :: "byte list"

abbreviation TIME_LEN :: nat where "TIME_LEN \<equiv> 56"
abbreviation TIME_VERSION :: u16 where "TIME_VERSION \<equiv> 1"

definition time_encode :: "TimeSection \<Rightarrow> byte list" where
  "time_encode s = put_fields
     [(0, to_le (ts_cumulative_icount s)), (8, to_le (ts_vns s)), (16, to_le (ts_epoch_index s)),
      (24, ts_hash_chain s)] (zeros TIME_LEN)"

definition time_decode :: "byte list \<Rightarrow> u16 \<Rightarrow> (TimeSection, SectionError) res" where
  "time_decode bytes version =
     (if version \<noteq> TIME_VERSION then Err (BadVersion version)
      else if length bytes \<noteq> TIME_LEN then Err (BadLength (length bytes))
      else res_bind (rd_u64 bytes 0) (\<lambda>icount. res_bind (rd_u64 bytes 8) (\<lambda>vns.
      res_bind (rd_u64 bytes 16) (\<lambda>epoch. res_bind (slice_res bytes 24 56) (\<lambda>chain.
      Ok \<lparr>ts_cumulative_icount = icount, ts_vns = vns, ts_epoch_index = epoch, ts_hash_chain = chain\<rparr>)))))"

subsection \<open>ENTR\<close>

record EntrSection =
  es_seed :: "byte list"
  es_stream :: u64
  es_word_pos :: u128

abbreviation ENTR_LEN :: nat where "ENTR_LEN \<equiv> 56"
abbreviation ENTR_VERSION :: u16 where "ENTR_VERSION \<equiv> 1"

definition entr_encode :: "EntrSection \<Rightarrow> byte list" where
  "entr_encode s = put_fields
     [(0, es_seed s), (32, to_le (es_stream s)), (40, to_le (es_word_pos s))] (zeros ENTR_LEN)"

definition entr_decode :: "byte list \<Rightarrow> u16 \<Rightarrow> (EntrSection, SectionError) res" where
  "entr_decode bytes version =
     (if version \<noteq> ENTR_VERSION then Err (BadVersion version)
      else if length bytes \<noteq> ENTR_LEN then Err (BadLength (length bytes))
      else res_bind (slice_res bytes 0 32) (\<lambda>seed. res_bind (rd_u64 bytes 32) (\<lambda>stream.
      res_bind (rd_u128 bytes 40) (\<lambda>word_pos.
      Ok \<lparr>es_seed = seed, es_stream = stream, es_word_pos = word_pos\<rparr>))))"

record EntrSectionV2 =
  e2_seed :: "byte list"
  e2_stream :: u64
  e2_word_pos :: u128
  e2_buf_gpa :: u64
  e2_len :: u32
  e2_status :: u32

abbreviation ENTR2_LEN :: nat where "ENTR2_LEN \<equiv> 72"
abbreviation ENTR2_VERSION :: u16 where "ENTR2_VERSION \<equiv> 2"

definition entr2_prng :: "EntrSectionV2 \<Rightarrow> EntrSection" where
  "entr2_prng s = \<lparr>es_seed = e2_seed s, es_stream = e2_stream s, es_word_pos = e2_word_pos s\<rparr>"

definition entr2_from_parts :: "EntrSection \<Rightarrow> byte list \<Rightarrow> (EntrSectionV2, SectionError) res" where
  "entr2_from_parts prng device_regs =
     (if length device_regs \<noteq> 16 then Err (BadLength (length device_regs))
      else res_bind (rd_u64 device_regs 0) (\<lambda>buf_gpa. res_bind (rd_u32 device_regs 8) (\<lambda>len.
      res_bind (rd_u32 device_regs 12) (\<lambda>status.
      Ok \<lparr>e2_seed = es_seed prng, e2_stream = es_stream prng, e2_word_pos = es_word_pos prng,
          e2_buf_gpa = buf_gpa, e2_len = len, e2_status = status\<rparr>))))"

definition entr2_device_regs :: "EntrSectionV2 \<Rightarrow> byte list" where
  "entr2_device_regs s = put_fields
     [(0, to_le (e2_buf_gpa s)), (8, to_le (e2_len s)), (12, to_le (e2_status s))] (zeros 16)"

definition entr2_encode :: "EntrSectionV2 \<Rightarrow> byte list" where
  "entr2_encode s = put_fields
     [(0, e2_seed s), (32, to_le (e2_stream s)), (40, to_le (e2_word_pos s)),
      (56, entr2_device_regs s)] (zeros ENTR2_LEN)"

definition entr2_decode :: "byte list \<Rightarrow> u16 \<Rightarrow> (EntrSectionV2, SectionError) res" where
  "entr2_decode bytes version =
     (if version \<noteq> ENTR2_VERSION then Err (BadVersion version)
      else if length bytes \<noteq> ENTR2_LEN then Err (BadLength (length bytes))
      else res_bind (slice_res bytes 0 32) (\<lambda>seed. res_bind (rd_u64 bytes 32) (\<lambda>stream.
      res_bind (rd_u128 bytes 40) (\<lambda>word_pos. res_bind (rd_u64 bytes 56) (\<lambda>buf_gpa.
      res_bind (rd_u32 bytes 64) (\<lambda>len. res_bind (rd_u32 bytes 68) (\<lambda>status.
      Ok \<lparr>e2_seed = seed, e2_stream = stream, e2_word_pos = word_pos, e2_buf_gpa = buf_gpa,
          e2_len = len, e2_status = status\<rparr>)))))))"

subsection \<open>LAPC\<close>

record LapcSection =
  lp_apic_base_msr :: u64
  lp_id :: u8
  lp_tpr :: u8
  lp_ldr :: u32
  lp_dfr :: u32
  lp_svr :: u32
  lp_isr :: "u32 list"
  lp_tmr :: "u32 list"
  lp_irr :: "u32 list"
  lp_esr :: u32
  lp_icr_low :: u32
  lp_icr_high :: u32
  lp_lvt_timer :: u32
  lp_lvt_thermal :: u32
  lp_lvt_perf :: u32
  lp_lvt_lint0 :: u32
  lp_lvt_lint1 :: u32
  lp_lvt_error :: u32
  lp_timer_initial :: u32
  lp_timer_divide :: u32

definition lapc_default :: LapcSection where
  "lapc_default = \<lparr>lp_apic_base_msr = 0xfee00000 OR push_bit 8 1 OR push_bit 11 1, lp_id = 0,
     lp_tpr = 0, lp_ldr = 0, lp_dfr = 0xffffffff, lp_svr = 0xff, lp_isr = replicate 8 0,
     lp_tmr = replicate 8 0, lp_irr = replicate 8 0, lp_esr = 0, lp_icr_low = 0, lp_icr_high = 0,
     lp_lvt_timer = push_bit 16 1, lp_lvt_thermal = push_bit 16 1, lp_lvt_perf = push_bit 16 1,
     lp_lvt_lint0 = push_bit 16 1, lp_lvt_lint1 = push_bit 16 1, lp_lvt_error = push_bit 16 1,
     lp_timer_initial = 0, lp_timer_divide = 0\<rparr>"

abbreviation LAPC_LEN :: nat where "LAPC_LEN \<equiv> 168"
abbreviation LAPC_VERSION :: u16 where "LAPC_VERSION \<equiv> 2"
abbreviation LAPC_LEGACY_EMPTY_VERSION :: u16 where "LAPC_LEGACY_EMPTY_VERSION \<equiv> 1"

text \<open>The write cursor of \<open>encode\<close>: the buffer and the offset \<open>at\<close>.\<close>

fun put_bytes :: "byte list \<Rightarrow> byte list \<times> nat \<Rightarrow> byte list \<times> nat" where
  "put_bytes v (out, at) = (overwrite out at v, at + length v)"

definition put_u64 :: "u64 \<Rightarrow> byte list \<times> nat \<Rightarrow> byte list \<times> nat" where
  "put_u64 value = put_bytes (to_le value)"

definition put_u32 :: "u32 \<Rightarrow> byte list \<times> nat \<Rightarrow> byte list \<times> nat" where
  "put_u32 value = put_bytes (to_le value)"

definition put_u32s :: "u32 list \<Rightarrow> byte list \<times> nat \<Rightarrow> byte list \<times> nat" where
  "put_u32s values = fold put_u32 values"

fun skip_bytes :: "nat \<Rightarrow> byte list \<times> nat \<Rightarrow> byte list \<times> nat" where
  "skip_bytes n (out, at) = (out, at + n)"

definition lapc_encode :: "LapcSection \<Rightarrow> byte list" where
  "lapc_encode s = (let
     c = (zeros LAPC_LEN, 0);
     c = put_u64 (lp_apic_base_msr s) c;
     c = put_bytes [lp_id s] c;
     c = put_bytes [lp_tpr s] c;
     c = skip_bytes 6 c;
     c = put_u32 (lp_ldr s) c;
     c = put_u32 (lp_dfr s) c;
     c = put_u32 (lp_svr s) c;
     c = put_u32s (lp_isr s) c;
     c = put_u32s (lp_tmr s) c;
     c = put_u32s (lp_irr s) c;
     c = put_u32 (lp_esr s) c;
     c = put_u32 (lp_icr_low s) c;
     c = put_u32 (lp_icr_high s) c;
     c = put_u32 (lp_lvt_timer s) c;
     c = put_u32 (lp_lvt_thermal s) c;
     c = put_u32 (lp_lvt_perf s) c;
     c = put_u32 (lp_lvt_lint0 s) c;
     c = put_u32 (lp_lvt_lint1 s) c;
     c = put_u32 (lp_lvt_error s) c;
     c = put_u32 (lp_timer_initial s) c;
     c = put_u32 (lp_timer_divide s) c
   in fst c)"

text \<open>The read cursor of \<open>decode\<close>: \<open>take_u32s\<close> fills an array of \<open>n\<close> elements.\<close>

definition take_u64 :: "byte list \<Rightarrow> nat \<Rightarrow> (u64 \<times> nat, 'e) res" where
  "take_u64 bytes at = res_bind (rd_u64 bytes at) (\<lambda>value. Ok (value, at + 8))"

definition take_u32 :: "byte list \<Rightarrow> nat \<Rightarrow> (u32 \<times> nat, 'e) res" where
  "take_u32 bytes at = res_bind (rd_u32 bytes at) (\<lambda>value. Ok (value, at + 4))"

primrec take_u32s :: "nat \<Rightarrow> byte list \<Rightarrow> nat \<Rightarrow> (u32 list \<times> nat, 'e) res" where
  "take_u32s 0 bytes at = Ok ([], at)"
| "take_u32s (Suc n) bytes at = res_bind (take_u32 bytes at) (\<lambda>(v, at).
     res_bind (take_u32s n bytes at) (\<lambda>(vs, at). Ok (v # vs, at)))"

definition lapc_decode :: "byte list \<Rightarrow> u16 \<Rightarrow> (LapcSection, SectionError) res" where
  "lapc_decode bytes version =
     (if version \<noteq> LAPC_VERSION then Err (BadVersion version)
      else if length bytes \<noteq> LAPC_LEN then Err (BadLength (length bytes))
      else res_bind (take_u64 bytes 0) (\<lambda>(base, at).
      res_bind (index_res bytes at) (\<lambda>id0. let at = at + 1 in
      res_bind (index_res bytes at) (\<lambda>tpr. let at = at + 1 in
      res_bind (slice_res bytes at (at + 6)) (\<lambda>reserved.
      if reserved \<noteq> zeros 6 then Err (NonzeroReserved at) else let at = at + 6 in
      res_bind (take_u32 bytes at) (\<lambda>(ldr, at).
      res_bind (take_u32 bytes at) (\<lambda>(dfr, at).
      res_bind (take_u32 bytes at) (\<lambda>(svr, at).
      res_bind (take_u32s 8 bytes at) (\<lambda>(isr, at).
      res_bind (take_u32s 8 bytes at) (\<lambda>(tmr, at).
      res_bind (take_u32s 8 bytes at) (\<lambda>(irr, at).
      res_bind (take_u32 bytes at) (\<lambda>(esr, at).
      res_bind (take_u32 bytes at) (\<lambda>(icr_low, at).
      res_bind (take_u32 bytes at) (\<lambda>(icr_high, at).
      res_bind (take_u32 bytes at) (\<lambda>(lvt_timer, at).
      res_bind (take_u32 bytes at) (\<lambda>(lvt_thermal, at).
      res_bind (take_u32 bytes at) (\<lambda>(lvt_perf, at).
      res_bind (take_u32 bytes at) (\<lambda>(lvt_lint0, at).
      res_bind (take_u32 bytes at) (\<lambda>(lvt_lint1, at).
      res_bind (take_u32 bytes at) (\<lambda>(lvt_error, at).
      res_bind (take_u32 bytes at) (\<lambda>(timer_initial, at).
      res_bind (take_u32 bytes at) (\<lambda>(timer_divide, at).
      Ok \<lparr>lp_apic_base_msr = base, lp_id = id0, lp_tpr = tpr, lp_ldr = ldr, lp_dfr = dfr, lp_svr = svr,
          lp_isr = isr, lp_tmr = tmr, lp_irr = irr, lp_esr = esr, lp_icr_low = icr_low,
          lp_icr_high = icr_high, lp_lvt_timer = lvt_timer, lp_lvt_thermal = lvt_thermal,
          lp_lvt_perf = lvt_perf, lp_lvt_lint0 = lvt_lint0, lp_lvt_lint1 = lvt_lint1,
          lp_lvt_error = lvt_error, lp_timer_initial = timer_initial,
          lp_timer_divide = timer_divide\<rparr>))))))))))))))))))))))"

definition lapc_decode_compat :: "byte list \<Rightarrow> u16 \<Rightarrow> (LapcSection, SectionError) res" where
  "lapc_decode_compat bytes version =
     (if version = LAPC_LEGACY_EMPTY_VERSION \<and> bytes = [] then Ok lapc_default
      else lapc_decode bytes version)"

section \<open>The contract of a fixed codec\<close>

locale fixed_codec =
  fixes encode :: "'s \<Rightarrow> byte list" and decode :: "byte list \<Rightarrow> u16 \<Rightarrow> ('s, SectionError) res"
    and wf :: "'s \<Rightarrow> bool" and len :: nat and version :: u16
  assumes encode_length: "wf s \<Longrightarrow> length (encode s) = len"
    and decode_encode: "wf s \<Longrightarrow> decode (encode s) version = Ok s"
    and encode_decode: "decode b v = Ok s \<Longrightarrow> v = version \<and> wf s \<and> encode s = b"
    and decode_total: "decode b v \<noteq> Panic"
begin

lemma decode_iff: "decode b v = Ok s \<longleftrightarrow> v = version \<and> wf s \<and> b = encode s"
  using encode_decode decode_encode by blast

lemma encode_inject: "wf s \<Longrightarrow> wf t \<Longrightarrow> encode s = encode t \<longleftrightarrow> s = t"
  using decode_encode by (metis res.inject(1))

lemma decode_inject: "decode b v = Ok s \<Longrightarrow> decode c w = Ok s \<Longrightarrow> b = c \<and> v = w"
  by (simp add: decode_iff)

lemma decode_rejects:
  assumes "v \<noteq> version \<or> length b \<noteq> len"
  shows "\<exists>e. decode b v = Err e"
  using assms decode_total [of b v] by (cases "decode b v") (auto dest!: encode_decode simp: encode_length)

text \<open>A section pushed into a container comes back out of the parsed image.\<close>

lemma through_container:
  assumes "cw_holds w ss" and "wf s" and "\<lparr>sec_tag = t, sec_version = version, sec_contents = encode s\<rparr> \<in> set ss"
  shows "\<exists>sec. container_parse (container_finish w) = Ok ss \<and> container_get t ss = Some sec
    \<and> decode (sec_contents sec) (sec_version sec) = Ok s"
proof -
  let ?sec = "\<lparr>sec_tag = t, sec_version = version, sec_contents = encode s\<rparr>"
  have d: "distinct (map sec_tag ss)"
    using assms(1) by (simp add: cw_holds_def secs_ok_def)
  then have "container_get t ss = Some ?sec"
    using container_get_member [OF d assms(3)] by simp
  with assms(1,2) show ?thesis
    using container_finish_parse [OF assms(1)] decode_encode by auto
qed

end

section \<open>The four codecs meet the contract\<close>

definition time_wf :: "TimeSection \<Rightarrow> bool" where
  "time_wf s \<longleftrightarrow> is_b32 (ts_hash_chain s)"

definition entr_wf :: "EntrSection \<Rightarrow> bool" where
  "entr_wf s \<longleftrightarrow> is_b32 (es_seed s)"

definition entr2_wf :: "EntrSectionV2 \<Rightarrow> bool" where
  "entr2_wf s \<longleftrightarrow> is_b32 (e2_seed s)"

definition lapc_wf :: "LapcSection \<Rightarrow> bool" where
  "lapc_wf s \<longleftrightarrow> length (lp_isr s) = 8 \<and> length (lp_tmr s) = 8 \<and> length (lp_irr s) = 8"

lemma time_encode_eq:
  "time_wf s \<Longrightarrow> time_encode s = to_le (ts_cumulative_icount s) @ to_le (ts_vns s) @ to_le (ts_epoch_index s)
     @ ts_hash_chain s"
  by (simp add: time_encode_def time_wf_def is_b32_def overwrite_def)

lemma entr_encode_eq:
  "entr_wf s \<Longrightarrow> entr_encode s = es_seed s @ to_le (es_stream s) @ to_le (es_word_pos s)"
  by (simp add: entr_encode_def entr_wf_def is_b32_def overwrite_def)

lemma entr2_device_regs_eq:
  "entr2_device_regs s = to_le (e2_buf_gpa s) @ to_le (e2_len s) @ to_le (e2_status s)"
  by (simp add: entr2_device_regs_def overwrite_def)

lemma entr2_encode_eq:
  "entr2_wf s \<Longrightarrow> entr2_encode s = e2_seed s @ to_le (e2_stream s) @ to_le (e2_word_pos s)
     @ to_le (e2_buf_gpa s) @ to_le (e2_len s) @ to_le (e2_status s)"
  by (simp add: entr2_encode_def entr2_wf_def is_b32_def overwrite_def entr2_device_regs_eq)

interpretation time_sec: fixed_codec time_encode time_decode time_wf TIME_LEN TIME_VERSION
proof
  fix s b v
  show "time_wf s \<Longrightarrow> length (time_encode s) = TIME_LEN"
    by (simp add: time_encode_eq) (simp add: time_wf_def is_b32_def)
  show "time_wf s \<Longrightarrow> time_decode (time_encode s) TIME_VERSION = Ok s"
    by (simp add: time_encode_eq time_decode_def bslice_def) (simp add: time_wf_def is_b32_def)
  show "time_decode b v = Ok s \<Longrightarrow> v = TIME_VERSION \<and> time_wf s \<and> time_encode s = b"
    by (auto simp: time_decode_def time_encode_eq time_wf_def is_b32_def bslice_join bslice_all split: if_splits)
  show "time_decode b v \<noteq> Panic"
    by (simp add: time_decode_def)
qed

interpretation entr_sec: fixed_codec entr_encode entr_decode entr_wf ENTR_LEN ENTR_VERSION
proof
  fix s b v
  show "entr_wf s \<Longrightarrow> length (entr_encode s) = ENTR_LEN"
    by (simp add: entr_encode_eq) (simp add: entr_wf_def is_b32_def)
  show "entr_wf s \<Longrightarrow> entr_decode (entr_encode s) ENTR_VERSION = Ok s"
    by (simp add: entr_encode_eq entr_decode_def bslice_def entr_wf_def is_b32_def)
  show "entr_decode b v = Ok s \<Longrightarrow> v = ENTR_VERSION \<and> entr_wf s \<and> entr_encode s = b"
    by (auto simp: entr_decode_def entr_encode_eq entr_wf_def is_b32_def bslice_join bslice_all split: if_splits)
  show "entr_decode b v \<noteq> Panic"
    by (simp add: entr_decode_def)
qed

interpretation entr2_sec: fixed_codec entr2_encode entr2_decode entr2_wf ENTR2_LEN ENTR2_VERSION
proof
  fix s b v
  show "entr2_wf s \<Longrightarrow> length (entr2_encode s) = ENTR2_LEN"
    by (simp add: entr2_encode_eq) (simp add: entr2_wf_def is_b32_def)
  show "entr2_wf s \<Longrightarrow> entr2_decode (entr2_encode s) ENTR2_VERSION = Ok s"
    by (simp add: entr2_encode_eq entr2_decode_def bslice_def entr2_wf_def is_b32_def)
  show "entr2_decode b v = Ok s \<Longrightarrow> v = ENTR2_VERSION \<and> entr2_wf s \<and> entr2_encode s = b"
    by (auto simp: entr2_decode_def entr2_encode_eq entr2_wf_def is_b32_def bslice_join bslice_all split: if_splits)
  show "entr2_decode b v \<noteq> Panic"
    by (simp add: entr2_decode_def)
qed

subsection \<open>The LAPC cursors\<close>

definition cursor :: "nat \<Rightarrow> byte list \<Rightarrow> byte list \<times> nat" where
  "cursor n d = (d @ zeros (n - length d), length d)"

lemma cursor_start: "(zeros n, 0) = cursor n []"
  by (simp add: cursor_def)

lemma cursor_end: "length d = n \<Longrightarrow> fst (cursor n d) = d"
  by (simp add: cursor_def)

lemma put_bytes_cursor: "length d + length v \<le> n \<Longrightarrow> put_bytes v (cursor n d) = cursor n (d @ v)"
  by (simp add: cursor_def overwrite_def)

lemma skip_bytes_cursor: "length d + k \<le> n \<Longrightarrow> skip_bytes k (cursor n d) = cursor n (d @ zeros k)"
  by (simp add: cursor_def flip: replicate_add)

lemma length_concat_u32s [simp]: "length (concat (map to_le (vs :: u32 list))) = 4 * length vs"
  by (induction vs) simp_all

lemma put_u32s_cursor:
  "length d + 4 * length vs \<le> n \<Longrightarrow> put_u32s vs (cursor n d) = cursor n (d @ concat (map to_le vs))"
  unfolding put_u32s_def
  by (induction vs arbitrary: d) (simp_all add: put_u32_def put_bytes_cursor)

lemmas put_cursor = put_bytes_cursor skip_bytes_cursor put_u32s_cursor put_u64_def put_u32_def

lemma lapc_encode_eq:
  assumes "lapc_wf s"
  shows "lapc_encode s = to_le (lp_apic_base_msr s) @ [lp_id s, lp_tpr s] @ zeros 6 @ to_le (lp_ldr s)
     @ to_le (lp_dfr s) @ to_le (lp_svr s) @ concat (map to_le (lp_isr s)) @ concat (map to_le (lp_tmr s))
     @ concat (map to_le (lp_irr s)) @ to_le (lp_esr s) @ to_le (lp_icr_low s) @ to_le (lp_icr_high s)
     @ to_le (lp_lvt_timer s) @ to_le (lp_lvt_thermal s) @ to_le (lp_lvt_perf s) @ to_le (lp_lvt_lint0 s)
     @ to_le (lp_lvt_lint1 s) @ to_le (lp_lvt_error s) @ to_le (lp_timer_initial s)
     @ to_le (lp_timer_divide s)"
  using assms unfolding lapc_encode_def Let_def cursor_start lapc_wf_def
  by (simp add: put_cursor cursor_end)

primrec words_at :: "nat \<Rightarrow> byte list \<Rightarrow> nat \<Rightarrow> u32 list" where
  "words_at 0 b at = []"
| "words_at (Suc n) b at = from_le (bslice b at (at + 4)) # words_at n b (at + 4)"

lemma take_u32_in: "at + 4 \<le> length b \<Longrightarrow> take_u32 b at = Ok (from_le (bslice b at (at + 4)), at + 4)"
  by (simp add: take_u32_def)

lemma take_u64_in: "at + 8 \<le> length b \<Longrightarrow> take_u64 b at = Ok (from_le (bslice b at (at + 8)), at + 8)"
  by (simp add: take_u64_def)

lemma take_u32s_in: "at + 4 * n \<le> length b \<Longrightarrow> take_u32s n b at = Ok (words_at n b at, at + 4 * n)"
  by (induction n arbitrary: at) (simp_all add: take_u32_in)

lemma length_words_at [simp]: "length (words_at n b at) = n"
  by (induction n arbitrary: at) simp_all

lemma words_at_concat: "drop at b = concat (map to_le vs) @ rest \<Longrightarrow> words_at (length vs) b at = vs"
proof (induction vs arbitrary: at)
  case (Cons v vs)
  have "drop (at + 4) b = concat (map to_le vs) @ rest"
    using arg_cong [OF Cons.prems, of "drop 4"] by (simp add: add.commute)
  with Cons show ?case by (simp add: bslice_def)
qed simp

lemma concat_words_at:
  "at + 4 * n \<le> length b \<Longrightarrow> concat (map to_le (words_at n b at)) = bslice b at (at + 4 * n)"
proof (induction n arbitrary: at)
  case 0
  show ?case by (simp add: bslice_def)
next
  case (Suc n)
  then show ?case by (simp add: bslice_join add.assoc [symmetric])
qed

lemmas take_in = take_u32_in take_u64_in take_u32s_in

lemma lapc_decode_in:
  assumes "length b = 168"
  shows "lapc_decode b LAPC_VERSION = (if bslice b 10 16 \<noteq> zeros 6 then Err (NonzeroReserved 10) else
     Ok \<lparr>lp_apic_base_msr = from_le (bslice b 0 8), lp_id = b ! 8, lp_tpr = b ! 9,
       lp_ldr = from_le (bslice b 16 20), lp_dfr = from_le (bslice b 20 24), lp_svr = from_le (bslice b 24 28),
       lp_isr = words_at 8 b 28, lp_tmr = words_at 8 b 60, lp_irr = words_at 8 b 92,
       lp_esr = from_le (bslice b 124 128), lp_icr_low = from_le (bslice b 128 132),
       lp_icr_high = from_le (bslice b 132 136), lp_lvt_timer = from_le (bslice b 136 140),
       lp_lvt_thermal = from_le (bslice b 140 144), lp_lvt_perf = from_le (bslice b 144 148),
       lp_lvt_lint0 = from_le (bslice b 148 152), lp_lvt_lint1 = from_le (bslice b 152 156),
       lp_lvt_error = from_le (bslice b 156 160), lp_timer_initial = from_le (bslice b 160 164),
       lp_timer_divide = from_le (bslice b 164 168)\<rparr>)"
  using assms by (simp add: lapc_decode_def take_in Let_def)

interpretation lapc_sec: fixed_codec lapc_encode lapc_decode lapc_wf LAPC_LEN LAPC_VERSION
proof
  fix s b v
  show len: "length (lapc_encode s) = LAPC_LEN" if "lapc_wf s" for s
    using that by (simp add: lapc_encode_eq) (simp add: lapc_wf_def)
  show "lapc_decode (lapc_encode s) LAPC_VERSION = Ok s" if wf: "lapc_wf s"
  proof -
    have l: "length (lp_isr s) = 8" "length (lp_tmr s) = 8" "length (lp_irr s) = 8"
      using wf by (simp_all add: lapc_wf_def)
    have "words_at (length (lp_isr s)) (lapc_encode s) 28 = lp_isr s"
      by (rule words_at_concat) (simp add: lapc_encode_eq [OF wf])
    moreover have "words_at (length (lp_tmr s)) (lapc_encode s) 60 = lp_tmr s"
      by (rule words_at_concat) (simp add: lapc_encode_eq [OF wf] l)
    moreover have "words_at (length (lp_irr s)) (lapc_encode s) 92 = lp_irr s"
      by (rule words_at_concat) (simp add: lapc_encode_eq [OF wf] l)
    ultimately show ?thesis
      unfolding lapc_decode_in [OF len [OF wf]] l
      by (simp add: lapc_encode_eq [OF wf] l bslice_def nth_append)
  qed
  show "v = LAPC_VERSION \<and> lapc_wf s \<and> lapc_encode s = b" if d: "lapc_decode b v = Ok s"
  proof -
    have v: "v = LAPC_VERSION" and lb: "length b = 168"
      using d by (auto simp: lapc_decode_def split: if_splits)
    have z: "bslice b 10 16 = zeros 6"
      using d by (simp add: v lapc_decode_in [OF lb] split: if_splits)
    from d have wf: "lapc_wf s"
      by (auto simp: v lapc_decode_in [OF lb] lapc_wf_def split: if_splits)
    have idtpr: "[b ! 8, b ! 9] = bslice b 8 10"
      using lb by (auto simp: bslice_def intro!: nth_equalityI simp: nth_Cons split: nat.splits)
    from d have s: "lp_apic_base_msr s = from_le (bslice b 0 8)" "lp_id s = b ! 8" "lp_tpr s = b ! 9"
        "lp_isr s = words_at 8 b 28" "lp_tmr s = words_at 8 b 60" "lp_irr s = words_at 8 b 92"
      by (auto simp: v lapc_decode_in [OF lb] split: if_splits)
    have w: "concat (map to_le (words_at 8 b 28)) = bslice b 28 60" "concat (map to_le (words_at 8 b 60)) = bslice b 60 92"
        "concat (map to_le (words_at 8 b 92)) = bslice b 92 124"
      using concat_words_at [of _ 8 b] lb by simp_all
    have "lapc_encode s = bslice b 0 168"
      using d lb unfolding lapc_encode_eq [OF wf] s w
      by (auto simp: v lapc_decode_in [OF lb] idtpr z [symmetric] bslice_join bslice_join_append split: if_splits)
    with v wf show ?thesis by (simp add: bslice_all lb)
  qed
  show "lapc_decode b v \<noteq> Panic"
    by (cases "length b = 168"; cases "v = LAPC_VERSION") (simp_all add: lapc_decode_in, simp_all add: lapc_decode_def)
qed

section \<open>Properties\<close>

text \<open>
  C11. Each fixed-section codec is a bijection: a byte string decodes to a section exactly
  when the version is the codec's, the section is well formed and the bytes are its
  encoding. Every other input is an error, never a panic.
\<close>

theorem section_codecs_bijective:
  "(time_decode b v = Ok t \<longleftrightarrow> v = TIME_VERSION \<and> time_wf t \<and> b = time_encode t)
   \<and> (entr_decode b v = Ok e \<longleftrightarrow> v = ENTR_VERSION \<and> entr_wf e \<and> b = entr_encode e)
   \<and> (entr2_decode b v = Ok e2 \<longleftrightarrow> v = ENTR2_VERSION \<and> entr2_wf e2 \<and> b = entr2_encode e2)
   \<and> (lapc_decode b v = Ok l \<longleftrightarrow> v = LAPC_VERSION \<and> lapc_wf l \<and> b = lapc_encode l)
   \<and> time_decode b v \<noteq> Panic \<and> entr_decode b v \<noteq> Panic \<and> entr2_decode b v \<noteq> Panic
   \<and> lapc_decode b v \<noteq> Panic"
  by (intro conjI time_sec.decode_iff entr_sec.decode_iff entr2_sec.decode_iff lapc_sec.decode_iff
      time_sec.decode_total entr_sec.decode_total entr2_sec.decode_total lapc_sec.decode_total)

text \<open>
  C12. The lAPIC state survives a snapshot: a \<open>LAPC\<close> section pushed with any other sections
  is found by its tag in the parsed image and decodes to the same state, through the
  compatible decoder as well; and the legacy empty section decodes to the power-on state.
\<close>

theorem lapc_through_container:
  assumes "lapc_wf l" and "push_sections ss container_writer_new = (Ok (), w)"
    and "\<lparr>sec_tag = tag_LAPC, sec_version = LAPC_VERSION, sec_contents = lapc_encode l\<rparr> \<in> set ss"
  shows "\<exists>sec. container_parse (container_finish w) = Ok ss \<and> container_get tag_LAPC ss = Some sec
    \<and> lapc_decode_compat (sec_contents sec) (sec_version sec) = Ok l \<and> lapc_decode_compat [] 1 = Ok lapc_default"
proof -
  have "cw_holds w ss"
    using push_sections_result [OF cw_holds_new, of ss] assms(2) by simp
  from lapc_sec.through_container [OF this assms(1,3)] show ?thesis
    using lapc_sec.decode_iff by (fastforce simp: lapc_decode_compat_def)
qed

theorem lapc_through_container_witness:
  "\<exists>w sec. push_sections [\<lparr>sec_tag = tag_LAPC, sec_version = LAPC_VERSION, sec_contents = lapc_encode lapc_default\<rparr>]
       container_writer_new = (Ok (), w)
     \<and> container_parse (container_finish w) = Ok [sec] \<and> lapc_decode_compat (sec_contents sec) (sec_version sec) = Ok lapc_default"
proof -
  let ?s = "\<lparr>sec_tag = tag_LAPC, sec_version = LAPC_VERSION, sec_contents = lapc_encode lapc_default\<rparr>"
  have wf: "lapc_wf lapc_default"
    by (simp add: lapc_wf_def lapc_default_def)
  have "length (lapc_encode lapc_default) = 168"
    by (rule lapc_sec.encode_length [OF wf])
  then obtain w where w: "push_sections [?s] container_writer_new = (Ok (), w)"
    by (simp add: push_section_def KNOWN_TAGS_def container_writer_new_def word_of_nat_opt_def)
  from lapc_through_container [OF wf w] w show ?thesis
    by (auto simp: container_get_def)
qed

text \<open>
  C13. The \<open>ENTR\<close> section carries both halves: combining the PRNG state with the device's
  register blob and splitting the section again returns the two halves, and a blob of any
  length other than 16 is rejected.
\<close>

theorem entr2_parts_roundtrip:
  "entr2_from_parts (entr2_prng s) (entr2_device_regs s) = Ok s
   \<and> (entr2_from_parts prng regs = Ok s \<longleftrightarrow> length regs = 16 \<and> entr2_prng s = prng \<and> entr2_device_regs s = regs)
   \<and> (length regs \<noteq> 16 \<longleftrightarrow> entr2_from_parts prng regs = Err (BadLength (length regs)))"
proof -
  have 1: "entr2_from_parts (entr2_prng s) (entr2_device_regs s) = Ok s" for s :: EntrSectionV2
    by (simp add: entr2_from_parts_def entr2_device_regs_eq entr2_prng_def bslice_def)
  have 2: "length regs = 16 \<and> entr2_prng s = prng \<and> entr2_device_regs s = regs"
    if "entr2_from_parts prng regs = Ok s"
    using that by (auto simp: entr2_from_parts_def entr2_device_regs_eq entr2_prng_def bslice_join bslice_all
        split: if_splits)
  have 3: "length regs \<noteq> 16 \<longleftrightarrow> entr2_from_parts prng regs = Err (BadLength (length regs))"
    by (simp add: entr2_from_parts_def)
  from 1 2 3 show ?thesis by auto
qed

end
