(* ===== verification/Vt.thy ===== *)
theory Vt
  imports Dh_Prelude
begin

text \<open>
  Virtual time, \<open>src/crates/dh-vmm/src/vt.rs\<close>: the clock rational and the two conversions,
  computed at 128 bits as in the source. The lemmas give their value as exact natural
  arithmetic, and that the timer conversion is the lower adjoint of the clock: it returns
  the least instruction count at which the virtual time reaches the target.
\<close>

record ClockRatio =
  cr_num :: u32
  cr_den :: u32

definition clock_default :: ClockRatio where
  "clock_default = \<lparr>cr_num = 1, cr_den = 1\<rparr>"

definition clock_new :: "u32 \<Rightarrow> u32 \<Rightarrow> ClockRatio option" where
  "clock_new num den = (if num \<noteq> 0 \<and> den \<noteq> 0 then Some \<lparr>cr_num = num, cr_den = den\<rparr> else None)"

text \<open>\<open>u64::try_from(u128).ok()\<close> and \<open>u128::div_ceil\<close>.\<close>

definition u128_to_u64 :: "u128 \<Rightarrow> u64 option" where
  "u128_to_u64 v = word_of_nat_opt (unat v)"

definition div_ceil :: "u128 \<Rightarrow> u128 \<Rightarrow> u128" where
  "div_ceil a b = (if a mod b > 0 then a div b + 1 else a div b)"

definition vns_from_icount :: "ClockRatio \<Rightarrow> u64 \<Rightarrow> u64 option" where
  "vns_from_icount r icount = u128_to_u64 (ucast icount * ucast (cr_num r) div ucast (cr_den r))"

definition icount_for_vns_target :: "ClockRatio \<Rightarrow> u64 \<Rightarrow> u64 option" where
  "icount_for_vns_target r target_vns =
     u128_to_u64 (div_ceil (ucast target_vns * ucast (cr_den r)) (ucast (cr_num r)))"

section \<open>Exact values\<close>

definition clock_ok :: "ClockRatio \<Rightarrow> bool" where
  "clock_ok r \<longleftrightarrow> cr_num r \<noteq> 0 \<and> cr_den r \<noteq> 0"

lemma clock_new_ok: "clock_new n d = Some r \<Longrightarrow> clock_ok r"
  by (auto simp: clock_new_def clock_ok_def split: if_splits)

lemma clock_ok_pos: "clock_ok r \<Longrightarrow> 0 < unat (cr_num r) \<and> 0 < unat (cr_den r)"
  by (simp add: clock_ok_def unat_gt_0)

text \<open>The virtual time of an instruction count, unbounded.\<close>

definition vns_exact :: "ClockRatio \<Rightarrow> nat \<Rightarrow> nat" where
  "vns_exact r n = n * unat (cr_num r) div unat (cr_den r)"

lemma unat_ucast_u128 [simp]:
  "unat (ucast (x :: u64) :: u128) = unat x" "unat (ucast (y :: u32) :: u128) = unat y"
  using unat_lt_pow [of x] unat_lt_pow [of y] by (simp_all add: unsigned_ucast_eq take_bit_nat_eq_self)

lemma unat_product:
  "unat ((ucast (x :: u64) :: u128) * ucast (y :: u32)) = unat x * unat y"
proof -
  have "unat x * unat y < 2 ^ 64 * 2 ^ 32"
    using unat_lt_pow [of x] unat_lt_pow [of y] by (intro mult_strict_mono) auto
  also have "\<dots> \<le> (2 :: nat) ^ 128" by simp
  finally have "unat x * unat y < 2 ^ 128" .
  then show ?thesis
    by (simp add: unat_word_ariths)
qed

lemma vns_from_icount_eq: "vns_from_icount r i = word_of_nat_opt (vns_exact r (unat i))"
  by (simp add: vns_from_icount_def u128_to_u64_def vns_exact_def unat_div unat_product)

text \<open>The timer conversion, unbounded.\<close>

definition icount_exact :: "ClockRatio \<Rightarrow> nat \<Rightarrow> nat" where
  "icount_exact r t = (t * unat (cr_den r) + unat (cr_num r) - 1) div unat (cr_num r)"

lemma nat_div_ceil:
  assumes "0 < (b :: nat)"
  shows "(if a mod b > 0 then a div b + 1 else a div b) = (a + b - 1) div b"
proof (cases "a mod b = 0")
  case True
  then obtain k where "a = k * b" by (metis mod_0_imp_dvd dvdE mult.commute)
  moreover have "(k * b + b - 1) div b = k"
    by (rule div_nat_eqI) (use assms in \<open>auto simp: algebra_simps\<close>)
  ultimately show ?thesis using assms by simp
next
  case False
  have a: "a = b * (a div b) + a mod b" and r: "0 < a mod b" "a mod b < b"
    using False assms by simp_all
  have "(a + b - 1) div b = Suc (a div b)"
  proof (rule div_nat_eqI)
    show "b * Suc (a div b) \<le> a + b - 1"
      unfolding mult_Suc_right using a r by linarith
    show "a + b - 1 < b * Suc (Suc (a div b))"
      unfolding mult_Suc_right using a r by linarith
  qed
  with False show ?thesis by simp
qed

lemma unat_div_ceil:
  assumes "b \<noteq> 0" and "unat a < 2 ^ 127"
  shows "unat (div_ceil a b) = (unat a + unat b - 1) div unat b"
proof -
  have b: "0 < unat b" using assms(1) by (simp add: unat_gt_0)
  have "unat a div unat b < 2 ^ 127"
    using assms(2) div_le_dividend le_less_trans by blast
  then have s: "unat (a div b + 1) = unat a div unat b + 1"
    by (simp add: unat_word_ariths unat_div)
  have "a mod b > 0 \<longleftrightarrow> unat a mod unat b > 0"
    by (simp add: word_less_nat_alt unat_mod)
  with s nat_div_ceil [OF b, of "unat a"] show ?thesis
    by (auto simp: div_ceil_def unat_div split: if_splits)
qed

lemma icount_for_vns_target_eq:
  assumes "clock_ok r"
  shows "icount_for_vns_target r t = word_of_nat_opt (icount_exact r (unat t))"
proof -
  have "unat t * unat (cr_den r) < 2 ^ 64 * 2 ^ 32"
    using unat_lt_pow [of t] unat_lt_pow [of "cr_den r"] by (intro mult_strict_mono) auto
  then have "unat ((ucast t :: u128) * ucast (cr_den r)) < 2 ^ 127"
    by (simp add: unat_product)
  moreover have "(ucast (cr_num r) :: u128) \<noteq> 0"
    using clock_ok_pos [OF assms] by (simp add: word_unat_eq_iff)
  ultimately show ?thesis
    by (simp add: icount_for_vns_target_def u128_to_u64_def icount_exact_def unat_div_ceil unat_product)
qed

lemma icount_exact_adjoint:
  assumes "clock_ok r"
  shows "icount_exact r t \<le> j \<longleftrightarrow> t \<le> vns_exact r j"
proof -
  let ?n = "unat (cr_num r)" and ?d = "unat (cr_den r)"
  have p: "0 < ?n" "0 < ?d" using clock_ok_pos [OF assms] by auto
  have "icount_exact r t \<le> j \<longleftrightarrow> icount_exact r t < Suc j" by auto
  also have "\<dots> \<longleftrightarrow> t * ?d + ?n - 1 < Suc j * ?n"
    unfolding icount_exact_def by (rule div_less_iff_less_mult [OF p(1)])
  also have "\<dots> \<longleftrightarrow> t * ?d \<le> j * ?n"
    using p by auto
  also have "\<dots> \<longleftrightarrow> t \<le> vns_exact r j"
    unfolding vns_exact_def by (simp add: less_eq_div_iff_mult_less_eq [OF p(2)])
  finally show ?thesis .
qed

lemma vns_exact_mono: "m \<le> n \<Longrightarrow> vns_exact r m \<le> vns_exact r n"
  unfolding vns_exact_def by (intro div_le_mono mult_le_mono1)

section \<open>Properties\<close>

text \<open>
  C17. Virtual time is exact and timers are tight. \<open>vns_from_icount\<close> returns the exact
  quotient, or nothing exactly when it does not fit 64 bits. \<open>icount_for_vns_target\<close>
  returns the least instruction count whose virtual time reaches the target, and nothing
  exactly when no 64-bit count reaches it.
\<close>

theorem clock_adjoint:
  assumes "clock_new num den = Some r"
  shows "(vns_from_icount r i = Some v \<longleftrightarrow> unat v = vns_exact r (unat i))
    \<and> (case icount_for_vns_target r t of
         Some k \<Rightarrow> (\<forall>j. k \<le> j \<longleftrightarrow> unat t \<le> vns_exact r (unat j))
       | None \<Rightarrow> (\<forall>j :: u64. vns_exact r (unat j) < unat t))"
proof -
  have ok: "clock_ok r" using assms by (rule clock_new_ok)
  have "\<forall>j. k \<le> j \<longleftrightarrow> unat t \<le> vns_exact r (unat j)"
    if "icount_for_vns_target r t = Some k" for k
    using that icount_exact_adjoint [OF ok, of "unat t"]
    by (simp add: icount_for_vns_target_eq [OF ok] word_of_nat_opt_Some_iff word_le_nat_alt)
  moreover have "vns_exact r (unat j) < unat t"
    if "icount_for_vns_target r t = None" for j :: u64
  proof -
    have "unat j < icount_exact r (unat t)"
      using that unat_lt_pow [of j]
      by (simp add: icount_for_vns_target_eq [OF ok] word_of_nat_opt_def split: if_splits)
    then show ?thesis
      using icount_exact_adjoint [OF ok, of "unat t" "unat j"] by simp
  qed
  moreover have "vns_from_icount r i = Some v \<longleftrightarrow> unat v = vns_exact r (unat i)"
    by (auto simp: vns_from_icount_eq word_of_nat_opt_Some_iff)
  ultimately show ?thesis
    by (simp split: option.split)
qed

theorem clock_adjoint_witness:
  "vns_exact \<lparr>cr_num = 3, cr_den = 2\<rparr> 7 = 10
   \<and> (case icount_for_vns_target \<lparr>cr_num = 3, cr_den = 2\<rparr> 10 of
        Some k \<Rightarrow> (\<forall>j. k \<le> j \<longleftrightarrow> 10 \<le> vns_exact \<lparr>cr_num = 3, cr_den = 2\<rparr> (unat j)) | None \<Rightarrow> False)"
proof -
  have n: "clock_new 3 2 = Some \<lparr>cr_num = 3, cr_den = 2\<rparr>"
    by (simp add: clock_new_def)
  have "icount_for_vns_target \<lparr>cr_num = 3, cr_den = 2\<rparr> 10 = Some 7"
    by (simp add: icount_for_vns_target_eq clock_ok_def icount_exact_def word_of_nat_opt_def)
  with clock_adjoint [OF n, of _ _ 10] show ?thesis
    by (simp add: vns_exact_def)
qed

end
