(* ===== verification/Agenda.thy ===== *)
theory Agenda
  imports Vt "HOL-Library.Product_Lexorder" "HOL-Library.Monad_Syntax"
begin

text \<open>
  Agenda compilation, \<open>src/crates/dh-vmm/src/agenda.rs\<close>: the final stop of a run, the
  streaming iterator that merges scheduled inputs, injections, the epoch grid and the goal
  poll grid, and \<open>compile\<close>.

  The reference is \<open>agenda_spec\<close>: the sorted list of the stop icounts of the window, each
  with the indices and flags it carries. The lemmas show that the iterator terminates and
  yields exactly that list.
\<close>

section \<open>Inputs and points\<close>

datatype FinalStop = IcountBudget u64 | VnsBudget u64 | HardCapStop u64

datatype StopKind = BudgetStop | HardCap

record AgendaInputs =
  ai_start_icount :: u64
  ai_scheduled_inputs :: "u64 list"
  ai_injections :: "u64 list"
  ai_epoch_len :: "u64 option"
  ai_goal_poll_period :: "u64 option"
  ai_final_stop :: FinalStop
  ai_clock :: ClockRatio

record StopPoint =
  sp_icount :: u64
  sp_inputs :: "nat list"
  sp_injections :: "nat list"
  sp_epoch_hash :: bool
  sp_goal_poll :: bool
  sp_final_stop :: "StopKind option"

datatype AgendaError = BudgetOverflow

record AgendaIter =
  it_final_icount :: u64
  it_stop_kind :: StopKind
  it_inputs :: "(u64 \<times> nat) list"
  it_injections :: "(u64 \<times> nat) list"
  it_epoch_next :: "u64 option"
  it_epoch_len :: u64
  it_goal_next :: "u64 option"
  it_goal_period :: u64
  it_done :: bool

section \<open>Construction\<close>

definition opt_filter :: "('a \<Rightarrow> bool) \<Rightarrow> 'a option \<Rightarrow> 'a option" where
  "opt_filter P x = (case x of None \<Rightarrow> None | Some a \<Rightarrow> if P a then Some a else None)"

text \<open>The \<open>match\<close> on \<open>final_stop\<close>.\<close>

definition final_point :: "AgendaInputs \<Rightarrow> (u64 \<times> StopKind, AgendaError) res" where
  "final_point inputs = (let start = ai_start_icount inputs in
     case ai_final_stop inputs of
       IcountBudget b \<Rightarrow> res_bind (ok_or (checked_add start b) BudgetOverflow) (\<lambda>f. Ok (f, BudgetStop))
     | HardCapStop b \<Rightarrow> res_bind (ok_or (checked_add start b) BudgetOverflow) (\<lambda>f. Ok (f, HardCap))
     | VnsBudget b \<Rightarrow>
         res_bind (ok_or (vns_from_icount (ai_clock inputs) start) BudgetOverflow) (\<lambda>start_vns.
         res_bind (ok_or (checked_add start_vns b) BudgetOverflow) (\<lambda>target_vns.
         res_bind (ok_or (icount_for_vns_target (ai_clock inputs) target_vns) BudgetOverflow) (\<lambda>target.
         Ok (max target start, BudgetStop)))))"

text \<open>Enumerate, keep the window, swap, sort: shared by inputs and injections.\<close>

definition windowed :: "u64 \<Rightarrow> u64 \<Rightarrow> u64 list \<Rightarrow> (u64 \<times> nat) list" where
  "windowed start final_icount xs =
     sort (filter (\<lambda>(at, _). start < at \<and> at \<le> final_icount) (zip xs [0..<length xs]))"

definition agenda_new :: "AgendaInputs \<Rightarrow> (AgendaIter, AgendaError) res" where
  "agenda_new inputs = (let start = ai_start_icount inputs in
     res_bind (final_point inputs) (\<lambda>(final_icount, stop_kind).
     res_bind (case ai_epoch_len inputs of
         Some len \<Rightarrow> res_bind (unwrap (checked_add (start div len) 1)) (\<lambda>k.
           Ok (len, opt_filter (\<lambda>at. at \<le> final_icount) (checked_mul k len)))
       | None \<Rightarrow> Ok (0, None)) (\<lambda>(epoch_len, epoch_next).
     res_bind (case ai_goal_poll_period inputs of
         Some period \<Rightarrow> Ok (period, opt_filter (\<lambda>at. at \<le> final_icount) (checked_add start period))
       | None \<Rightarrow> Ok (0, None)) (\<lambda>(goal_period, goal_next).
     Ok \<lparr>it_final_icount = final_icount, it_stop_kind = stop_kind,
         it_inputs = windowed start final_icount (ai_scheduled_inputs inputs),
         it_injections = windowed start final_icount (ai_injections inputs),
         it_epoch_next = epoch_next, it_epoch_len = epoch_len,
         it_goal_next = goal_next, it_goal_period = goal_period, it_done = False\<rparr>))))"

section \<open>Iteration\<close>

definition min_peek :: "(u64 \<times> nat) list \<Rightarrow> u64 \<Rightarrow> u64" where
  "min_peek xs at = (case xs of [] \<Rightarrow> at | (a, _) # _ \<Rightarrow> min at a)"

definition min_opt :: "u64 option \<Rightarrow> u64 \<Rightarrow> u64" where
  "min_opt x at = (case x of None \<Rightarrow> at | Some a \<Rightarrow> min at a)"

definition agenda_next :: "AgendaIter \<Rightarrow> StopPoint option \<times> AgendaIter" where
  "agenda_next it =
     (if it_done it then (None, it)
      else let
        at = it_final_icount it;
        at = min_peek (it_inputs it) at;
        at = min_peek (it_injections it) at;
        at = min_opt (it_epoch_next it) at;
        at = min_opt (it_goal_next it) at;
        here = (\<lambda>(a, _ :: nat). a = at);
        epoch = it_epoch_next it = Some at;
        goal = it_goal_next it = Some at;
        final = at = it_final_icount it
      in (Some \<lparr>sp_icount = at,
            sp_inputs = map snd (takeWhile here (it_inputs it)),
            sp_injections = map snd (takeWhile here (it_injections it)),
            sp_epoch_hash = epoch, sp_goal_poll = goal,
            sp_final_stop = (if final then Some (it_stop_kind it) else None)\<rparr>,
          it\<lparr>it_inputs := dropWhile here (it_inputs it),
             it_injections := dropWhile here (it_injections it),
             it_epoch_next := (if epoch then opt_filter (\<lambda>n. n \<le> it_final_icount it) (checked_add at (it_epoch_len it))
                               else it_epoch_next it),
             it_goal_next := (if goal then opt_filter (\<lambda>n. n \<le> it_final_icount it) (checked_add at (it_goal_period it))
                              else it_goal_next it),
             it_done := final\<rparr>))"

text \<open>\<open>collect\<close>: \<open>None\<close> is an iterator that never ends.\<close>

partial_function (option) agenda_collect :: "AgendaIter \<Rightarrow> StopPoint list option" where
  "agenda_collect it = (case agenda_next it of
     (None, _) \<Rightarrow> Some []
   | (Some p, it') \<Rightarrow> Option.bind (agenda_collect it') (\<lambda>ps. Some (p # ps)))"

definition agenda_compile :: "AgendaInputs \<Rightarrow> (StopPoint list option, AgendaError) res" where
  "agenda_compile inputs = res_bind (agenda_new inputs) (\<lambda>it. Ok (agenda_collect it))"

section \<open>The reference\<close>

definition indices_at :: "u64 list \<Rightarrow> u64 \<Rightarrow> nat list" where
  "indices_at xs a = filter (\<lambda>i. xs ! i = a) [0..<length xs]"

text \<open>Grid membership: multiples of \<open>len\<close> from \<open>base\<close>.\<close>

definition on_grid :: "nat \<Rightarrow> u64 option \<Rightarrow> u64 \<Rightarrow> bool" where
  "on_grid base len a = (case len of None \<Rightarrow> False | Some n \<Rightarrow> unat n dvd unat a - base)"

definition is_stop :: "AgendaInputs \<Rightarrow> u64 \<Rightarrow> u64 \<Rightarrow> bool" where
  "is_stop ai f a \<longleftrightarrow> a = f \<or> ai_start_icount ai < a \<and> a \<le> f
     \<and> (a \<in> set (ai_scheduled_inputs ai) \<or> a \<in> set (ai_injections ai)
        \<or> on_grid 0 (ai_epoch_len ai) a \<or> on_grid (unat (ai_start_icount ai)) (ai_goal_poll_period ai) a)"

definition point_at :: "AgendaInputs \<Rightarrow> u64 \<Rightarrow> StopKind \<Rightarrow> u64 \<Rightarrow> StopPoint" where
  "point_at ai f kind a = (let after = ai_start_icount ai < a in
     \<lparr>sp_icount = a,
      sp_inputs = (if after then indices_at (ai_scheduled_inputs ai) a else []),
      sp_injections = (if after then indices_at (ai_injections ai) a else []),
      sp_epoch_hash = (after \<and> on_grid 0 (ai_epoch_len ai) a),
      sp_goal_poll = (after \<and> on_grid (unat (ai_start_icount ai)) (ai_goal_poll_period ai) a),
      sp_final_stop = (if a = f then Some kind else None)\<rparr>)"

definition agenda_spec :: "AgendaInputs \<Rightarrow> u64 \<Rightarrow> StopKind \<Rightarrow> StopPoint list" where
  "agenda_spec ai f kind = map (point_at ai f kind) (sorted_list_of_set {a. is_stop ai f a})"

section \<open>Windows\<close>

lemma takeWhile_least:
  assumes "sorted L" and "\<forall>x \<in> set L. at \<le> fst x"
  shows "takeWhile (\<lambda>(a, _). a = at) L = filter (\<lambda>(a, _). a = at) L"
    and "dropWhile (\<lambda>(a, _). a = at) L = filter (\<lambda>(a, _). at < a) L"
  using assms
proof (induction L)
  case (Cons x L)
  have gt: "\<forall>y \<in> set L. at < fst y" if "fst x \<noteq> at" "sorted (x # L)" "\<forall>z \<in> set (x # L). at \<le> fst z"
    using that by (fastforce simp: less_eq_prod_def)
  { case 1
    then show ?case
      using Cons gt by (cases "fst x = at") (auto simp: empty_filter_conv case_prod_beta)
  next
    case 2
    then show ?case
      using Cons gt by (cases "fst x = at") (auto simp: filter_id_conv case_prod_beta)
  }
qed auto

lemma zip_upt: "zip xs [0..<length xs] = map (\<lambda>i. (xs ! i, i)) [0..<length xs]"
  by (rule nth_equalityI) auto

lemma set_windowed: "set (windowed c f xs) = {(a, i). i < length xs \<and> xs ! i = a \<and> c < a \<and> a \<le> f}"
  by (auto simp: windowed_def zip_upt)

lemma windowed_mem: "(a, i) \<in> set (windowed c f xs) \<Longrightarrow> a \<in> set xs \<and> c < a \<and> a \<le> f"
  by (auto simp: set_windowed)

lemma sorted_windowed: "sorted (windowed c f xs)"
  by (simp add: windowed_def)

lemma windowed_here:
  assumes "c < at" and "at \<le> f"
  shows "filter (\<lambda>(a, _). a = at) (windowed c f xs) = map (\<lambda>i. (at, i)) (indices_at xs at)"
proof -
  have "filter (\<lambda>(a, _). a = at) (windowed c f xs)
      = sort (filter (\<lambda>(a, _). a = at) (zip xs [0..<length xs]))"
    unfolding windowed_def filter_sort filter_filter
    using assms by (intro arg_cong [where f = sort] filter_cong) auto
  also have "filter (\<lambda>(a, _). a = at) (zip xs [0..<length xs]) = map (\<lambda>i. (at, i)) (indices_at xs at)"
    by (auto simp: zip_upt filter_map indices_at_def comp_def intro!: map_cong)
  also have "sort (map (\<lambda>i. (at, i)) (indices_at xs at)) = map (\<lambda>i. (at, i)) (indices_at xs at)"
  proof (rule sorted_sort_id)
    have "sorted (indices_at xs at)"
      by (simp add: indices_at_def sorted_filter [of id, simplified])
    then show "sorted (map (\<lambda>i. (at, i)) (indices_at xs at))"
      by (simp add: sorted_map)
  qed
  finally show ?thesis .
qed

lemma windowed_above:
  assumes "c \<le> at"
  shows "filter (\<lambda>(a, _). at < a) (windowed c f xs) = windowed at f xs"
  unfolding windowed_def filter_sort filter_filter
  using assms by (intro arg_cong [where f = sort] filter_cong) auto

section \<open>Grids\<close>

definition next_on_grid :: "nat \<Rightarrow> u64 option \<Rightarrow> u64 \<Rightarrow> u64 \<Rightarrow> u64 option \<Rightarrow> bool" where
  "next_on_grid base len c f g = (case g of
     None \<Rightarrow> (\<forall>a. c < a \<and> a \<le> f \<longrightarrow> \<not> on_grid base len a)
   | Some n \<Rightarrow> c < n \<and> n \<le> f \<and> on_grid base len n \<and> (\<forall>a. c < a \<and> a < n \<longrightarrow> \<not> on_grid base len a))"

lemma next_on_grid_of_nat:
  assumes n: "unat c < n" and grid: "\<And>a. n < 2 ^ 64 \<Longrightarrow> unat a = n \<Longrightarrow> on_grid base len a"
    and least: "\<And>a. c < a \<Longrightarrow> on_grid base len a \<Longrightarrow> n \<le> unat a"
  shows "next_on_grid base len c f (opt_filter (\<lambda>a. a \<le> f) (word_of_nat_opt n))"
proof (cases "word_of_nat_opt n :: u64 option")
  case None
  then have "2 ^ 64 \<le> n"
    by (simp add: word_of_nat_opt_def split: if_splits)
  then have "\<not> on_grid base len a" if "c < a" for a
    using least [OF that] unat_lt_pow [of a] by auto
  with None show ?thesis by (simp add: next_on_grid_def opt_filter_def)
next
  case (Some w)
  then have w: "unat w = n" by (simp add: word_of_nat_opt_Some_iff)
  have "c < w" using n w by (simp add: word_less_nat_alt)
  moreover have "on_grid base len w"
    using grid [OF _ w] unat_lt_pow [of w] w by auto
  moreover have "w \<le> a" if "c < a" "on_grid base len a" for a
    using least [OF that] w by (simp add: word_le_nat_alt)
  ultimately show ?thesis
    using Some by (fastforce simp: next_on_grid_def opt_filter_def)
qed

lemma grid_advance:
  assumes "l \<noteq> 0" and "on_grid base (Some l) at" and "base \<le> unat at"
  shows "next_on_grid base (Some l) at f (opt_filter (\<lambda>a. a \<le> f) (checked_add at l))"
  unfolding checked_add_nat
proof (rule next_on_grid_of_nat)
  show "unat at < unat at + unat l"
    using assms(1) by (simp add: unat_gt_0)
  show "on_grid base (Some l) a" if "unat a = unat at + unat l" for a :: u64
  proof -
    have "unat a - base = (unat at - base) + unat l"
      using that assms(3) by simp
    then show ?thesis
      using assms(2) by (simp add: on_grid_def)
  qed
  show "unat at + unat l \<le> unat a" if "at < a" "on_grid base (Some l) a" for a
  proof -
    have lt: "unat at < unat a" using that(1) by (simp add: word_less_nat_alt)
    have "unat l dvd (unat a - base) - (unat at - base)"
      by (rule dvd_diff_nat) (use that(2) assms(2) in \<open>simp_all add: on_grid_def\<close>)
    moreover have "(unat a - base) - (unat at - base) = unat a - unat at"
      using assms(3) lt by simp
    ultimately have "unat l \<le> unat a - unat at"
      using lt by (intro dvd_imp_le) auto
    then show ?thesis using lt by simp
  qed
qed

lemma grid_first:
  assumes "l \<noteq> 0" and "checked_add (c div l) 1 = Some k"
  shows "next_on_grid 0 (Some l) c f (opt_filter (\<lambda>a. a \<le> f) (checked_mul k l))"
  unfolding checked_mul_nat
proof (rule next_on_grid_of_nat)
  have l: "0 < unat l" using assms(1) by (simp add: unat_gt_0)
  have k: "unat k = unat c div unat l + 1"
    using assms(2) by (simp add: checked_add_nat word_of_nat_opt_Some_iff unat_div)
  show "unat c < unat k * unat l"
    using l by (simp add: k dividend_less_div_times)
  show "on_grid 0 (Some l) a" if "unat a = unat k * unat l" for a
    using that by (simp add: on_grid_def)
  show "unat k * unat l \<le> unat a" if a: "c < a" and g: "on_grid 0 (Some l) a" for a
  proof -
    obtain m where m: "unat a = unat l * m"
      using g by (auto simp: on_grid_def)
    have "unat c < m * unat l"
      using a by (simp add: word_less_nat_alt m mult.commute)
    then have "unat c div unat l < m"
      using l by (simp add: div_less_iff_less_mult)
    then have "unat k * unat l \<le> m * unat l"
      by (intro mult_le_mono1) (simp add: k)
    then show ?thesis by (simp add: m mult.commute)
  qed
qed

section \<open>The iterator follows the reference\<close>

text \<open>Positive spacings: \<open>NonZeroU64\<close> in the source.\<close>

definition inputs_ok :: "AgendaInputs \<Rightarrow> bool" where
  "inputs_ok ai \<longleftrightarrow> ai_epoch_len ai \<noteq> Some 0 \<and> ai_goal_poll_period ai \<noteq> Some 0 \<and> clock_ok (ai_clock ai)"

definition iter_inv :: "AgendaInputs \<Rightarrow> u64 \<Rightarrow> StopKind \<Rightarrow> u64 \<Rightarrow> AgendaIter \<Rightarrow> bool" where
  "iter_inv ai f kind c it \<longleftrightarrow> it_final_icount it = f \<and> it_stop_kind it = kind \<and> \<not> it_done it
     \<and> it_inputs it = windowed c f (ai_scheduled_inputs ai)
     \<and> it_injections it = windowed c f (ai_injections ai)
     \<and> next_on_grid 0 (ai_epoch_len ai) c f (it_epoch_next it)
     \<and> next_on_grid (unat (ai_start_icount ai)) (ai_goal_poll_period ai) c f (it_goal_next it)
     \<and> (\<forall>l. ai_epoch_len ai = Some l \<longrightarrow> it_epoch_len it = l)
     \<and> (\<forall>l. ai_goal_poll_period ai = Some l \<longrightarrow> it_goal_period it = l)
     \<and> ai_start_icount ai \<le> c \<and> c \<le> f \<and> (c < f \<or> c = ai_start_icount ai)"

definition stops_after :: "AgendaInputs \<Rightarrow> u64 \<Rightarrow> u64 \<Rightarrow> u64 set" where
  "stops_after ai f c = {a. a = f \<or> c < a \<and> is_stop ai f a}"

definition next_at :: "AgendaIter \<Rightarrow> u64" where
  "next_at it = min_opt (it_goal_next it) (min_opt (it_epoch_next it)
     (min_peek (it_injections it) (min_peek (it_inputs it) (it_final_icount it))))"

lemma min_peek_le: "min_peek xs at \<le> at"
  by (simp add: min_peek_def split: list.split)

lemma min_peek_member: "(a, i) \<in> set xs \<Longrightarrow> sorted xs \<Longrightarrow> min_peek xs at \<le> a"
  by (cases xs) (fastforce simp: min_peek_def less_eq_prod_def min_le_iff_disj)+

lemma min_peek_cases: "min_peek xs at = at \<or> (\<exists>i. (min_peek xs at, i) \<in> set xs)"
  by (cases xs) (force simp: min_peek_def min_def)+

lemma min_opt_le: "min_opt x at \<le> at" "x = Some a \<Longrightarrow> min_opt x at \<le> a"
  by (simp_all add: min_opt_def split: option.split)

lemma min_opt_cases: "min_opt x at = at \<or> x = Some (min_opt x at)"
  by (cases x) (auto simp: min_opt_def min_def)

lemmas min_trans = order_trans [OF min_opt_le(1)] order_trans [OF min_peek_le]

lemma next_at_le:
  "next_at it \<le> it_final_icount it"
  "(a, i) \<in> set (it_inputs it) \<Longrightarrow> sorted (it_inputs it) \<Longrightarrow> next_at it \<le> a"
  "(a, i) \<in> set (it_injections it) \<Longrightarrow> sorted (it_injections it) \<Longrightarrow> next_at it \<le> a"
  "it_epoch_next it = Some a \<Longrightarrow> next_at it \<le> a"
  "it_goal_next it = Some a \<Longrightarrow> next_at it \<le> a"
  unfolding next_at_def
  by (blast intro: min_trans min_peek_le min_peek_member min_opt_le)+

lemma next_at_cases:
  "next_at it = it_final_icount it \<or> (\<exists>i. (next_at it, i) \<in> set (it_inputs it))
   \<or> (\<exists>i. (next_at it, i) \<in> set (it_injections it)) \<or> it_epoch_next it = Some (next_at it)
   \<or> it_goal_next it = Some (next_at it)"
  unfolding next_at_def using min_opt_cases min_peek_cases by metis

lemma next_on_grid_hit:
  assumes "next_on_grid base len c f g" and "c < at" and "at \<le> f" and "\<forall>n. g = Some n \<longrightarrow> at \<le> n"
  shows "g = Some at \<longleftrightarrow> on_grid base len at"
  using assms by (cases g) (auto simp: next_on_grid_def le_less)

lemma next_on_grid_None:
  "next_on_grid base len f f g \<Longrightarrow> g = None"
  by (cases g) (auto simp: next_on_grid_def)

lemma iter_inv_least:
  assumes inv: "iter_inv ai f kind c it"
  shows "next_at it \<in> stops_after ai f c" and "\<forall>a \<in> stops_after ai f c. next_at it \<le> a"
proof -
  from inv have f: "it_final_icount it = f" and c: "ai_start_icount ai \<le> c"
    and ins: "it_inputs it = windowed c f (ai_scheduled_inputs ai)"
    and inj: "it_injections it = windowed c f (ai_injections ai)"
    and ep: "next_on_grid 0 (ai_epoch_len ai) c f (it_epoch_next it)"
    and gp: "next_on_grid (unat (ai_start_icount ai)) (ai_goal_poll_period ai) c f (it_goal_next it)"
    by (simp_all add: iter_inv_def)
  have some: "c < n \<and> n \<le> f \<and> on_grid base len n" if "next_on_grid base len c f (Some n)" for base len n
    using that by (simp add: next_on_grid_def)
  from next_at_cases [of it] show "next_at it \<in> stops_after ai f c"
  proof (elim disjE exE)
    assume "it_epoch_next it = Some (next_at it)"
    with some [of 0 "ai_epoch_len ai" "next_at it"] ep c show ?thesis
      by (auto simp: stops_after_def is_stop_def)
  next
    assume "it_goal_next it = Some (next_at it)"
    with some [of "unat (ai_start_icount ai)" "ai_goal_poll_period ai" "next_at it"] gp c show ?thesis
      by (auto simp: stops_after_def is_stop_def)
  qed (use c in \<open>auto simp: stops_after_def is_stop_def ins inj f dest!: windowed_mem\<close>)
  have src: "next_at it \<le> a" if a: "a \<in> set xs" "c < a" "a \<le> f"
      and w: "it_inputs it = windowed c f xs \<or> it_injections it = windowed c f xs" for a xs
  proof -
    from a(1) obtain i where "i < length xs" "xs ! i = a" by (auto simp: in_set_conv_nth)
    with a(2,3) have "(a, i) \<in> set (windowed c f xs)" by (simp add: set_windowed)
    with w show ?thesis
      using next_at_le(2,3) [of a i it] sorted_windowed by metis
  qed
  have grid: "next_at it \<le> a" if "next_on_grid base len c f g" "on_grid base len a" "c < a" "a \<le> f"
      "\<And>n. g = Some n \<Longrightarrow> next_at it \<le> n" for a base len g
    using that by (cases g) (auto simp: next_on_grid_def not_less dest: order_trans)
  show "\<forall>a \<in> stops_after ai f c. next_at it \<le> a"
  proof
    fix a
    assume "a \<in> stops_after ai f c"
    then consider "a = f" | "c < a" "a \<le> f" "a \<in> set (ai_scheduled_inputs ai)"
      | "c < a" "a \<le> f" "a \<in> set (ai_injections ai)" | "c < a" "a \<le> f" "on_grid 0 (ai_epoch_len ai) a"
      | "c < a" "a \<le> f" "on_grid (unat (ai_start_icount ai)) (ai_goal_poll_period ai) a"
      by (auto simp: stops_after_def is_stop_def)
    then show "next_at it \<le> a"
    proof cases
      case 1
      then show ?thesis using next_at_le(1) [of it] f by simp
    next
      case 2
      then show ?thesis using src ins by blast
    next
      case 3
      then show ?thesis using src inj by blast
    next
      case 4
      then show ?thesis using grid [OF ep] next_at_le(4) by blast
    next
      case 5
      then show ?thesis using grid [OF gp] next_at_le(5) by blast
    qed
  qed
qed

lemma windowed_split:
  assumes "\<forall>x \<in> set (windowed c f xs). at \<le> fst x" and "c < at" and "at \<le> f"
  shows "map snd (takeWhile (\<lambda>(a, _). a = at) (windowed c f xs)) = indices_at xs at"
    and "dropWhile (\<lambda>(a, _). a = at) (windowed c f xs) = windowed at f xs"
  using takeWhile_least [OF sorted_windowed assms(1)] windowed_here [OF assms(2,3), of xs]
    windowed_above [OF less_imp_le [OF assms(2)], of f xs]
  by (simp_all add: comp_def)

lemma windowed_empty [simp]: "windowed f f xs = []"
proof -
  have "set (windowed f f xs) = {}"
    by (auto simp: set_windowed)
  then show ?thesis by simp
qed

lemma next_on_grid_later:
  assumes "next_on_grid base len c f (Some n)" and "c \<le> at" and "at < n"
  shows "next_on_grid base len at f (Some n)"
  using assms by (auto simp: next_on_grid_def)

lemma next_on_grid_None_later:
  assumes "next_on_grid base len c f None" and "c \<le> at"
  shows "next_on_grid base len at f None"
  using assms by (auto simp: next_on_grid_def)

lemma next_on_grid_step:
  assumes g: "next_on_grid base len c f g" and len: "\<And>l. len = Some l \<Longrightarrow> spacing = l \<and> l \<noteq> 0"
    and at: "c < at" "at \<le> f" "\<And>n. g = Some n \<Longrightarrow> at \<le> n" and base: "base \<le> unat at"
  shows "next_on_grid base len at f
    (if g = Some at then opt_filter (\<lambda>n. n \<le> f) (checked_add at spacing) else g)"
proof (cases "g = Some at")
  case True
  with g have on: "on_grid base len at" by (simp add: next_on_grid_def)
  then obtain l where "len = Some l" by (auto simp: on_grid_def split: option.splits)
  with on len base True show ?thesis by (simp add: grid_advance)
next
  case False
  with g at show ?thesis
    by (cases g) (auto simp: le_less intro: next_on_grid_later next_on_grid_None_later)
qed

lemma agenda_next_step:
  assumes inv: "iter_inv ai f kind c it" and ok: "inputs_ok ai"
  shows "\<exists>it'. agenda_next it = (Some (point_at ai f kind (next_at it)), it')
    \<and> (if next_at it = f then it_done it' else iter_inv ai f kind (next_at it) it' \<and> c < next_at it)"
proof -
  let ?at = "next_at it"
  from inv have f: "it_final_icount it = f" and k: "it_stop_kind it = kind" and nd: "\<not> it_done it"
    and ins: "it_inputs it = windowed c f (ai_scheduled_inputs ai)"
    and inj: "it_injections it = windowed c f (ai_injections ai)"
    and ep: "next_on_grid 0 (ai_epoch_len ai) c f (it_epoch_next it)"
    and gp: "next_on_grid (unat (ai_start_icount ai)) (ai_goal_poll_period ai) c f (it_goal_next it)"
    and el: "\<And>l. ai_epoch_len ai = Some l \<Longrightarrow> it_epoch_len it = l"
    and gl: "\<And>l. ai_goal_poll_period ai = Some l \<Longrightarrow> it_goal_period it = l"
    and sc: "ai_start_icount ai \<le> c" and cf: "c \<le> f" "c < f \<or> c = ai_start_icount ai"
    by (simp_all add: iter_inv_def)
  have step: "agenda_next it = (Some \<lparr>sp_icount = ?at,
        sp_inputs = map snd (takeWhile (\<lambda>(a, _). a = ?at) (it_inputs it)),
        sp_injections = map snd (takeWhile (\<lambda>(a, _). a = ?at) (it_injections it)),
        sp_epoch_hash = (it_epoch_next it = Some ?at), sp_goal_poll = (it_goal_next it = Some ?at),
        sp_final_stop = (if ?at = f then Some kind else None)\<rparr>,
      it\<lparr>it_inputs := dropWhile (\<lambda>(a, _). a = ?at) (it_inputs it),
        it_injections := dropWhile (\<lambda>(a, _). a = ?at) (it_injections it),
        it_epoch_next := (if it_epoch_next it = Some ?at then opt_filter (\<lambda>n. n \<le> f) (checked_add ?at (it_epoch_len it))
           else it_epoch_next it),
        it_goal_next := (if it_goal_next it = Some ?at then opt_filter (\<lambda>n. n \<le> f) (checked_add ?at (it_goal_period it))
           else it_goal_next it),
        it_done := (?at = f)\<rparr>)"
    using nd f k by (simp add: agenda_next_def Let_def next_at_def)
  have le: "?at \<le> f" using next_at_le(1) [of it] f by simp
  show ?thesis
  proof (cases "c < ?at")
    case True
    have "\<forall>x \<in> set (windowed c f (ai_scheduled_inputs ai)). ?at \<le> fst x"
      using next_at_le(2) [of _ _ it] ins sorted_windowed by fastforce
    note i = windowed_split [OF this True le]
    have "\<forall>x \<in> set (windowed c f (ai_injections ai)). ?at \<le> fst x"
      using next_at_le(3) [of _ _ it] inj sorted_windowed by fastforce
    note j = windowed_split [OF this True le]
    have e: "it_epoch_next it = Some ?at \<longleftrightarrow> on_grid 0 (ai_epoch_len ai) ?at"
      using next_on_grid_hit [OF ep True le] next_at_le(4) by blast
    have g: "it_goal_next it = Some ?at \<longleftrightarrow> on_grid (unat (ai_start_icount ai)) (ai_goal_poll_period ai) ?at"
      using next_on_grid_hit [OF gp True le] next_at_le(5) by blast
    have sa: "ai_start_icount ai < ?at" using sc True by simp
    have ep': "next_on_grid 0 (ai_epoch_len ai) ?at f (if it_epoch_next it = Some ?at
        then opt_filter (\<lambda>n. n \<le> f) (checked_add ?at (it_epoch_len it)) else it_epoch_next it)"
      using next_at_le(4) ok by (intro next_on_grid_step [OF ep _ True le]) (auto simp: el inputs_ok_def)
    have gp': "next_on_grid (unat (ai_start_icount ai)) (ai_goal_poll_period ai) ?at f (if it_goal_next it = Some ?at
        then opt_filter (\<lambda>n. n \<le> f) (checked_add ?at (it_goal_period it)) else it_goal_next it)"
      using next_at_le(5) ok sa by (intro next_on_grid_step [OF gp _ True le])
        (auto simp: gl inputs_ok_def word_less_nat_alt)
    show ?thesis
      unfolding step ins inj i j
      using sa True le nd f k el gl ep' gp' e g
      by (auto simp: point_at_def Let_def iter_inv_def)
  next
    case False
    then have at: "?at = f" "c = f" "f = ai_start_icount ai"
      using iter_inv_least(1) [OF inv] cf by (auto simp: stops_after_def)
    have "it_epoch_next it = None" "it_goal_next it = None"
      using next_on_grid_None ep gp at(2) by blast+
    with at show ?thesis
      unfolding step ins inj by (simp add: point_at_def Let_def)
  qed
qed

lemma agenda_collect_spec:
  assumes "inputs_ok ai" and "iter_inv ai f kind c it"
  shows "agenda_collect it = Some (map (point_at ai f kind) (sorted_list_of_set (stops_after ai f c)))"
  using assms(2)
proof (induction "unat f - unat c" arbitrary: c it rule: less_induct)
  case less
  let ?at = "next_at it" and ?S = "stops_after ai f c"
  note least = iter_inv_least [OF less.prems]
  have fin: "finite ?S" by simp
  have "Min ?S = ?at"
    using least by (intro Min_eqI) auto
  then have split: "sorted_list_of_set ?S = ?at # sorted_list_of_set (?S - {?at})"
    using sorted_list_of_set_nonempty [OF fin] least(1) by auto
  from agenda_next_step [OF less.prems assms(1)] obtain it' where
    nx: "agenda_next it = (Some (point_at ai f kind ?at), it')"
    and cs: "if ?at = f then it_done it' else iter_inv ai f kind ?at it' \<and> c < ?at"
    by blast
  show ?case
  proof (cases "?at = f")
    case True
    then have "?S - {?at} = {}"
      using least(2) by (auto simp: stops_after_def is_stop_def)
    moreover have "agenda_collect it' = Some []"
      using True cs by (subst agenda_collect.simps) (simp add: agenda_next_def)
    ultimately show ?thesis
      using nx by (subst agenda_collect.simps) (simp add: split)
  next
    case False
    with cs have inv': "iter_inv ai f kind ?at it'" and lt: "c < ?at" by simp_all
    have "?at < f"
      using False next_at_le(1) [of it] less.prems by (simp add: iter_inv_def)
    with lt have "unat f - unat ?at < unat f - unat c"
      by (simp add: word_less_nat_alt)
    from less.hyps [OF this inv'] have "agenda_collect it'
        = Some (map (point_at ai f kind) (sorted_list_of_set (stops_after ai f ?at)))" .
    moreover have "?S - {?at} = stops_after ai f ?at"
      using least(2) False lt by (fastforce simp: stops_after_def)
    ultimately show ?thesis
      using nx by (subst agenda_collect.simps) (simp add: split)
  qed
qed

lemma final_point_ge: "final_point ai = Ok (f, kind) \<Longrightarrow> ai_start_icount ai \<le> f"
  by (auto simp: final_point_def Let_def dest: checked_add_ge split: FinalStop.splits)

lemma agenda_new_inv:
  assumes ok: "inputs_ok ai" and new: "agenda_new ai = Ok it"
  shows "\<exists>f kind. final_point ai = Ok (f, kind) \<and> iter_inv ai f kind (ai_start_icount ai) it"
proof -
  let ?s = "ai_start_icount ai"
  obtain f kind where fp: "final_point ai = Ok (f, kind)"
    using new by (auto simp: agenda_new_def Let_def)
  have grid0: "next_on_grid base None ?s f None" for base
    by (simp add: next_on_grid_def on_grid_def)
  have ep: "next_on_grid 0 (Some l) ?s f (opt_filter (\<lambda>at. at \<le> f) (checked_mul k l))"
    if "ai_epoch_len ai = Some l" "checked_add (?s div l) 1 = Some k" for l k
    using that ok by (intro grid_first) (auto simp: inputs_ok_def)
  have gp: "next_on_grid (unat ?s) (Some l) ?s f (opt_filter (\<lambda>at. at \<le> f) (checked_add ?s l))"
    if "ai_goal_poll_period ai = Some l" for l
    using that ok by (intro grid_advance) (auto simp: inputs_ok_def on_grid_def)
  show ?thesis
    using new final_point_ge [OF fp] grid0 ep gp
    by (auto simp: agenda_new_def Let_def fp iter_inv_def unwrap_eq_Ok split: option.splits)
qed

lemma stops_after_start: "final_point ai = Ok (f, kind) \<Longrightarrow> stops_after ai f (ai_start_icount ai) = {a. is_stop ai f a}"
  by (auto simp: stops_after_def is_stop_def)

lemma agenda_compile_spec:
  assumes "inputs_ok ai" and "agenda_new ai = Ok it" and "final_point ai = Ok (f, kind)"
  shows "agenda_collect it = Some (agenda_spec ai f kind)"
proof -
  from agenda_new_inv [OF assms(1,2)] assms(3) have "iter_inv ai f kind (ai_start_icount ai) it" by simp
  from agenda_collect_spec [OF assms(1) this] show ?thesis
    by (simp add: agenda_spec_def stops_after_start [OF assms(3)])
qed

lemma epoch_overflow:
  assumes "l \<noteq> 0"
  shows "checked_add (s div l) 1 = None \<longleftrightarrow> l = 1 \<and> s = u64_max"
proof -
  have l: "0 < unat l" using assms by (simp add: unat_gt_0)
  have "checked_add (s div l) 1 = None \<longleftrightarrow> 2 ^ 64 \<le> unat s div unat l + 1"
    by (auto simp: checked_add_nat word_of_nat_opt_def unat_div)
  also have "\<dots> \<longleftrightarrow> unat l = 1 \<and> unat s = 2 ^ 64 - 1"
  proof
    assume a: "2 ^ 64 \<le> unat s div unat l + 1"
    have s: "unat s < 2 ^ 64" using unat_lt_pow [of s] by simp
    have "unat l = 1"
    proof (rule ccontr)
      assume "unat l \<noteq> 1"
      then have "2 \<le> unat l" using l by simp
      then have "unat s div unat l \<le> unat s div 2" by (intro div_le_mono2) auto
      with a s show False by simp
    qed
    with a s show "unat l = 1 \<and> unat s = 2 ^ 64 - 1" by simp
  qed simp
  also have "\<dots> \<longleftrightarrow> l = 1 \<and> s = u64_max"
    by (simp add: word_unat_eq_iff)
  finally show ?thesis .
qed

lemma agenda_new_result:
  assumes "inputs_ok ai" and "final_point ai = Ok (f, kind)"
  shows "if ai_epoch_len ai = Some 1 \<and> ai_start_icount ai = u64_max then agenda_new ai = Panic
    else \<exists>it. agenda_new ai = Ok it"
proof (cases "ai_epoch_len ai")
  case None
  with assms(2) show ?thesis
    by (simp add: agenda_new_def Let_def split: option.split)
next
  case (Some l)
  then have "l \<noteq> 0" using assms(1) by (auto simp: inputs_ok_def)
  from epoch_overflow [OF this, of "ai_start_icount ai"] show ?thesis
    using assms(2) Some
    by (cases "checked_add (ai_start_icount ai div l) 1")
      (auto simp: agenda_new_def Let_def split: option.split)
qed

lemma agenda_compile_Ok:
  assumes ok: "inputs_ok ai" and c: "agenda_compile ai = Ok (Some ps)" and fp: "final_point ai = Ok (f, kind)"
  shows "ps = agenda_spec ai f kind"
proof -
  obtain it where it: "agenda_new ai = Ok it" "agenda_collect it = Some ps"
    using c by (auto simp: agenda_compile_def)
  then show ?thesis
    using agenda_compile_spec [OF ok it(1) fp] by simp
qed

definition landing :: "u64 \<Rightarrow> u64 list \<Rightarrow> u64 \<Rightarrow> nat list" where
  "landing start xs a = (if start < a then indices_at xs a else [])"

lemma set_indices_at: "set (indices_at xs a) = {i. i < length xs \<and> xs ! i = a}"
  by (auto simp: indices_at_def)

lemma distinct_landings: "distinct as \<Longrightarrow> distinct (concat (map (landing s xs) as))"
  by (induction as) (auto simp: landing_def set_indices_at, simp add: indices_at_def)

lemma set_landings:
  assumes "\<And>a. a \<in> set xs \<Longrightarrow> s < a \<Longrightarrow> a \<le> f \<Longrightarrow> a \<in> set as" and "\<And>a. a \<in> set as \<Longrightarrow> a \<le> f"
  shows "set (concat (map (landing s xs) as)) = {i. i < length xs \<and> s < xs ! i \<and> xs ! i \<le> f}"
  using assms by (force simp: landing_def set_indices_at)

lemma stops_last:
  assumes "final_point ai = Ok (f, kind)"
  shows "\<exists>as. sorted_list_of_set {a. is_stop ai f a} = as @ [f] \<and> f \<notin> set as"
proof -
  let ?L = "sorted_list_of_set {a. is_stop ai f a}"
  have st: "sorted_wrt (<) ?L" by simp
  have mem: "f \<in> set ?L" and le: "\<forall>a \<in> set ?L. a \<le> f"
    using final_point_ge [OF assms] by (auto simp: is_stop_def)
  then obtain as z where L: "?L = as @ [z]" by (metis append_butlast_last_id empty_iff empty_set)
  with mem le st have "z = f" by (fastforce simp: sorted_wrt_append)
  with L st show ?thesis by (auto simp: sorted_wrt_append)
qed

section \<open>Properties\<close>

text \<open>
  C14. The streaming agenda is its specification. For any inputs with nonzero spacings,
  compilation terminates and yields exactly the sorted stop icounts of the window, each
  with the indices of the inputs and injections that land there, its grid flags and the
  final marker. A budget that leaves the 64-bit space is the error, and the only panic is
  the addition overflow of the first epoch point at the last icount with spacing one.
\<close>

theorem agenda_compile_correct:
  assumes "inputs_ok ai"
  shows "agenda_compile ai = (case final_point ai of
      Ok (f, kind) \<Rightarrow> (if ai_epoch_len ai = Some 1 \<and> ai_start_icount ai = u64_max then Panic
                      else Ok (Some (agenda_spec ai f kind)))
    | Err e \<Rightarrow> Err e
    | Panic \<Rightarrow> Panic)"
proof (cases "final_point ai")
  case (Ok p)
  obtain f kind where p: "p = (f, kind)" by (cases p)
  with Ok have fp: "final_point ai = Ok (f, kind)" by simp
  show ?thesis
  proof (cases "ai_epoch_len ai = Some 1 \<and> ai_start_icount ai = u64_max")
    case True
    then have "agenda_new ai = Panic"
      using agenda_new_result [OF assms fp] by simp
    with True fp show ?thesis by (simp add: agenda_compile_def)
  next
    case False
    then obtain it where it: "agenda_new ai = Ok it"
      using agenda_new_result [OF assms fp] by auto
    have c: "agenda_compile ai = Ok (Some (agenda_spec ai f kind))"
      using it agenda_compile_spec [OF assms it fp] by (simp add: agenda_compile_def)
    show ?thesis
      unfolding c fp using False by auto
  qed
qed (simp_all add: agenda_compile_def agenda_new_def Let_def)

definition ex_agenda :: AgendaInputs where
  "ex_agenda = \<lparr>ai_start_icount = 10, ai_scheduled_inputs = [15, 3], ai_injections = [15, 99],
     ai_epoch_len = Some 8, ai_goal_poll_period = None, ai_final_stop = IcountBudget 6,
     ai_clock = clock_default\<rparr>"

lemma ex_agenda_final: "final_point ex_agenda = Ok (16, BudgetStop)"
  by (simp add: final_point_def ex_agenda_def checked_add_nat word_of_nat_opt_def)

theorem agenda_compile_correct_witness:
  "agenda_compile ex_agenda = Ok (Some (agenda_spec ex_agenda 16 BudgetStop))"
  using agenda_compile_correct [of ex_agenda] ex_agenda_final
  by (simp add: inputs_ok_def clock_ok_def clock_default_def ex_agenda_def)

text \<open>
  C15. Every agenda has the shape run control relies on: strictly increasing icounts, the
  last point is the final stop and no other point is, and every scheduled input and every
  injection inside the window lands exactly once.
\<close>

theorem agenda_shape:
  assumes "inputs_ok ai" and "agenda_compile ai = Ok (Some ps)" and "final_point ai = Ok (f, kind)"
  shows "ps \<noteq> [] \<and> sorted_wrt (<) (map sp_icount ps)
    \<and> sp_icount (last ps) = f \<and> sp_final_stop (last ps) = Some kind
    \<and> list_all (\<lambda>p. sp_final_stop p = None) (butlast ps)
    \<and> distinct (concat (map sp_inputs ps)) \<and> distinct (concat (map sp_injections ps))
    \<and> set (concat (map sp_inputs ps)) = {i. i < length (ai_scheduled_inputs ai)
         \<and> ai_start_icount ai < ai_scheduled_inputs ai ! i \<and> ai_scheduled_inputs ai ! i \<le> f}
    \<and> set (concat (map sp_injections ps)) = {i. i < length (ai_injections ai)
         \<and> ai_start_icount ai < ai_injections ai ! i \<and> ai_injections ai ! i \<le> f}"
proof -
  let ?L = "sorted_list_of_set {a. is_stop ai f a}" and ?s = "ai_start_icount ai"
  have ps: "ps = map (point_at ai f kind) ?L"
    using agenda_compile_Ok [OF assms] by (simp add: agenda_spec_def)
  obtain as where L: "?L = as @ [f]" and nf: "f \<notin> set as"
    using stops_last [OF assms(3)] by blast
  have ins: "map sp_inputs ps = map (landing ?s (ai_scheduled_inputs ai)) ?L"
    and inj: "map sp_injections ps = map (landing ?s (ai_injections ai)) ?L"
    by (simp_all add: ps point_at_def landing_def Let_def)
  have stop: "a \<in> set ?L" if "a \<in> set (ai_scheduled_inputs ai) \<union> set (ai_injections ai)" "?s < a" "a \<le> f" for a
    using that by (auto simp: is_stop_def)
  have le: "a \<le> f" if "a \<in> set ?L" for a
    using that final_point_ge [OF assms(3)] by (auto simp: is_stop_def)
  have "sorted_wrt (<) (map sp_icount ps)"
    by (simp add: ps comp_def point_at_def Let_def)
  moreover have "list_all (\<lambda>p. sp_final_stop p = None) (butlast ps)"
    using nf by (auto simp: ps L point_at_def Let_def list_all_iff)
  moreover have "sp_icount (last ps) = f" "sp_final_stop (last ps) = Some kind" "ps \<noteq> []"
    by (simp_all add: ps L point_at_def Let_def)
  moreover have "distinct (concat (map sp_inputs ps))" "distinct (concat (map sp_injections ps))"
    unfolding ins inj by (intro distinct_landings; simp)+
  moreover have "set (concat (map sp_inputs ps)) = {i. i < length (ai_scheduled_inputs ai)
      \<and> ?s < ai_scheduled_inputs ai ! i \<and> ai_scheduled_inputs ai ! i \<le> f}"
    unfolding ins using stop le by (intro set_landings) auto
  moreover have "set (concat (map sp_injections ps)) = {i. i < length (ai_injections ai)
      \<and> ?s < ai_injections ai ! i \<and> ai_injections ai ! i \<le> f}"
    unfolding inj using stop le by (intro set_landings) auto
  ultimately show ?thesis by blast
qed

lemma ex_agenda_ok: "inputs_ok ex_agenda"
  by (simp add: inputs_ok_def clock_ok_def clock_default_def ex_agenda_def)

lemma ex_agenda_compiles: "\<exists>ps. agenda_compile ex_agenda = Ok (Some ps)"
proof -
  obtain it where it: "agenda_new ex_agenda = Ok it"
    using agenda_new_result [OF ex_agenda_ok ex_agenda_final] by (auto simp: ex_agenda_def)
  with agenda_compile_spec [OF ex_agenda_ok it ex_agenda_final] show ?thesis
    by (simp add: agenda_compile_def)
qed

theorem agenda_shape_witness:
  "\<exists>ps. agenda_compile ex_agenda = Ok (Some ps) \<and> sorted_wrt (<) (map sp_icount ps)
     \<and> sp_icount (last ps) = 16 \<and> set (concat (map sp_inputs ps)) = {0}"
proof -
  obtain ps where c: "agenda_compile ex_agenda = Ok (Some ps)"
    using ex_agenda_compiles by blast
  have "{i. i < length (ai_scheduled_inputs ex_agenda) \<and> ai_start_icount ex_agenda < ai_scheduled_inputs ex_agenda ! i
      \<and> ai_scheduled_inputs ex_agenda ! i \<le> 16} = {0}"
    by (auto simp: ex_agenda_def less_Suc_eq)
  with agenda_shape [OF ex_agenda_ok c ex_agenda_final] c show ?thesis by blast
qed

text \<open>
  C16. A virtual-time budget stops at the right instruction: the final icount is the
  first one at or after the start whose virtual time has advanced by at least the budget.
\<close>

theorem vns_budget_tight:
  assumes "clock_ok (ai_clock ai)" and "ai_final_stop ai = VnsBudget b" and "final_point ai = Ok (f, kind)"
  shows "ai_start_icount ai \<le> f \<and> kind = BudgetStop
    \<and> vns_exact (ai_clock ai) (unat (ai_start_icount ai)) + unat b \<le> vns_exact (ai_clock ai) (unat f)
    \<and> (\<forall>j. ai_start_icount ai \<le> j \<and> j < f \<longrightarrow>
         vns_exact (ai_clock ai) (unat j) < vns_exact (ai_clock ai) (unat (ai_start_icount ai)) + unat b)"
proof -
  let ?r = "ai_clock ai" and ?s = "ai_start_icount ai"
  from assms(2,3) obtain v w k where "vns_from_icount ?r ?s = Some v" "checked_add v b = Some w"
      "icount_for_vns_target ?r w = Some k" and f: "f = max k ?s" "kind = BudgetStop"
    by (auto simp: final_point_def Let_def)
  then have v: "unat v = vns_exact ?r (unat ?s)" and w: "unat w = unat v + unat b"
    and k: "unat k = icount_exact ?r (unat w)"
    by (simp_all add: vns_from_icount_eq icount_for_vns_target_eq [OF assms(1)] checked_add_nat
        word_of_nat_opt_Some_iff)
  have adj: "k \<le> j \<longleftrightarrow> unat w \<le> vns_exact ?r (unat j)" for j
    using icount_exact_adjoint [OF assms(1), of "unat w" "unat j"] by (simp add: word_le_nat_alt k)
  have "k \<le> f" using f by simp
  with adj have "unat w \<le> vns_exact ?r (unat f)" by blast
  moreover have "vns_exact ?r (unat j) < unat w" if "?s \<le> j" "j < f" for j
    using that adj [of j] f by (auto simp: max_def split: if_splits)
  ultimately show ?thesis using f v w by auto
qed

theorem vns_budget_tight_witness:
  "\<exists>f. final_point (ex_agenda\<lparr>ai_final_stop := VnsBudget 5, ai_clock := \<lparr>cr_num = 3, cr_den = 2\<rparr>\<rparr>) = Ok (f, BudgetStop)
     \<and> 20 \<le> vns_exact \<lparr>cr_num = 3, cr_den = 2\<rparr> (unat f)"
proof -
  let ?r = "\<lparr>cr_num = 3, cr_den = 2\<rparr>"
  let ?ai = "ex_agenda\<lparr>ai_final_stop := VnsBudget 5, ai_clock := ?r\<rparr>"
  have ok: "clock_ok ?r" by (simp add: clock_ok_def)
  have fp: "final_point ?ai = Ok (14, BudgetStop)"
    by (simp add: final_point_def ex_agenda_def vns_from_icount_eq icount_for_vns_target_eq [OF ok]
        vns_exact_def icount_exact_def checked_add_nat word_of_nat_opt_def)
  from vns_budget_tight [of ?ai 5 14 BudgetStop] fp ok show ?thesis
    by (simp add: ex_agenda_def vns_exact_def)
qed

end
