(* ===== verification/Dev_Ctx.thy ===== *)
theory Dev_Ctx
  imports Log_Roundtrip "HOL-Library.Finite_Map"
begin

text \<open>
  The device execution context, \<open>src/crates/dh-devices/src/ctx.rs\<close>, and the contracts of
  \<open>src/crates/dh-devices/src/lib.rs\<close> that devices are written against.

  Guest memory, the entropy source and the hash are the seams of the source's traits: they
  are an argument of the device operations (\<open>DevEnv\<close>). A memory access reports whether it
  succeeded and returns the buffer or the memory as the access left it, so a failing access
  that moved some bytes is covered. \<open>guest_mem\<close> is the contract of the seam, interpreted on
  the vector-backed memory; \<open>det_section\<close> is the snapshot contract of a device.
\<close>

section \<open>Seams\<close>

record ('m, 'e) DevEnv =
  env_mem_read :: "'m \<Rightarrow> u64 \<Rightarrow> byte list \<Rightarrow> bool \<times> byte list"
  env_mem_write :: "'m \<Rightarrow> u64 \<Rightarrow> byte list \<Rightarrow> bool \<times> 'm"
  env_fill :: "'e \<Rightarrow> nat \<Rightarrow> byte list \<times> 'e"
  env_blake3 :: "byte list \<Rightarrow> byte list"

datatype RestoreError = RestoreError

record ('m, 'e) DevCtx =
  cx_icount :: u64
  cx_boundary_rip :: u64
  cx_log :: LogWriter
  cx_mem :: 'm
  cx_entropy :: 'e
  cx_irq_queue :: "u8 list"
  cx_log_fault :: "WriteError option"

definition ctx_new :: "u64 \<Rightarrow> u64 \<Rightarrow> LogWriter \<Rightarrow> 'm \<Rightarrow> 'e \<Rightarrow> u8 list \<Rightarrow> ('m, 'e) DevCtx" where
  "ctx_new icount boundary_rip log mem ent irq_queue =
     \<lparr>cx_icount = icount, cx_boundary_rip = boundary_rip, cx_log = log, cx_mem = mem,
      cx_entropy = ent, cx_irq_queue = irq_queue, cx_log_fault = None\<rparr>"

definition request_irq :: "u8 \<Rightarrow> ('m, 'e) DevCtx \<Rightarrow> ('m, 'e) DevCtx" where
  "request_irq vector ctx = ctx\<lparr>cx_irq_queue := cx_irq_queue ctx @ [vector]\<rparr>"

text \<open>\<open>DevCtx::record\<close>: the first failure of a dispatch sticks.\<close>

definition ctx_record :: "(unit, WriteError) res \<Rightarrow> ('m, 'e) DevCtx \<Rightarrow> ('m, 'e) DevCtx" where
  "ctx_record r ctx = (case (r, cx_log_fault ctx) of
     (Err e, None) \<Rightarrow> ctx\<lparr>cx_log_fault := Some e\<rparr>
   | _ \<Rightarrow> ctx)"

text \<open>One log call through the context: the writer after the call, then \<open>record\<close>.\<close>

definition ctx_log_call ::
  "(LogWriter \<Rightarrow> (unit, WriteError) res \<times> LogWriter) \<Rightarrow> ('m, 'e) DevCtx \<Rightarrow> ('m, 'e) DevCtx" where
  "ctx_log_call f ctx = (case f (cx_log ctx) of (r, w) \<Rightarrow> ctx_record r (ctx\<lparr>cx_log := w\<rparr>))"

definition log_dev_event :: "u16 \<Rightarrow> u16 \<Rightarrow> byte list \<Rightarrow> ('m, 'e) DevCtx \<Rightarrow> ('m, 'e) DevCtx" where
  "log_dev_event device_id event_type data ctx =
     ctx_log_call (dev_event (cx_icount ctx) (cx_boundary_rip ctx) device_id event_type data) ctx"

definition log_pio_answer :: "u16 \<Rightarrow> u32 \<Rightarrow> ('m, 'e) DevCtx \<Rightarrow> ('m, 'e) DevCtx" where
  "log_pio_answer port value ctx =
     ctx_log_call (pio_answer (cx_icount ctx) (cx_boundary_rip ctx) port value) ctx"

definition log_entropy :: "u32 \<Rightarrow> u64 \<Rightarrow> ('m, 'e) DevCtx \<Rightarrow> ('m, 'e) DevCtx" where
  "log_entropy len dig ctx = ctx_log_call (entropy (cx_icount ctx) (cx_boundary_rip ctx) len dig) ctx"

definition log_net_tx :: "u32 \<Rightarrow> u64 \<Rightarrow> ('m, 'e) DevCtx \<Rightarrow> ('m, 'e) DevCtx" where
  "log_net_tx len dig ctx = ctx_log_call (net_tx (cx_icount ctx) (cx_boundary_rip ctx) len dig) ctx"

definition log_frame_mark :: "u32 \<Rightarrow> ('m, 'e) DevCtx \<Rightarrow> ('m, 'e) DevCtx" where
  "log_frame_mark frame_index ctx =
     ctx_log_call (frame_mark (cx_icount ctx) (cx_boundary_rip ctx) frame_index) ctx"

definition log_sdk_event :: "u16 \<Rightarrow> u32 \<Rightarrow> u64 \<Rightarrow> ('m, 'e) DevCtx \<Rightarrow> ('m, 'e) DevCtx" where
  "log_sdk_event stream len dig ctx =
     ctx_log_call (sdk_event (cx_icount ctx) (cx_boundary_rip ctx) stream len dig) ctx"

section \<open>Vector-backed guest memory\<close>

definition vec_mem_read :: "byte list \<Rightarrow> u64 \<Rightarrow> byte list \<Rightarrow> bool \<times> byte list" where
  "vec_mem_read m gpa buf =
     (if unat gpa + length buf \<le> length m then (True, bslice m (unat gpa) (unat gpa + length buf))
      else (False, buf))"

definition vec_mem_write :: "byte list \<Rightarrow> u64 \<Rightarrow> byte list \<Rightarrow> bool \<times> byte list" where
  "vec_mem_write m gpa data =
     (if unat gpa + length data \<le> length m then (True, overwrite m (unat gpa) data) else (False, m))"

locale guest_mem =
  fixes rd :: "'m \<Rightarrow> u64 \<Rightarrow> byte list \<Rightarrow> bool \<times> byte list"
    and wr :: "'m \<Rightarrow> u64 \<Rightarrow> byte list \<Rightarrow> bool \<times> 'm"
  assumes rd_length: "length (snd (rd m g buf)) = length buf"
    and rd_after_wr: "wr m g bs = (True, m') \<Longrightarrow> length buf = length bs \<Longrightarrow> rd m' g buf = (True, bs)"
    and rd_frame: "wr m g bs = (ok, m') \<Longrightarrow> unat h + length buf \<le> unat g \<or> unat g + length bs \<le> unat h
      \<Longrightarrow> rd m' h buf = rd m h buf"
begin

lemma rd_other:
  "wr m g bs = (True, m') \<Longrightarrow> wr m' h cs = (True, m'') \<Longrightarrow> unat h + length cs \<le> unat g \<or> unat g + length bs \<le> unat h
   \<Longrightarrow> length buf = length bs \<Longrightarrow> rd m'' g buf = (True, bs)"
  using rd_after_wr rd_frame [of m' h cs True m'' g buf] by fastforce

end

interpretation vec_mem: guest_mem vec_mem_read vec_mem_write
proof
  fix m :: "byte list" and g h :: u64 and buf bs :: "byte list" and ok m'
  show "length (snd (vec_mem_read m g buf)) = length buf"
    by (simp add: vec_mem_read_def)
  show "vec_mem_write m g bs = (True, m') \<Longrightarrow> length buf = length bs \<Longrightarrow> vec_mem_read m' g buf = (True, bs)"
    by (auto simp: vec_mem_write_def vec_mem_read_def bslice_overwrite_same split: if_splits)
  show "vec_mem_write m g bs = (ok, m') \<Longrightarrow> unat h + length buf \<le> unat g \<or> unat g + length bs \<le> unat h
      \<Longrightarrow> vec_mem_read m' h buf = vec_mem_read m h buf"
    by (auto simp: vec_mem_write_def vec_mem_read_def bslice_overwrite_before bslice_overwrite_after split: if_splits)
qed

definition vec_env :: "(byte list, unit) DevEnv" where
  "vec_env = \<lparr>env_mem_read = vec_mem_read, env_mem_write = vec_mem_write,
     env_fill = (\<lambda>e n. (zeros n, e)), env_blake3 = (\<lambda>_. zeros 32)\<rparr>"

definition vec_ctx :: "byte list \<Rightarrow> (byte list, unit) DevCtx" where
  "vec_ctx mem = ctx_new 7 0 (log_new ex_header) mem () []"

section \<open>What a dispatch may do to the log\<close>

text \<open>
  \<open>logged ops c c'\<close>: between the contexts \<open>c\<close> and \<open>c'\<close> of one dispatch the writer went through
  the calls \<open>ops\<close>, all stamped with the boundary of the context, and the fault is the first
  error among them unless one was already there.
\<close>

fun log_step :: "LogOp \<Rightarrow> LogWriter \<times> WriteError option \<Rightarrow> LogWriter \<times> WriteError option" where
  "log_step op (w, fault) = (snd (apply_op op w), (case fault of
     Some e \<Rightarrow> Some e | None \<Rightarrow> (case fst (apply_op op w) of Err e \<Rightarrow> Some e | _ \<Rightarrow> None)))"

definition logged :: "LogOp list \<Rightarrow> ('m, 'e) DevCtx \<Rightarrow> ('m, 'e) DevCtx \<Rightarrow> bool" where
  "logged ops c c' \<longleftrightarrow> cx_icount c' = cx_icount c \<and> cx_boundary_rip c' = cx_boundary_rip c
     \<and> (\<forall>op \<in> set ops. op_boundary op = (cx_icount c, cx_boundary_rip c))
     \<and> (cx_log c', cx_log_fault c') = fold log_step ops (cx_log c, cx_log_fault c)"

lemma ctx_log_call_simps [simp]:
  "cx_icount (ctx_log_call f c) = cx_icount c" "cx_boundary_rip (ctx_log_call f c) = cx_boundary_rip c"
  "cx_mem (ctx_log_call f c) = cx_mem c" "cx_entropy (ctx_log_call f c) = cx_entropy c"
  "cx_irq_queue (ctx_log_call f c) = cx_irq_queue c" "cx_log (ctx_log_call f c) = snd (f (cx_log c))"
  by (simp_all add: ctx_log_call_def ctx_record_def split: prod.split res.split option.split)

lemma ctx_log_call_fault [simp]:
  "cx_log_fault (ctx_log_call f c) = (case cx_log_fault c of
     Some e \<Rightarrow> Some e | None \<Rightarrow> (case fst (f (cx_log c)) of Err e \<Rightarrow> Some e | _ \<Rightarrow> None))"
  by (cases "f (cx_log c)"; cases "fst (f (cx_log c))"; cases "cx_log_fault c")
    (auto simp: ctx_log_call_def ctx_record_def)

lemma logged_refl:
  "cx_icount c' = cx_icount c \<Longrightarrow> cx_boundary_rip c' = cx_boundary_rip c \<Longrightarrow> cx_log c' = cx_log c
   \<Longrightarrow> cx_log_fault c' = cx_log_fault c \<Longrightarrow> logged [] c c'"
  by (simp add: logged_def)

lemma logged_trans: "logged ops c c' \<Longrightarrow> logged ops' c' c'' \<Longrightarrow> logged (ops @ ops') c c''"
  by (auto simp: logged_def)

lemma logged_call:
  "op_boundary op = (cx_icount c, cx_boundary_rip c) \<Longrightarrow> logged [op] c (ctx_log_call (apply_op op) c)"
  by (simp add: logged_def)

lemma apply_op_fun:
  "dev_event i b dev ev data = apply_op (OpDevEvent i b dev ev data)"
  "pio_answer i b port v = apply_op (OpPioAnswer i b port v)"
  "entropy i b len dig = apply_op (OpEntropy i b len dig)"
  "net_tx i b len dig = apply_op (OpNetTx i b len dig)"
  "sdk_event i b st len dig = apply_op (OpSdkEvent i b st len dig)"
  "frame_mark i b f = apply_op (OpFrameMark i b f)"
  by (simp_all add: fun_eq_iff)

lemmas ctx_log_defs = log_dev_event_def log_pio_answer_def log_entropy_def log_net_tx_def
  log_frame_mark_def log_sdk_event_def

lemma logged_wrappers:
  "logged [OpDevEvent (cx_icount c) (cx_boundary_rip c) dev ev data] c (log_dev_event dev ev data c)"
  "logged [OpPioAnswer (cx_icount c) (cx_boundary_rip c) port v] c (log_pio_answer port v c)"
  "logged [OpEntropy (cx_icount c) (cx_boundary_rip c) len dig] c (log_entropy len dig c)"
  "logged [OpNetTx (cx_icount c) (cx_boundary_rip c) len dig] c (log_net_tx len dig c)"
  "logged [OpFrameMark (cx_icount c) (cx_boundary_rip c) f] c (log_frame_mark f c)"
  "logged [OpSdkEvent (cx_icount c) (cx_boundary_rip c) st len dig] c (log_sdk_event st len dig c)"
  unfolding ctx_log_defs apply_op_fun by (rule logged_call; simp)+

text \<open>No record is dropped unnoticed: the fault stays clear exactly when every call succeeded.\<close>

primrec all_accepted :: "LogOp list \<Rightarrow> LogWriter \<Rightarrow> bool" where
  "all_accepted [] w = True"
| "all_accepted (op # ops) w = (fst (apply_op op w) = Ok () \<and> all_accepted ops (snd (apply_op op w)))"

lemma apply_op_not_panic: "fst (apply_op op w) \<noteq> Panic"
  using log_record_PanicD by (cases op)
    (auto simp: op_defs Let_def log_record_not_panic split: if_split prod.split res.split)

lemma fold_log_step_fault:
  "snd (fold log_step ops (w, Some e)) = Some e"
  by (induction ops arbitrary: w) auto

lemma fold_log_step_None: "snd (fold log_step ops (w, None)) = None \<longleftrightarrow> all_accepted ops w"
proof (induction ops arbitrary: w)
  case (Cons op ops)
  then show ?case
    using apply_op_not_panic [of op w] fold_log_step_fault
    by (cases "fst (apply_op op w)") auto
qed simp

lemma logged_fault_iff:
  "logged ops c c' \<Longrightarrow> cx_log_fault c = None \<Longrightarrow> cx_log_fault c' = None \<longleftrightarrow> all_accepted ops (cx_log c)"
  using fold_log_step_None [of ops "cx_log c"] by (auto simp: logged_def dest: arg_cong [of _ _ snd])

lemma logged_fault_sticky: "logged ops c c' \<Longrightarrow> cx_log_fault c = Some e \<Longrightarrow> cx_log_fault c' = Some e"
  using fold_log_step_fault [of ops "cx_log c" e] by (auto simp: logged_def dest: arg_cong [of _ _ snd])

section \<open>Tables in key order\<close>

text \<open>The entries of a hash map or B-tree map in the order of their keys, and the map they rebuild.\<close>

definition fm_entries :: "('k::linorder, 'v) fmap \<Rightarrow> ('k \<times> 'v) list" where
  "fm_entries m = map (\<lambda>k. (k, the (fmlookup m k))) (sorted_list_of_fset (fmdom m))"

definition fm_of :: "('k \<times> 'v) list \<Rightarrow> ('k, 'v) fmap \<Rightarrow> ('k, 'v) fmap" where
  "fm_of es m = fold (\<lambda>(k, v). fmupd k v) es m"

lemma fm_of_lookup:
  "distinct (map fst es) \<Longrightarrow> fmlookup (fm_of es m) k = (case map_of es k of Some c \<Rightarrow> Some c | None \<Rightarrow> fmlookup m k)"
proof (induction es arbitrary: m)
  case (Cons e es)
  moreover from Cons.prems have "map_of es (fst e) = None"
    by (simp add: map_of_eq_None_iff)
  ultimately show ?case
    by (cases e) (auto simp: fm_of_def split: option.split)
qed (simp add: fm_of_def)

lemma fm_entries_simps:
  "map fst (fm_entries m) = sorted_list_of_fset (fmdom m)"
  "length (fm_entries m) = fcard (fmdom m)"
  by (simp_all add: fm_entries_def comp_def sorted_list_of_fset.rep_eq fcard.rep_eq)

lemma sorted_fm_entries [simp]: "sorted_wrt (<) (map fst (fm_entries m))" "distinct (map fst (fm_entries m))"
  unfolding fm_entries_simps sorted_list_of_fset.rep_eq by simp_all

lemma set_fm_entries: "e \<in> set (fm_entries m) \<longleftrightarrow> fmlookup m (fst e) = Some (snd e)"
  by (cases e) (auto simp: fm_entries_def image_iff fmlookup_dom_iff intro: fmdomI)

lemma fm_of_entries: "fm_of (fm_entries m) fmempty = m"
proof (rule fmap_ext)
  fix k
  have "map_of (fm_entries m) k = fmlookup m k"
    by (auto simp: fm_entries_def map_of_map_restrict restrict_map_def fmlookup_dom_iff)
  then show "fmlookup (fm_of (fm_entries m) fmempty) k = fmlookup m k"
    by (simp add: fm_of_lookup split: option.split)
qed

section \<open>The snapshot contract of a device\<close>

text \<open>
  \<open>core\<close> is the state a section carries and \<open>frame\<close> the rest, which \<open>restore\<close> leaves to its
  target. A snapshot is a function of the core, restoring it transplants the core, and a
  refused section changes nothing. \<open>canonical_section\<close> adds that an accepted section is the
  snapshot of what it restored.
\<close>

locale det_section =
  fixes snap :: "'d \<Rightarrow> byte list"
    and rest :: "'d \<Rightarrow> byte list \<Rightarrow> u16 \<Rightarrow> (unit, RestoreError) res \<times> 'd"
    and version :: u16
    and wf :: "'d \<Rightarrow> bool"
    and core :: "'d \<Rightarrow> 'c"
    and frame :: "'d \<Rightarrow> 'f"
  assumes restore_snapshot: "wf d \<Longrightarrow>
      fst (rest e (snap d) version) = Ok () \<and> core (snd (rest e (snap d) version)) = core d
      \<and> frame (snd (rest e (snap d) version)) = frame e"
    and restore_total: "fst (rest e b v) \<noteq> Panic"
    and restore_refused: "fst (rest e b v) \<noteq> Ok () \<Longrightarrow> snd (rest e b v) = e"
    and snapshot_core: "core d = core d' \<Longrightarrow> snap d = snap d'"
begin

lemma snapshot_inject: "wf d \<Longrightarrow> wf d' \<Longrightarrow> snap d = snap d' \<longleftrightarrow> core d = core d'"
  using restore_snapshot snapshot_core by metis

lemma resnapshot: "wf d \<Longrightarrow> snap (snd (rest e (snap d) version)) = snap d"
  using restore_snapshot snapshot_core by blast

end

locale canonical_section = det_section +
  assumes restore_accepts: "fst (rest e b v) = Ok () \<Longrightarrow> v = version \<and> snap (snd (rest e b v)) = b
      \<and> wf (snd (rest e b v))"
begin

lemma restore_iff: "fst (rest e b v) = Ok () \<longleftrightarrow> v = version \<and> (\<exists>d. wf d \<and> b = snap d)"
  using restore_accepts restore_snapshot by metis

end

end
