(* ===== verification/Pv_Blk.thy ===== *)
theory Pv_Blk
  imports Dev_Ctx
begin

text \<open>
  The block device, \<open>src/crates/dh-devices/src/blk.rs\<close>: a read-only base image behind a
  copy-on-write overlay of 64 KiB clusters. The base is an argument (\<open>BlockBaseOps\<close>, the trait
  \<open>BlockBase\<close>); the contract \<open>block_base\<close> says that it is an immutable byte string.

  The abstract device is a disk, a function from byte offsets to bytes: the read and write
  loops refine reading and updating a range of it.
\<close>

abbreviation DEVICE_ID_PV_BLK :: u16 where "DEVICE_ID_PV_BLK \<equiv> 0x0005"
abbreviation SECTOR_SIZE :: nat where "SECTOR_SIZE \<equiv> 512"
abbreviation CLUSTER_SIZE :: nat where "CLUSTER_SIZE \<equiv> 65536"
abbreviation SECTORS_PER_CLUSTER :: u64 where "SECTORS_PER_CLUSTER \<equiv> 128"
abbreviation BK_REG_SECTOR :: u64 where "BK_REG_SECTOR \<equiv> 0x08"
abbreviation BK_REG_BUF_GPA :: u64 where "BK_REG_BUF_GPA \<equiv> 0x10"
abbreviation BK_REG_COUNT :: u64 where "BK_REG_COUNT \<equiv> 0x18"
abbreviation BK_REG_CMD :: u64 where "BK_REG_CMD \<equiv> 0x1C"
abbreviation BK_REG_STATUS :: u64 where "BK_REG_STATUS \<equiv> 0x20"
abbreviation CMD_READ :: u32 where "CMD_READ \<equiv> 1"
abbreviation CMD_WRITE :: u32 where "CMD_WRITE \<equiv> 2"
abbreviation CMD_FLUSH :: u32 where "CMD_FLUSH \<equiv> 3"
abbreviation BK_STATUS_OK :: u32 where "BK_STATUS_OK \<equiv> 0"
abbreviation STATUS_BAD_REQUEST :: u32 where "STATUS_BAD_REQUEST \<equiv> 1"
abbreviation STATUS_MEM_FAULT :: u32 where "STATUS_MEM_FAULT \<equiv> 2"
abbreviation STATUS_HOST_IO :: u32 where "STATUS_HOST_IO \<equiv> 0xFE"
abbreviation BK_SECTION_VERSION :: u16 where "BK_SECTION_VERSION \<equiv> 1"
abbreviation SECTION_FIXED :: nat where "SECTION_FIXED \<equiv> 36"
abbreviation SECTION_PER_CLUSTER :: nat where "SECTION_PER_CLUSTER \<equiv> 65576"

record 'b BlockBaseOps =
  bb_len_bytes :: "'b \<Rightarrow> u64"
  bb_read_at :: "'b \<Rightarrow> u64 \<Rightarrow> byte list \<Rightarrow> bool \<times> byte list"

record 'b PvBlk =
  bk_base :: 'b
  bk_overlay :: "(u64, byte list) fmap"
  bk_sector :: u64
  bk_buf_gpa :: u64
  bk_count :: u32
  bk_status :: u32
  bk_host_io_errors :: u64

definition pv_blk_new :: "'b \<Rightarrow> 'b PvBlk" where
  "pv_blk_new base = \<lparr>bk_base = base, bk_overlay = fmempty, bk_sector = 0, bk_buf_gpa = 0, bk_count = 0,
     bk_status = BK_STATUS_OK, bk_host_io_errors = 0\<rparr>"

definition capacity_sectors :: "'b BlockBaseOps \<Rightarrow> 'b PvBlk \<Rightarrow> u64" where
  "capacity_sectors bo p = bb_len_bytes bo (bk_base p) div of_nat SECTOR_SIZE"

definition dirty_clusters :: "'b PvBlk \<Rightarrow> nat" where
  "dirty_clusters p = fcard (fmdom (bk_overlay p))"

text \<open>\<open>request_range\<close>: the multiplications are the checked ones of a debug build.\<close>

definition request_range :: "'b BlockBaseOps \<Rightarrow> 'b PvBlk \<Rightarrow> (u64 \<times> nat, u32) res" where
  "request_range bo p =
     (if bk_count p = 0 then Err STATUS_BAD_REQUEST
      else res_bind (ok_or (checked_add (bk_sector p) (ucast (bk_count p))) STATUS_BAD_REQUEST) (\<lambda>end_sector.
      if end_sector > capacity_sectors bo p then Err STATUS_BAD_REQUEST
      else res_bind (unwrap (checked_mul (bk_sector p) (of_nat SECTOR_SIZE))) (\<lambda>off.
        Ok (off, unat (bk_count p) * SECTOR_SIZE))))"

lemma within_less [simp]: "unat (off mod 65536 :: u64) < 65536"
  by (simp add: unat_mod)

text \<open>The loop of \<open>do_read\<close>: \<open>off += take\<close> and \<open>gpa += take\<close> panic on overflow.\<close>

function blk_read_loop ::
  "('m, 'e) DevEnv \<Rightarrow> 'b BlockBaseOps \<Rightarrow> 'b PvBlk \<Rightarrow> u64 \<Rightarrow> u64 \<Rightarrow> nat \<Rightarrow> ('m, 'e) DevCtx
   \<Rightarrow> (u32, unit) res \<times> ('m, 'e) DevCtx" where
  "blk_read_loop env bo p off gpa remaining ctx =
     (if remaining = 0 then (Ok BK_STATUS_OK, ctx)
      else let cluster = off div of_nat CLUSTER_SIZE;
               within = unat (off mod of_nat CLUSTER_SIZE);
               tak = min remaining (CLUSTER_SIZE - within)
        in case (case fmlookup (bk_overlay p) cluster of
                   Some c \<Rightarrow> (True, bslice c within (within + tak))
                 | None \<Rightarrow> bb_read_at bo (bk_base p) off (zeros tak)) of
             (False, _) \<Rightarrow> (Ok STATUS_HOST_IO, ctx)
           | (True, chunk) \<Rightarrow>
             (case env_mem_write env (cx_mem ctx) gpa chunk of
                (False, mem) \<Rightarrow> (Ok STATUS_MEM_FAULT, ctx\<lparr>cx_mem := mem\<rparr>)
              | (True, mem) \<Rightarrow>
                (case (checked_add off (of_nat tak), checked_add gpa (of_nat tak)) of
                   (Some off', Some gpa') \<Rightarrow>
                     blk_read_loop env bo p off' gpa' (remaining - tak) (ctx\<lparr>cx_mem := mem\<rparr>)
                 | _ \<Rightarrow> (Panic, ctx\<lparr>cx_mem := mem\<rparr>))))"
  by pat_completeness auto

termination
  by (relation "measure (\<lambda>(env, bo, p, off, gpa, remaining, ctx). remaining)") auto

declare blk_read_loop.simps [simp del]

definition blk_do_read ::
  "('m, 'e) DevEnv \<Rightarrow> 'b BlockBaseOps \<Rightarrow> 'b PvBlk \<times> ('m, 'e) DevCtx
   \<Rightarrow> (u32, unit) res \<times> 'b PvBlk \<times> ('m, 'e) DevCtx" where
  "blk_do_read env bo = (\<lambda>(p, ctx). case request_range bo p of
     Ok (off, remaining) \<Rightarrow>
       (case blk_read_loop env bo p off (bk_buf_gpa p) remaining ctx of (r, ctx) \<Rightarrow> (r, p, ctx))
   | Err s \<Rightarrow> (Ok s, p, ctx)
   | Panic \<Rightarrow> (Panic, p, ctx))"

function blk_write_loop ::
  "('m, 'e) DevEnv \<Rightarrow> 'b BlockBaseOps \<Rightarrow> u64 \<Rightarrow> u64 \<Rightarrow> nat \<Rightarrow> 'b PvBlk \<Rightarrow> ('m, 'e) DevCtx
   \<Rightarrow> (u32, unit) res \<times> 'b PvBlk" where
  "blk_write_loop env bo off gpa remaining p ctx =
     (if remaining = 0 then (Ok BK_STATUS_OK, p)
      else let cluster = off div of_nat CLUSTER_SIZE;
               within = unat (off mod of_nat CLUSTER_SIZE);
               tak = min remaining (CLUSTER_SIZE - within)
        in case (case fmlookup (bk_overlay p) cluster of
                   Some c \<Rightarrow> (True, c)
                 | None \<Rightarrow> bb_read_at bo (bk_base p) (cluster * of_nat CLUSTER_SIZE) (zeros CLUSTER_SIZE)) of
             (False, _) \<Rightarrow> (Ok STATUS_HOST_IO, p)
           | (True, c) \<Rightarrow>
             (case env_mem_read env (cx_mem ctx) gpa (bslice c within (within + tak)) of (ok, bs) \<Rightarrow>
               (let p = p\<lparr>bk_overlay := fmupd cluster (overwrite c within bs) (bk_overlay p)\<rparr> in
                if \<not> ok then (Ok STATUS_MEM_FAULT, p)
                else case (checked_add off (of_nat tak), checked_add gpa (of_nat tak)) of
                   (Some off', Some gpa') \<Rightarrow> blk_write_loop env bo off' gpa' (remaining - tak) p ctx
                 | _ \<Rightarrow> (Panic, p))))"
  by pat_completeness auto

termination
  by (relation "measure (\<lambda>(env, bo, off, gpa, remaining, p, ctx). remaining)") auto

declare blk_write_loop.simps [simp del]

definition blk_do_write ::
  "('m, 'e) DevEnv \<Rightarrow> 'b BlockBaseOps \<Rightarrow> 'b PvBlk \<times> ('m, 'e) DevCtx
   \<Rightarrow> (u32, unit) res \<times> 'b PvBlk \<times> ('m, 'e) DevCtx" where
  "blk_do_write env bo = (\<lambda>(p, ctx). case request_range bo p of
     Ok (off, remaining) \<Rightarrow>
       (case blk_write_loop env bo off (bk_buf_gpa p) remaining p ctx of (r, p) \<Rightarrow> (r, p, ctx))
   | Err s \<Rightarrow> (Ok s, p, ctx)
   | Panic \<Rightarrow> (Panic, p, ctx))"

definition blk_execute ::
  "('m, 'e) DevEnv \<Rightarrow> 'b BlockBaseOps \<Rightarrow> u32 \<Rightarrow> 'b PvBlk \<times> ('m, 'e) DevCtx
   \<Rightarrow> (unit, unit) res \<times> 'b PvBlk \<times> ('m, 'e) DevCtx" where
  "blk_execute env bo cmd = (\<lambda>(p, ctx).
     case (if cmd = CMD_READ then blk_do_read env bo (p, ctx)
           else if cmd = CMD_WRITE then blk_do_write env bo (p, ctx)
           else if cmd = CMD_FLUSH then (Ok BK_STATUS_OK, p, ctx)
           else (Ok STATUS_BAD_REQUEST, p, ctx)) of
       (Ok status, p, ctx) \<Rightarrow>
         (let p = p\<lparr>bk_status := status\<rparr> in
          if status = STATUS_HOST_IO then
            (case checked_add (bk_host_io_errors p) 1 of
               Some n \<Rightarrow> (Ok (), p\<lparr>bk_host_io_errors := n\<rparr>, ctx)
             | None \<Rightarrow> (Panic, p, ctx))
          else (Ok (), p, ctx))
     | (Err e, p, ctx) \<Rightarrow> (Err e, p, ctx)
     | (Panic, p, ctx) \<Rightarrow> (Panic, p, ctx))"

definition blk_mmio_read :: "u64 \<Rightarrow> nat \<Rightarrow> 'b PvBlk \<Rightarrow> byte list" where
  "blk_mmio_read off n p =
     (if off = BK_REG_SECTOR \<and> n = 8 then to_le (bk_sector p)
      else if off = BK_REG_BUF_GPA \<and> n = 8 then to_le (bk_buf_gpa p)
      else if off = BK_REG_COUNT \<and> n = 4 then to_le (bk_count p)
      else if off = BK_REG_STATUS \<and> n = 4 then to_le (bk_status p)
      else zeros n)"

definition blk_mmio_write ::
  "('m, 'e) DevEnv \<Rightarrow> 'b BlockBaseOps \<Rightarrow> u64 \<Rightarrow> byte list \<Rightarrow> 'b PvBlk \<times> ('m, 'e) DevCtx
   \<Rightarrow> (unit, unit) res \<times> 'b PvBlk \<times> ('m, 'e) DevCtx" where
  "blk_mmio_write env bo off data = (\<lambda>(p, ctx).
     if off = BK_REG_SECTOR \<and> length data = 8 then (Ok (), p\<lparr>bk_sector := from_le data\<rparr>, ctx)
     else if off = BK_REG_BUF_GPA \<and> length data = 8 then (Ok (), p\<lparr>bk_buf_gpa := from_le data\<rparr>, ctx)
     else if off = BK_REG_COUNT \<and> length data = 4 then (Ok (), p\<lparr>bk_count := from_le data\<rparr>, ctx)
     else if off = BK_REG_CMD \<and> length data = 4 then blk_execute env bo (from_le data) (p, ctx)
     else (Ok (), p, ctx))"

section \<open>The section codec\<close>

definition blk_cluster_entry :: "(byte list \<Rightarrow> byte list) \<Rightarrow> u64 \<times> byte list \<Rightarrow> byte list" where
  "blk_cluster_entry blake3 = (\<lambda>(idx, c). to_le idx @ blake3 c @ c)"

definition blk_snapshot :: "(byte list \<Rightarrow> byte list) \<Rightarrow> 'b PvBlk \<Rightarrow> byte list" where
  "blk_snapshot blake3 p =
     (let entries = fm_entries (bk_overlay p) in
      to_le (bk_sector p) @ to_le (bk_buf_gpa p) @ to_le (bk_count p) @ to_le (bk_status p)
      @ to_le (bk_host_io_errors p) @ to_le (of_nat (length entries) :: u32)
      @ concat (map (blk_cluster_entry blake3) entries))"

primrec blk_restore_clusters ::
  "(byte list \<Rightarrow> byte list) \<Rightarrow> byte list \<Rightarrow> nat \<Rightarrow> nat \<Rightarrow> (u64, byte list) fmap
   \<Rightarrow> ((u64, byte list) fmap, RestoreError) res" where
  "blk_restore_clusters blake3 bytes 0 at overlay = Ok overlay"
| "blk_restore_clusters blake3 bytes (Suc n) at overlay =
     res_bind (rd_u64 bytes at) (\<lambda>idx.
     res_bind (slice_res bytes (at + 8) (at + 40)) (\<lambda>digest.
     res_bind (slice_res bytes (at + 40) (at + 40 + CLUSTER_SIZE)) (\<lambda>data.
     if blake3 data \<noteq> digest then Err RestoreError
     else blk_restore_clusters blake3 bytes n (at + SECTION_PER_CLUSTER) (fmupd idx data overlay))))"

definition blk_restore ::
  "(byte list \<Rightarrow> byte list) \<Rightarrow> 'b PvBlk \<Rightarrow> byte list \<Rightarrow> u16 \<Rightarrow> (unit, RestoreError) res \<times> 'b PvBlk" where
  "blk_restore blake3 p bytes sec_version =
     (if sec_version \<noteq> BK_SECTION_VERSION \<or> length bytes < SECTION_FIXED then (Err RestoreError, p)
      else let n = unat (from_le (bslice bytes 32 36) :: u32) in
        if length bytes \<noteq> SECTION_FIXED + n * SECTION_PER_CLUSTER then (Err RestoreError, p)
        else case blk_restore_clusters blake3 bytes n SECTION_FIXED fmempty of
          Ok overlay \<Rightarrow>
            (Ok (), p\<lparr>bk_sector := from_le (bslice bytes 0 8), bk_buf_gpa := from_le (bslice bytes 8 16),
                      bk_count := from_le (bslice bytes 16 20), bk_status := from_le (bslice bytes 20 24),
                      bk_host_io_errors := from_le (bslice bytes 24 32), bk_overlay := overlay\<rparr>)
        | Err e \<Rightarrow> (Err e, p)
        | Panic \<Rightarrow> (Panic, p))"

section \<open>The disk\<close>

definition disk :: "(nat \<Rightarrow> byte) \<Rightarrow> (u64, byte list) fmap \<Rightarrow> nat \<Rightarrow> byte" where
  "disk content ov i = (case fmlookup ov (of_nat (i div CLUSTER_SIZE)) of
     Some c \<Rightarrow> c ! (i mod CLUSTER_SIZE) | None \<Rightarrow> content i)"

definition clusters_ok :: "(u64, byte list) fmap \<Rightarrow> bool" where
  "clusters_ok ov \<longleftrightarrow> (\<forall>k c. fmlookup ov k = Some c \<longrightarrow> length c = CLUSTER_SIZE)"

lemma overwrite_append:
  "overwrite (overwrite m i xs) (i + length xs) ys = overwrite m i (xs @ ys)" if "i + length xs \<le> length m"
  using that by (simp add: overwrite_def add.commute add.left_commute)

text \<open>Offsets of one cluster.\<close>

lemma cluster_split:
  fixes off :: u64
  assumes "i < CLUSTER_SIZE - unat off mod CLUSTER_SIZE"
  shows "(unat off + i) div CLUSTER_SIZE = unat off div CLUSTER_SIZE"
    "(unat off + i) mod CLUSTER_SIZE = unat off mod CLUSTER_SIZE + i"
proof -
  have "unat off + i = CLUSTER_SIZE * (unat off div CLUSTER_SIZE) + (unat off mod CLUSTER_SIZE + i)"
    by simp
  moreover have "unat off mod CLUSTER_SIZE + i < CLUSTER_SIZE" using assms by simp
  ultimately show "(unat off + i) div CLUSTER_SIZE = unat off div CLUSTER_SIZE"
    "(unat off + i) mod CLUSTER_SIZE = unat off mod CLUSTER_SIZE + i"
    by (metis div_mult_self4 div_less add.right_neutral zero_neq_numeral,
        metis mod_mult_self4 mod_less)
qed

lemma of_nat_unat_div [simp]: "(of_nat (unat (off :: u64) div CLUSTER_SIZE) :: u64) = off div 65536"
proof -
  have "unat off div CLUSTER_SIZE < 2 ^ LENGTH(64)"
    using div_le_dividend unat_lt_pow le_less_trans by blast
  then show ?thesis
    by (simp add: word_unat_eq_iff unat_div)
qed

lemma chunk_is_disk:
  assumes ov: "clusters_ok ov" and tak: "tak \<le> CLUSTER_SIZE - unat (off mod 65536)"
  shows "(case fmlookup ov (off div 65536) of
      Some c \<Rightarrow> (True, bslice c (unat (off mod 65536)) (unat (off mod 65536) + tak))
    | None \<Rightarrow> (True, map content [unat off..<unat off + tak]))
    = (True, map (disk content ov) [unat off..<unat off + tak])"
proof -
  have "disk content ov (unat off + i) = (case fmlookup ov (off div 65536) of
      Some c \<Rightarrow> c ! (unat off mod CLUSTER_SIZE + i) | None \<Rightarrow> content (unat off + i))" if "i < tak" for i
    using that tak cluster_split [of i off] by (simp add: disk_def unat_mod split: option.split)
  then have d: "map (disk content ov) [unat off..<unat off + tak] = (case fmlookup ov (off div 65536) of
      Some c \<Rightarrow> map (\<lambda>i. c ! (unat off mod CLUSTER_SIZE + i)) [0..<tak]
    | None \<Rightarrow> map content [unat off..<unat off + tak])"
    by (intro nth_equalityI) (simp_all split: option.split)
  have "bslice c (unat off mod CLUSTER_SIZE) (unat off mod CLUSTER_SIZE + tak) =
      map (\<lambda>i. c ! (unat off mod CLUSTER_SIZE + i)) [0..<tak]" if "length c = CLUSTER_SIZE" for c :: "byte list"
    using that tak by (auto simp: bslice_def unat_mod intro!: nth_equalityI)
  with ov show ?thesis
    unfolding d by (auto simp: clusters_ok_def unat_mod split: option.split)
qed

lemma checked_add_fits:
  "unat (a :: u64) + n < 2 ^ 64 \<Longrightarrow> \<exists>b. checked_add a (of_nat n) = Some b \<and> unat b = unat a + n"
  by (auto simp: checked_add_def unat_word_ariths)

text \<open>
  The read loop on memory \<open>mem\<close> that holds the whole buffer: it copies the disk's range. On a
  memory too short for it the loop stops with the memory fault.
\<close>

lemma overwrite_Nil [simp]: "overwrite m i [] = m"
  by (simp add: overwrite_def)

lemma read_loop_disk:
  assumes base: "\<And>off buf. bb_read_at bo (bk_base p) off buf = (True, map content [unat off..<unat off + length buf])"
    and env: "env_mem_write env = vec_mem_write"
    and ov: "clusters_ok (bk_overlay p)"
    and "unat off + remaining < 2 ^ 64" and "length (cx_mem ctx) < 2 ^ 64"
  shows "if unat gpa + remaining \<le> length (cx_mem ctx) \<or> remaining = 0
    then blk_read_loop env bo p off gpa remaining ctx = (Ok BK_STATUS_OK, ctx\<lparr>cx_mem :=
        overwrite (cx_mem ctx) (unat gpa) (map (disk content (bk_overlay p)) [unat off..<unat off + remaining])\<rparr>)
    else fst (blk_read_loop env bo p off gpa remaining ctx) = Ok STATUS_MEM_FAULT"
  using assms(4,5)
proof (induction remaining arbitrary: off gpa ctx rule: less_induct)
  case (less remaining)
  show ?case
  proof (cases "remaining = 0")
    case True
    then show ?thesis by (simp add: blk_read_loop.simps)
  next
    case False
    define tak where "tak = min remaining (CLUSTER_SIZE - unat (off mod 65536))"
    have tak: "0 < tak" "tak \<le> remaining" "tak \<le> CLUSTER_SIZE - unat (off mod 65536)"
      using False within_less [of off] by (auto simp: tak_def)
    let ?D = "map (disk content (bk_overlay p))"
    let ?chunk = "?D [unat off..<unat off + tak]"
    obtain off' where off': "checked_add off (of_nat tak) = Some off'" "unat off' = unat off + tak"
      using checked_add_fits [of off tak] less.prems tak by auto
    have step: "blk_read_loop env bo p off gpa remaining ctx =
      (case vec_mem_write (cx_mem ctx) gpa ?chunk of
         (False, mem) \<Rightarrow> (Ok STATUS_MEM_FAULT, ctx\<lparr>cx_mem := mem\<rparr>)
       | (True, mem) \<Rightarrow>
         (case (Some off', checked_add gpa (of_nat tak)) of
            (Some off', Some gpa') \<Rightarrow> blk_read_loop env bo p off' gpa' (remaining - tak) (ctx\<lparr>cx_mem := mem\<rparr>)
          | _ \<Rightarrow> (Panic, ctx\<lparr>cx_mem := mem\<rparr>)))"
      using False chunk_is_disk [OF ov tak(3), of content]
      by (subst blk_read_loop.simps)
        (simp add: base env Let_def off' flip: tak_def
          cong: option.case_cong prod.case_cong bool.case_cong)
    show ?thesis
    proof (cases "unat gpa + tak \<le> length (cx_mem ctx)")
      case False
      with step tak show ?thesis by (simp add: vec_mem_write_def)
    next
      case True
      obtain gpa' where gpa': "checked_add gpa (of_nat tak) = Some gpa'" "unat gpa' = unat gpa + tak"
        using checked_add_fits [of gpa tak] less.prems True by auto
      let ?ctx = "ctx\<lparr>cx_mem := overwrite (cx_mem ctx) (unat gpa) ?chunk\<rparr>"
      have l: "length (cx_mem ?ctx) = length (cx_mem ctx)" using True by simp
      have s: "blk_read_loop env bo p off gpa remaining ctx = blk_read_loop env bo p off' gpa' (remaining - tak) ?ctx"
        using step True by (simp add: vec_mem_write_def gpa')
      have "[unat off..<unat off + remaining] = [unat off..<unat off + tak] @ [unat off'..<unat off' + (remaining - tak)]"
        using upt_add_eq_append [of "unat off" "unat off + tak" "remaining - tak"] tak off' by simp
      then have j: "overwrite (overwrite (cx_mem ctx) (unat gpa) ?chunk) (unat gpa') (?D [unat off'..<unat off' + (remaining - tak)])
          = overwrite (cx_mem ctx) (unat gpa) (?D [unat off..<unat off + remaining])"
        using overwrite_append [of "unat gpa" ?chunk "cx_mem ctx"] True gpa' by simp
      from less.IH [of "remaining - tak" off' ?ctx gpa'] less.prems tak off' l j gpa' True show ?thesis
        unfolding s by (auto split: if_splits)
    qed
  qed
qed

lemma read_loop_frame: "\<exists>mem. snd (blk_read_loop env bo p off gpa remaining ctx) = ctx\<lparr>cx_mem := mem\<rparr>"
proof (induction remaining arbitrary: off gpa ctx rule: less_induct)
  case (less remaining)
  have k: "\<exists>mem. ctx = ctx\<lparr>cx_mem := mem\<rparr>" by (rule exI [of _ "cx_mem ctx"]) simp
  show ?case
  proof (cases "remaining = 0")
    case True
    with k show ?thesis by (simp add: blk_read_loop.simps)
  next
    case False
    define tak where "tak = min remaining (CLUSTER_SIZE - unat (off mod 65536))"
    have tak: "remaining - tak < remaining"
      using False within_less [of off] by (auto simp: tak_def)
    have ih: "\<exists>m. snd (blk_read_loop env bo p off' gpa' (remaining - tak) (ctx\<lparr>cx_mem := mem\<rparr>)) = ctx\<lparr>cx_mem := m\<rparr>"
      for off' gpa' mem
      using less.IH [OF tak, of off' gpa' "ctx\<lparr>cx_mem := mem\<rparr>"] by simp
    show ?thesis
      using False k ih
      by (subst blk_read_loop.simps)
        (auto simp: Let_def simp flip: tak_def split: prod.split bool.split option.split)
  qed
qed

text \<open>One cluster update is an update of the disk's range.\<close>

lemma disk_upd:
  fixes off :: u64
  assumes c: "length c = CLUSTER_SIZE"
      "\<And>k. k < CLUSTER_SIZE \<Longrightarrow> c ! k = disk content ov (unat off div CLUSTER_SIZE * CLUSTER_SIZE + k)"
    and bs: "unat off mod CLUSTER_SIZE + length bs \<le> CLUSTER_SIZE" and i: "i < 2 ^ 64"
  shows "disk content (fmupd (off div 65536) (overwrite c (unat off mod CLUSTER_SIZE) bs) ov) i =
    (if unat off \<le> i \<and> i < unat off + length bs then bs ! (i - unat off) else disk content ov i)"
proof (cases "i div CLUSTER_SIZE = unat off div CLUSTER_SIZE")
  case True
  let ?q = "unat off div CLUSTER_SIZE" and ?w = "unat off mod CLUSTER_SIZE" and ?r = "i mod CLUSTER_SIZE"
  have o: "unat off = ?q * CLUSTER_SIZE + ?w" and r: "i = ?q * CLUSTER_SIZE + ?r"
    using div_mult_mod_eq [of i CLUSTER_SIZE] True by simp_all
  have "disk content (fmupd (off div 65536) (overwrite c ?w bs) ov) i = overwrite c ?w bs ! ?r"
    using True by (simp add: disk_def)
  also have "\<dots> = (if ?w \<le> ?r \<and> ?r < ?w + length bs then bs ! (?r - ?w) else disk content ov i)"
    using c bs r by (simp add: nth_overwrite)
  also have "?w \<le> ?r \<longleftrightarrow> unat off \<le> i"
    using o r by linarith
  also have "?r < ?w + length bs \<longleftrightarrow> i < unat off + length bs"
    using o r by linarith
  also have "?r - ?w = i - unat off"
    using o r by linarith
  finally show ?thesis .
next
  case False
  have "unat (of_nat (i div CLUSTER_SIZE) :: u64) = i div CLUSTER_SIZE"
    using i by (simp add: less_mult_imp_div_less)
  with False have ne: "(of_nat (i div CLUSTER_SIZE) :: u64) \<noteq> off div 65536"
    by (auto simp: word_unat_eq_iff unat_div)
  have "\<not> (unat off \<le> i \<and> i < unat off + length bs)"
  proof
    assume a: "unat off \<le> i \<and> i < unat off + length bs"
    then have "i - unat off < CLUSTER_SIZE - unat off mod CLUSTER_SIZE"
      using bs by linarith
    from cluster_split(1) [OF this] a False show False by simp
  qed
  with ne show ?thesis by (auto simp: disk_def)
qed

lemma unat_cluster_base: "unat (off div 65536 * 65536 :: u64) = unat off div CLUSTER_SIZE * CLUSTER_SIZE"
proof -
  have "unat off div CLUSTER_SIZE * CLUSTER_SIZE \<le> unat off" by simp
  then have "unat off div CLUSTER_SIZE * CLUSTER_SIZE < 2 ^ 64"
    using unat_lt_pow [of off] by simp
  then show ?thesis by (simp add: unat_word_ariths unat_div)
qed

text \<open>The cluster the write loop works on: the overlay's, or the base's on the first write.\<close>

lemma write_cluster:
  fixes off :: u64
  assumes base: "\<And>off buf. rd off buf = (True, map content [unat off..<unat off + length buf])"
    and ov: "clusters_ok ov"
  obtains c where "(case fmlookup ov (off div 65536) of Some c \<Rightarrow> (True, c)
      | None \<Rightarrow> rd (off div 65536 * 65536) (zeros CLUSTER_SIZE)) = (True, c)"
    "length c = CLUSTER_SIZE"
    "\<forall>k < CLUSTER_SIZE. c ! k = disk content ov (unat off div CLUSTER_SIZE * CLUSTER_SIZE + k)"
proof (cases "fmlookup ov (off div 65536)")
  case None
  show ?thesis
    by (rule that [of "map content [unat off div CLUSTER_SIZE * CLUSTER_SIZE..<unat off div CLUSTER_SIZE * CLUSTER_SIZE + CLUSTER_SIZE]"])
      (simp_all add: None base unat_cluster_base disk_def)
next
  case (Some c)
  show ?thesis
    by (rule that [of c]) (use Some ov in \<open>auto simp: clusters_ok_def disk_def\<close>)
qed

lemma write_loop_disk:
  assumes env: "env_mem_read env = vec_mem_read" and mem: "length (cx_mem ctx) < 2 ^ 64"
    and "\<And>off buf. bb_read_at bo (bk_base p) off buf = (True, map content [unat off..<unat off + length buf])"
    and "clusters_ok (bk_overlay p)" and "unat off + remaining < 2 ^ 64"
  shows "\<exists>r ov. blk_write_loop env bo off gpa remaining p ctx = (r, p\<lparr>bk_overlay := ov\<rparr>) \<and> clusters_ok ov
    \<and> (if unat gpa + remaining \<le> length (cx_mem ctx) \<or> remaining = 0
       then r = Ok BK_STATUS_OK \<and> (\<forall>i < 2 ^ 64. disk content ov i =
          (if unat off \<le> i \<and> i < unat off + remaining then cx_mem ctx ! (unat gpa + (i - unat off))
           else disk content (bk_overlay p) i))
       else r = Ok STATUS_MEM_FAULT)"
  using assms(3-)
proof (induction remaining arbitrary: off gpa p rule: less_induct)
  case (less remaining)
  note base = less.prems(1) and ov = less.prems(2)
  show ?case
  proof (cases "remaining = 0")
    case True
    then show ?thesis
      using ov by (intro exI [of _ "Ok BK_STATUS_OK"] exI [of _ "bk_overlay p"]) (auto simp: blk_write_loop.simps)
  next
    case False
    define tak where "tak = min remaining (CLUSTER_SIZE - unat (off mod 65536))"
    have tak: "0 < tak" "tak \<le> remaining" "unat off mod CLUSTER_SIZE + tak \<le> CLUSTER_SIZE"
      using False within_less [of off] by (auto simp: tak_def unat_mod)
    obtain c where c: "(case fmlookup (bk_overlay p) (off div 65536) of Some c \<Rightarrow> (True, c)
        | None \<Rightarrow> bb_read_at bo (bk_base p) (off div 65536 * 65536) (zeros CLUSTER_SIZE)) = (True, c)"
      "length c = CLUSTER_SIZE"
      "\<forall>k < CLUSTER_SIZE. c ! k = disk content (bk_overlay p) (unat off div CLUSTER_SIZE * CLUSTER_SIZE + k)"
      by (rule write_cluster [of "bb_read_at bo (bk_base p)", OF base ov, of off])
    obtain off' where off': "checked_add off (of_nat tak) = Some off'" "unat off' = unat off + tak"
      using checked_add_fits [of off tak] less.prems tak by auto
    let ?w = "unat off mod CLUSTER_SIZE"
    let ?up = "\<lambda>bs. p\<lparr>bk_overlay := fmupd (off div 65536) (overwrite c ?w bs) (bk_overlay p)\<rparr>"
    have w: "?w = unat (off mod 65536)" by (simp add: unat_mod)
    have step: "blk_write_loop env bo off gpa remaining p ctx =
      (case vec_mem_read (cx_mem ctx) gpa (bslice c ?w (?w + tak)) of (ok, bs) \<Rightarrow>
         if \<not> ok then (Ok STATUS_MEM_FAULT, ?up bs)
         else case checked_add gpa (of_nat tak) of
             Some gpa' \<Rightarrow> blk_write_loop env bo off' gpa' (remaining - tak) (?up bs) ctx
           | None \<Rightarrow> (Panic, ?up bs))"
      using False c(1)
      by (subst blk_write_loop.simps)
        (simp add: env Let_def off' w flip: tak_def
          cong: option.case_cong prod.case_cong bool.case_cong if_cong)
    have okup: "clusters_ok (bk_overlay (?up bs))" if "length bs = tak" for bs
      using ov c(2) tak that by (auto simp: clusters_ok_def)
    show ?thesis
    proof (cases "unat gpa + tak \<le> length (cx_mem ctx)")
      case False
      with step okup [of "bslice c ?w (?w + tak)"] c(2) tak show ?thesis
        by (auto simp: vec_mem_read_def)
    next
      case True
      obtain gpa' where gpa': "checked_add gpa (of_nat tak) = Some gpa'" "unat gpa' = unat gpa + tak"
        using checked_add_fits [of gpa tak] mem True by auto
      define bs where "bs = bslice (cx_mem ctx) (unat gpa) (unat gpa + tak)"
      have bs: "length bs = tak" "\<And>k. k < tak \<Longrightarrow> bs ! k = cx_mem ctx ! (unat gpa + k)"
        using True by (auto simp: bs_def bslice_def)
      have s: "blk_write_loop env bo off gpa remaining p ctx =
          blk_write_loop env bo off' gpa' (remaining - tak) (?up bs) ctx"
        using step True c(2) tak by (simp add: vec_mem_read_def gpa' bs_def)
      obtain r ov' where ih: "blk_write_loop env bo off' gpa' (remaining - tak) (?up bs) ctx = (r, p\<lparr>bk_overlay := ov'\<rparr>)"
        "clusters_ok ov'"
        "if unat gpa' + (remaining - tak) \<le> length (cx_mem ctx) \<or> remaining - tak = 0
         then r = Ok BK_STATUS_OK \<and> (\<forall>i < 2 ^ 64. disk content ov' i =
            (if unat off' \<le> i \<and> i < unat off' + (remaining - tak) then cx_mem ctx ! (unat gpa' + (i - unat off'))
             else disk content (bk_overlay (?up bs)) i))
         else r = Ok STATUS_MEM_FAULT"
        using less.IH [of "remaining - tak" "?up bs" off' gpa'] base okup [OF bs(1)] less.prems(3) tak off' by auto
      have d: "disk content (bk_overlay (?up bs)) i =
          (if unat off \<le> i \<and> i < unat off + tak then cx_mem ctx ! (unat gpa + (i - unat off))
           else disk content (bk_overlay p) i)" if "i < 2 ^ 64" for i
        using disk_upd [OF c(2) c(3) [rule_format], of bs i] that tak(3) bs by auto
      show ?thesis
      proof (intro exI conjI)
        show "blk_write_loop env bo off gpa remaining p ctx = (r, p\<lparr>bk_overlay := ov'\<rparr>)"
          using s ih(1) by simp
        show "clusters_ok ov'" by (rule ih(2))
        show "if unat gpa + remaining \<le> length (cx_mem ctx) \<or> remaining = 0
         then r = Ok BK_STATUS_OK \<and> (\<forall>i < 2 ^ 64. disk content ov' i =
            (if unat off \<le> i \<and> i < unat off + remaining then cx_mem ctx ! (unat gpa + (i - unat off))
             else disk content (bk_overlay p) i))
         else r = Ok STATUS_MEM_FAULT"
          using ih(3) d off' gpa' tak True by (auto simp: le_diff_conv2)
      qed
    qed
  qed
qed

section \<open>Requests\<close>

definition in_range :: "u64 \<Rightarrow> 'b PvBlk \<Rightarrow> bool" where
  "in_range len p \<longleftrightarrow> bk_count p \<noteq> 0
     \<and> unat (bk_sector p) * SECTOR_SIZE + unat (bk_count p) * SECTOR_SIZE \<le> unat len"

lemma le_div_sector: "m \<le> n div SECTOR_SIZE \<longleftrightarrow> m * SECTOR_SIZE \<le> n"
  by (simp add: less_eq_div_iff_mult_less_eq)

lemma request_range_in:
  assumes "in_range (bb_len_bytes bo (bk_base p)) p"
  obtains off where "request_range bo p = Ok (off, unat (bk_count p) * SECTOR_SIZE)"
    "unat off = unat (bk_sector p) * SECTOR_SIZE"
    "unat off + unat (bk_count p) * SECTOR_SIZE \<le> unat (bb_len_bytes bo (bk_base p))"
proof -
  let ?len = "unat (bb_len_bytes bo (bk_base p))" and ?s = "unat (bk_sector p)" and ?n = "unat (bk_count p)"
  have u: "unat (ucast (bk_count p) :: u64) = ?n"
    using unat_lt_pow [of "bk_count p"] by (simp add: unsigned_ucast_eq take_bit_nat_eq_self)
  from assms have le: "?s * 512 + ?n * 512 \<le> ?len" "bk_count p \<noteq> 0" by (simp_all add: in_range_def)
  with unat_lt_pow [of "bb_len_bytes bo (bk_base p)"] have b: "?s * 512 + ?n * 512 < 2 ^ 64" by simp
  obtain e where e: "checked_add (bk_sector p) (ucast (bk_count p)) = Some e" "unat e = ?s + ?n"
    using b u checked_add_Some_iff [of "bk_sector p" "ucast (bk_count p)"]
    by (auto simp: checked_add_def unat_word_ariths)
  have "unat e \<le> ?len div 512"
    using le unfolding le_div_sector e(2) by (simp add: add_mult_distrib)
  then have "e \<le> capacity_sectors bo p"
    by (simp add: capacity_sectors_def word_le_nat_alt unat_div)
  moreover obtain off where "checked_mul (bk_sector p) 512 = Some off" "unat off = ?s * 512"
    using b by (auto simp: checked_mul_def unat_word_ariths)
  ultimately show ?thesis
    using that [of off] e(1) le by (simp add: request_range_def leD)
qed

lemma request_range_out:
  assumes "\<not> in_range (bb_len_bytes bo (bk_base p)) p"
  shows "request_range bo p = Err STATUS_BAD_REQUEST"
proof -
  let ?len = "unat (bb_len_bytes bo (bk_base p))" and ?s = "unat (bk_sector p)" and ?n = "unat (bk_count p)"
  have u: "unat (ucast (bk_count p) :: u64) = ?n"
    using unat_lt_pow [of "bk_count p"] by (simp add: unsigned_ucast_eq take_bit_nat_eq_self)
  have "end_sector > capacity_sectors bo p"
    if "checked_add (bk_sector p) (ucast (bk_count p)) = Some end_sector" "bk_count p \<noteq> 0" for end_sector
  proof (rule ccontr)
    assume "\<not> end_sector > capacity_sectors bo p"
    then have "?s + ?n \<le> ?len div 512"
      using that u by (auto simp: capacity_sectors_def word_less_nat_alt unat_div checked_add_Some_iff)
    with assms that show False
      unfolding le_div_sector by (simp add: in_range_def add_mult_distrib)
  qed
  then show ?thesis
    by (cases "checked_add (bk_sector p) (ucast (bk_count p) :: u64)")
      (auto simp: request_range_def)
qed

text \<open>The contract of the base image, and the device over any base that keeps it.\<close>

definition disk_read :: "nat \<Rightarrow> nat \<Rightarrow> nat \<Rightarrow> (nat \<Rightarrow> byte) \<Rightarrow> byte list \<Rightarrow> byte list" where
  "disk_read off n gpa d mem = overwrite mem gpa (map d [off..<off + n])"

definition disk_write :: "nat \<Rightarrow> nat \<Rightarrow> nat \<Rightarrow> byte list \<Rightarrow> (nat \<Rightarrow> byte) \<Rightarrow> nat \<Rightarrow> byte" where
  "disk_write off n gpa mem d i = (if off \<le> i \<and> i < off + n then mem ! (gpa + (i - off)) else d i)"

abbreviation blk_off :: "'b PvBlk \<Rightarrow> nat" where "blk_off p \<equiv> unat (bk_sector p) * SECTOR_SIZE"
abbreviation blk_len :: "'b PvBlk \<Rightarrow> nat" where "blk_len p \<equiv> unat (bk_count p) * SECTOR_SIZE"
abbreviation buffer_ok :: "'b PvBlk \<Rightarrow> byte list \<Rightarrow> bool" where
  "buffer_ok p mem \<equiv> unat (bk_buf_gpa p) + blk_len p \<le> length mem"

locale block_base =
  fixes bo :: "'b BlockBaseOps"
    and content :: "'b \<Rightarrow> nat \<Rightarrow> byte"
    and good :: "'b \<Rightarrow> bool"
  assumes read_content: "good b \<Longrightarrow> bb_read_at bo b off buf = (True, map (content b) [unat off..<unat off + length buf])"
begin

lemma execute_read:
  assumes g: "good (bk_base p)" "clusters_ok (bk_overlay p)"
    and env: "env_mem_write env = vec_mem_write" and mem: "length (cx_mem ctx) < 2 ^ 64"
  shows "\<exists>status mem'. blk_execute env bo CMD_READ (p, ctx) = (Ok (), p\<lparr>bk_status := status\<rparr>, ctx\<lparr>cx_mem := mem'\<rparr>)
    \<and> (if \<not> in_range (bb_len_bytes bo (bk_base p)) p then status = STATUS_BAD_REQUEST \<and> mem' = cx_mem ctx
       else if buffer_ok p (cx_mem ctx) then status = BK_STATUS_OK
         \<and> mem' = disk_read (blk_off p) (blk_len p) (unat (bk_buf_gpa p)) (disk (content (bk_base p)) (bk_overlay p)) (cx_mem ctx)
       else status = STATUS_MEM_FAULT)"
proof (cases "in_range (bb_len_bytes bo (bk_base p)) p")
  case False
  then show ?thesis
    by (intro exI [of _ STATUS_BAD_REQUEST] exI [of _ "cx_mem ctx"])
      (simp add: blk_execute_def blk_do_read_def request_range_out)
next
  case True
  obtain off where off: "request_range bo p = Ok (off, blk_len p)" "unat off = blk_off p"
    "unat off + blk_len p \<le> unat (bb_len_bytes bo (bk_base p))"
    by (rule request_range_in [OF True])
  have n: "blk_len p \<noteq> 0" using True by (simp add: in_range_def unat_eq_zero)
  have "unat off + blk_len p < 2 ^ 64"
    using off(3) unat_lt_pow [of "bb_len_bytes bo (bk_base p)"] by simp
  note loop = read_loop_disk [where content = "content (bk_base p)" and gpa = "bk_buf_gpa p", OF _ env g(2) this mem,
      of bo, OF read_content [OF g(1)]]
  have m: "\<exists>mem'. snd (blk_read_loop env bo p off (bk_buf_gpa p) (blk_len p) ctx) = ctx\<lparr>cx_mem := mem'\<rparr>"
    by (rule read_loop_frame)
  show ?thesis
  proof (cases "buffer_ok p (cx_mem ctx)")
    case True
    with loop \<open>in_range _ p\<close> off show ?thesis
      by (auto simp: blk_execute_def blk_do_read_def disk_read_def)
  next
    case False
    with loop m n \<open>in_range _ p\<close> off(1) show ?thesis
      by (cases "blk_read_loop env bo p off (bk_buf_gpa p) (blk_len p) ctx")
        (auto simp: blk_execute_def blk_do_read_def)
  qed
qed

lemma execute_write:
  assumes g: "good (bk_base p)" "clusters_ok (bk_overlay p)"
    and env: "env_mem_read env = vec_mem_read" and mem: "length (cx_mem ctx) < 2 ^ 64"
  shows "\<exists>status ov. blk_execute env bo CMD_WRITE (p, ctx) = (Ok (), p\<lparr>bk_overlay := ov, bk_status := status\<rparr>, ctx)
    \<and> clusters_ok ov
    \<and> (if \<not> in_range (bb_len_bytes bo (bk_base p)) p then status = STATUS_BAD_REQUEST \<and> ov = bk_overlay p
       else if buffer_ok p (cx_mem ctx) then status = BK_STATUS_OK
         \<and> (\<forall>i < 2 ^ 64. disk (content (bk_base p)) ov i =
             disk_write (blk_off p) (blk_len p) (unat (bk_buf_gpa p)) (cx_mem ctx) (disk (content (bk_base p)) (bk_overlay p)) i)
       else status = STATUS_MEM_FAULT)"
proof (cases "in_range (bb_len_bytes bo (bk_base p)) p")
  case False
  then show ?thesis
    using g by (intro exI [of _ STATUS_BAD_REQUEST] exI [of _ "bk_overlay p"])
      (simp add: blk_execute_def blk_do_write_def request_range_out)
next
  case True
  obtain off where off: "request_range bo p = Ok (off, blk_len p)" "unat off = blk_off p"
    "unat off + blk_len p \<le> unat (bb_len_bytes bo (bk_base p))"
    by (rule request_range_in [OF True])
  have n: "blk_len p \<noteq> 0" using True by (simp add: in_range_def unat_eq_zero)
  have "unat off + blk_len p < 2 ^ 64"
    using off(3) unat_lt_pow [of "bb_len_bytes bo (bk_base p)"] by simp
  from write_loop_disk [where content = "content (bk_base p)" and gpa = "bk_buf_gpa p", OF env mem read_content [OF g(1)] g(2) this]
  obtain r ov where "blk_write_loop env bo off (bk_buf_gpa p) (blk_len p) p ctx = (r, p\<lparr>bk_overlay := ov\<rparr>)" "clusters_ok ov"
    "if buffer_ok p (cx_mem ctx) \<or> blk_len p = 0 then r = Ok BK_STATUS_OK \<and> (\<forall>i < 2 ^ 64. disk (content (bk_base p)) ov i =
        (if unat off \<le> i \<and> i < unat off + blk_len p then cx_mem ctx ! (unat (bk_buf_gpa p) + (i - unat off))
         else disk (content (bk_base p)) (bk_overlay p) i))
     else r = Ok STATUS_MEM_FAULT"
    by auto
  with True off n show ?thesis
    by (auto simp: blk_execute_def blk_do_write_def disk_write_def split: if_splits)
qed

end

section \<open>The section round trip\<close>

definition blk_wf :: "(byte list \<Rightarrow> byte list) \<Rightarrow> 'b PvBlk \<Rightarrow> bool" where
  "blk_wf blake3 p \<longleftrightarrow> clusters_ok (bk_overlay p) \<and> dirty_clusters p < 2 ^ 32
     \<and> (\<forall>k c. fmlookup (bk_overlay p) k = Some c \<longrightarrow> length (blake3 c) = 32)"

lemma restore_clusters_entries:
  "(\<forall>(k, c) \<in> set es. length c = CLUSTER_SIZE \<and> length (blake3 c) = 32) \<Longrightarrow>
   blk_restore_clusters blake3 (pre @ concat (map (blk_cluster_entry blake3) es)) (length es) (length pre) ov
   = Ok (fm_of es ov)"
proof (induction es arbitrary: pre ov)
  case (Cons e es)
  obtain k c where e: "e = (k, c)" by fastforce
  have l: "length c = CLUSTER_SIZE" "length (blake3 c) = 32"
    using Cons.prems e by auto
  let ?pre = "pre @ blk_cluster_entry blake3 e"
  have "blk_restore_clusters blake3 (?pre @ concat (map (blk_cluster_entry blake3) es)) (length es) (length ?pre)
      (fmupd k c ov) = Ok (fm_of es (fmupd k c ov))"
    by (rule Cons.IH) (use Cons.prems in auto)
  moreover have "length ?pre = length pre + SECTION_PER_CLUSTER"
    using l by (simp add: e blk_cluster_entry_def)
  ultimately show ?case
    using l by (simp add: e blk_cluster_entry_def wire fm_of_def)
qed (simp add: fm_of_def)

definition blk_core :: "'b PvBlk \<Rightarrow> (u64, byte list) fmap \<times> u64 \<times> u64 \<times> u32 \<times> u32 \<times> u64" where
  "blk_core p = (bk_overlay p, bk_sector p, bk_buf_gpa p, bk_count p, bk_status p, bk_host_io_errors p)"

lemma blk_restore_snapshot:
  assumes "blk_wf blake3 p"
  shows "blk_restore blake3 q (blk_snapshot blake3 p) BK_SECTION_VERSION =
    (Ok (), q\<lparr>bk_sector := bk_sector p, bk_buf_gpa := bk_buf_gpa p, bk_count := bk_count p,
      bk_status := bk_status p, bk_host_io_errors := bk_host_io_errors p, bk_overlay := bk_overlay p\<rparr>)"
proof -
  let ?es = "fm_entries (bk_overlay p)"
  define pre where "pre = to_le (bk_sector p) @ to_le (bk_buf_gpa p) @ to_le (bk_count p) @ to_le (bk_status p)
      @ to_le (bk_host_io_errors p) @ to_le (of_nat (length ?es) :: u32)"
  have e: "\<forall>(k, c) \<in> set ?es. length c = CLUSTER_SIZE \<and> length (blake3 c) = 32"
    using assms by (auto simp: blk_wf_def clusters_ok_def fm_entries_def fmlookup_dom_iff)
  have pre: "length pre = 36" by (simp add: pre_def)
  have snap: "blk_snapshot blake3 p = pre @ concat (map (blk_cluster_entry blake3) ?es)"
    by (simp add: blk_snapshot_def pre_def Let_def)
  have entry: "length (blk_cluster_entry blake3 x) = SECTION_PER_CLUSTER" if "x \<in> set ?es" for x
    using e that by (auto simp: blk_cluster_entry_def)
  have len: "length (concat (map (blk_cluster_entry blake3) ?es)) = length ?es * SECTION_PER_CLUSTER"
    using entry by (simp add: length_concat comp_def sum_list_triv cong: map_cong)
  have n: "unat (of_nat (length ?es) :: u32) = length ?es"
    using assms by (simp add: blk_wf_def fm_entries_simps dirty_clusters_def)
  have r: "blk_restore_clusters blake3 (pre @ concat (map (blk_cluster_entry blake3) ?es)) (length ?es) 36 fmempty = Ok (bk_overlay p)"
    using restore_clusters_entries [OF e, of pre fmempty] by (simp add: pre fm_of_entries)
  have f: "bslice (pre @ xs) 0 8 = to_le (bk_sector p)" "bslice (pre @ xs) 8 16 = to_le (bk_buf_gpa p)"
    "bslice (pre @ xs) 16 20 = to_le (bk_count p)" "bslice (pre @ xs) 20 24 = to_le (bk_status p)"
    "bslice (pre @ xs) 24 32 = to_le (bk_host_io_errors p)" "bslice (pre @ xs) 32 36 = to_le (of_nat (length ?es) :: u32)"
    for xs by (simp_all add: pre_def wire)
  show ?thesis
    unfolding blk_restore_def snap by (simp add: f n len r pre)
qed

lemma restore_clusters_total:
  "at + n * SECTION_PER_CLUSTER \<le> length bytes \<Longrightarrow> blk_restore_clusters blake3 bytes n at ov \<noteq> Panic"
  by (induction n arbitrary: at ov) auto

interpretation blk_sec: det_section "blk_snapshot blake3" "blk_restore blake3" BK_SECTION_VERSION
  "blk_wf blake3" blk_core bk_base for blake3 :: "byte list \<Rightarrow> byte list"
proof
  fix d d' e :: "'a PvBlk" and b v
  show "blk_wf blake3 d \<Longrightarrow> fst (blk_restore blake3 e (blk_snapshot blake3 d) BK_SECTION_VERSION) = Ok () \<and>
      blk_core (snd (blk_restore blake3 e (blk_snapshot blake3 d) BK_SECTION_VERSION)) = blk_core d \<and>
      bk_base (snd (blk_restore blake3 e (blk_snapshot blake3 d) BK_SECTION_VERSION)) = bk_base e"
    by (simp add: blk_restore_snapshot blk_core_def)
  show "fst (blk_restore blake3 e b v) \<noteq> Panic"
    using restore_clusters_total [of 36 "unat (from_le (bslice b 32 36) :: u32)" b blake3 fmempty]
    by (auto simp: blk_restore_def Let_def split: res.splits)
  show "fst (blk_restore blake3 e b v) \<noteq> Ok () \<Longrightarrow> snd (blk_restore blake3 e b v) = e"
    by (auto simp: blk_restore_def Let_def split: res.splits if_splits)
  show "blk_core d = blk_core d' \<Longrightarrow> blk_snapshot blake3 d = blk_snapshot blake3 d'"
    by (simp add: blk_core_def blk_snapshot_def)
qed

lemma length_blk_read [simp]: "length (blk_mmio_read off n p) = n"
  by (simp add: blk_mmio_read_def)

lemma blk_write_logged:
  "logged [] ctx (snd (snd (blk_mmio_write env bo off data (p, ctx))))"
proof -
  have keep: "logged [] ctx ctx" by (simp add: logged_refl)
  have rd: "logged [] ctx (snd (snd (blk_do_read env bo (p, ctx))))"
  proof (cases "request_range bo p")
    case (Ok x)
    obtain off n where x: "x = (off, n)" by fastforce
    obtain mem where "snd (blk_read_loop env bo p off (bk_buf_gpa p) n ctx) = ctx\<lparr>cx_mem := mem\<rparr>"
      using read_loop_frame [of env bo p off "bk_buf_gpa p" n ctx] by (elim exE)
    with Ok x show ?thesis
      by (simp add: blk_do_read_def case_prod_unfold logged_refl)
  qed (simp_all add: blk_do_read_def keep)
  have wr: "snd (snd (blk_do_write env bo (p, ctx))) = ctx"
    by (simp add: blk_do_write_def case_prod_unfold split: res.split)
  have "logged [] ctx (snd (snd (blk_execute env bo cmd (p, ctx))))" for cmd
    using rd wr keep
    by (cases "blk_do_read env bo (p, ctx)"; cases "blk_do_write env bo (p, ctx)")
      (auto simp: blk_execute_def Let_def split: res.split option.split)
  with keep show ?thesis
    by (simp add: blk_mmio_write_def)
qed

section \<open>Properties\<close>

text \<open>
  C21. The overlay section: a snapshot is a function of the registers and the overlay's
  contents, never of the hash map's order; restoring it into any device reinstates exactly
  that state and keeps the target's base image. No byte string makes restore panic, and a
  section refused for its version, its length or a cluster whose digest does not match leaves
  the device unchanged.
\<close>

theorem blk_section_roundtrip:
  fixes p q :: "'b PvBlk"
  assumes wf: "blk_wf blake3 p"
  shows "blk_restore blake3 q (blk_snapshot blake3 p) BK_SECTION_VERSION =
      (Ok (), q\<lparr>bk_sector := bk_sector p, bk_buf_gpa := bk_buf_gpa p, bk_count := bk_count p,
        bk_status := bk_status p, bk_host_io_errors := bk_host_io_errors p, bk_overlay := bk_overlay p\<rparr>)
    \<and> (\<forall>p' :: 'b PvBlk. blk_wf blake3 p' \<longrightarrow> (blk_snapshot blake3 p' = blk_snapshot blake3 p \<longleftrightarrow> blk_core p' = blk_core p))
    \<and> (\<forall>b v. fst (blk_restore blake3 q b v) \<noteq> Panic
        \<and> (fst (blk_restore blake3 q b v) \<noteq> Ok () \<longrightarrow> snd (blk_restore blake3 q b v) = q))"
  by (intro conjI allI impI blk_restore_snapshot [OF wf] blk_sec.snapshot_inject [OF _ wf]
      blk_sec.restore_total blk_sec.restore_refused)

theorem blk_section_roundtrip_witness:
  "blk_wf (\<lambda>_. zeros 32) (pv_blk_new ()\<lparr>bk_overlay := fmupd 3 (replicate 65536 7) fmempty\<rparr>)
   \<and> blk_restore (\<lambda>_. zeros 32) (pv_blk_new ())
       (blk_snapshot (\<lambda>_. zeros 32) (pv_blk_new ()\<lparr>bk_overlay := fmupd 3 (replicate 65536 7) fmempty\<rparr>)) BK_SECTION_VERSION
     = (Ok (), pv_blk_new ()\<lparr>bk_overlay := fmupd 3 (replicate 65536 7) fmempty\<rparr>)"
proof -
  have "blk_wf (\<lambda>_. zeros 32) (pv_blk_new ()\<lparr>bk_overlay := fmupd 3 (replicate 65536 7) fmempty\<rparr>)"
    by (auto simp: blk_wf_def clusters_ok_def dirty_clusters_def fcard.rep_eq split: if_splits)
  from this conjunct1 [OF blk_section_roundtrip [OF this, of "pv_blk_new ()"]] show ?thesis
    by (simp add: pv_blk_new_def)
qed

end
