(* ===== verification/Blkfile.thy ===== *)
theory Blkfile
  imports Pv_Blk
begin

text \<open>
  The base image of the block device, \<open>src/crates/dh-vmm/src/blkfile.rs\<close>. A file backing goes
  through positional reads of the host (an argument: whether \<open>read_exact_at\<close> succeeded and the
  bytes it left); an owned backing is the bytes themselves, whose length the constructor
  records. The owned backing provides the contract \<open>block_base\<close>.
\<close>

datatype 'f BaseBacking = BackFile 'f | BackBytes "byte list"

record 'f FileBase =
  fb_backing :: "'f BaseBacking"
  fb_len :: u64

definition filebase_from_file :: "('f \<Rightarrow> u64 option) \<Rightarrow> 'f \<Rightarrow> 'f FileBase option" where
  "filebase_from_file metadata_len f =
     (case metadata_len f of None \<Rightarrow> None | Some len \<Rightarrow> Some \<lparr>fb_backing = BackFile f, fb_len = len\<rparr>)"

definition from_owned_bytes :: "byte list \<Rightarrow> 'f FileBase" where
  "from_owned_bytes bytes = \<lparr>fb_backing = BackBytes bytes, fb_len = of_nat (length bytes)\<rparr>"

definition filebase_len :: "'f FileBase \<Rightarrow> u64" where
  "filebase_len b = fb_len b"

definition filebase_is_empty :: "'f FileBase \<Rightarrow> bool" where
  "filebase_is_empty b \<longleftrightarrow> fb_len b = 0"

definition filebase_read_at ::
  "('f \<Rightarrow> u64 \<Rightarrow> byte list \<Rightarrow> bool \<times> byte list) \<Rightarrow> 'f FileBase \<Rightarrow> u64 \<Rightarrow> byte list \<Rightarrow> bool \<times> byte list" where
  "filebase_read_at read_exact_at b offset buf =
     (let buf = zeros (length buf) in
      if offset \<ge> fb_len b then (True, buf)
      else let tak = min (unat (fb_len b - offset)) (length buf) in
        case fb_backing b of
          BackFile f \<Rightarrow> (case read_exact_at f offset (take tak buf) of (ok, bs) \<Rightarrow> (ok, overwrite buf 0 bs))
        | BackBytes bytes \<Rightarrow> (True, overwrite buf 0 (bslice bytes (unat offset) (unat offset + tak))))"

definition file_base_ops :: "('f \<Rightarrow> u64 \<Rightarrow> byte list \<Rightarrow> bool \<times> byte list) \<Rightarrow> 'f FileBase BlockBaseOps" where
  "file_base_ops read_exact_at = \<lparr>bb_len_bytes = fb_len, bb_read_at = filebase_read_at read_exact_at\<rparr>"

section \<open>Owned bytes are an immutable byte string\<close>

definition padded :: "byte list \<Rightarrow> nat \<Rightarrow> byte" where
  "padded bytes i = (if i < length bytes then bytes ! i else 0)"

lemma owned_read:
  assumes "length bytes < 2 ^ 64"
  shows "filebase_read_at rx (from_owned_bytes bytes) off buf = (True, map (padded bytes) [unat off..<unat off + length buf])"
proof -
  have u: "unat (of_nat (length bytes) :: u64) = length bytes" using assms by simp
  show ?thesis
  proof (cases "unat off < length bytes")
    case True
    then have "unat (of_nat (length bytes) - off) = length bytes - unat off"
      using u by (simp add: unat_sub word_le_nat_alt)
    with True u show ?thesis
      by (auto simp: filebase_read_at_def from_owned_bytes_def Let_def overwrite_def bslice_def padded_def
          word_le_nat_alt nth_append min_def intro!: nth_equalityI)
  next
    case False
    with u show ?thesis
      by (auto simp: filebase_read_at_def from_owned_bytes_def Let_def padded_def word_le_nat_alt intro!: nth_equalityI)
  qed
qed

definition owned_bytes :: "'f FileBase \<Rightarrow> byte list" where
  "owned_bytes b = (case fb_backing b of BackBytes bytes \<Rightarrow> bytes | BackFile f \<Rightarrow> [])"

definition is_owned :: "'f FileBase \<Rightarrow> bool" where
  "is_owned b \<longleftrightarrow> length (owned_bytes b) < 2 ^ 64 \<and> b = from_owned_bytes (owned_bytes b)"

interpretation owned: block_base "file_base_ops rx" "\<lambda>b. padded (owned_bytes b)" is_owned
  for rx :: "'f \<Rightarrow> u64 \<Rightarrow> byte list \<Rightarrow> bool \<times> byte list"
  by unfold_locales (metis is_owned_def owned_read file_base_ops_def BlockBaseOps.simps(2))

section \<open>Properties\<close>

text \<open>
  C20. The block device over an owned base image refines a disk. Whatever the registers say, a
  read command either is rejected without effect (request outside the image), copies exactly
  the requested range of the disk into guest memory, or reports the memory fault; a write
  command either is rejected without effect, replaces exactly the requested range of the disk
  by the guest's bytes and changes no other byte of it, or reports the memory fault. Neither
  command panics, both keep the clusters whole.
\<close>

theorem blk_refines_disk:
  fixes p :: "'f FileBase PvBlk" and ctx :: "(byte list, 'e) DevCtx"
  assumes base: "is_owned (bk_base p)" and ov: "clusters_ok (bk_overlay p)"
    and env: "env_mem_read env = vec_mem_read" "env_mem_write env = vec_mem_write"
    and mem: "length (cx_mem ctx) < 2 ^ 64"
  shows "(\<exists>status mem'. blk_execute env (file_base_ops rx) CMD_READ (p, ctx)
        = (Ok (), p\<lparr>bk_status := status\<rparr>, ctx\<lparr>cx_mem := mem'\<rparr>)
      \<and> (if \<not> in_range (fb_len (bk_base p)) p then status = STATUS_BAD_REQUEST \<and> mem' = cx_mem ctx
         else if buffer_ok p (cx_mem ctx) then status = BK_STATUS_OK
           \<and> mem' = disk_read (blk_off p) (blk_len p) (unat (bk_buf_gpa p))
               (disk (padded (owned_bytes (bk_base p))) (bk_overlay p)) (cx_mem ctx)
         else status = STATUS_MEM_FAULT))
    \<and> (\<exists>status ov. blk_execute env (file_base_ops rx) CMD_WRITE (p, ctx)
        = (Ok (), p\<lparr>bk_overlay := ov, bk_status := status\<rparr>, ctx)
      \<and> clusters_ok ov
      \<and> (if \<not> in_range (fb_len (bk_base p)) p then status = STATUS_BAD_REQUEST \<and> ov = bk_overlay p
         else if buffer_ok p (cx_mem ctx) then status = BK_STATUS_OK
           \<and> (\<forall>i < 2 ^ 64. disk (padded (owned_bytes (bk_base p))) ov i =
               disk_write (blk_off p) (blk_len p) (unat (bk_buf_gpa p)) (cx_mem ctx)
                 (disk (padded (owned_bytes (bk_base p))) (bk_overlay p)) i)
         else status = STATUS_MEM_FAULT))"
  using owned.execute_read [OF base ov env(2) mem, of rx] owned.execute_write [OF base ov env(1) mem, of rx]
  by (simp add: file_base_ops_def)

definition ex_blk :: "unit FileBase PvBlk" where
  "ex_blk = (pv_blk_new (from_owned_bytes (replicate 1024 7)))\<lparr>bk_sector := 1, bk_count := 1\<rparr>"

lemma ex_blk_simps [simp]:
  "bk_overlay ex_blk = fmempty" "bk_sector ex_blk = 1" "bk_count ex_blk = 1" "bk_buf_gpa ex_blk = 0"
  "owned_bytes (bk_base ex_blk) = replicate 1024 7" "fb_len (bk_base ex_blk) = 1024"
  "is_owned (bk_base ex_blk)"
  by (simp_all add: ex_blk_def pv_blk_new_def from_owned_bytes_def owned_bytes_def is_owned_def)

theorem blk_refines_disk_witness:
  "\<exists>status ov. blk_execute vec_env (file_base_ops (\<lambda>_ _ b. (False, b))) CMD_WRITE (ex_blk, vec_ctx (zeros 512))
      = (Ok (), ex_blk\<lparr>bk_overlay := ov, bk_status := status\<rparr>, vec_ctx (zeros 512))
    \<and> status = BK_STATUS_OK \<and> disk (padded (replicate 1024 7)) ov 511 = 7 \<and> disk (padded (replicate 1024 7)) ov 512 = 0"
proof -
  have e: "env_mem_read vec_env = vec_mem_read" "env_mem_write vec_env = vec_mem_write"
    by (simp_all add: vec_env_def)
  have m: "length (cx_mem (vec_ctx (zeros 512))) < 2 ^ 64"
    by (simp add: vec_ctx_def ctx_new_def)
  have c: "clusters_ok (bk_overlay ex_blk)" by (simp add: clusters_ok_def)
  from blk_refines_disk [OF _ c e m, of "\<lambda>_ _ b. (False, b)"]
  obtain status ov where x: "blk_execute vec_env (file_base_ops (\<lambda>_ _ b. (False, b))) CMD_WRITE (ex_blk, vec_ctx (zeros 512))
      = (Ok (), ex_blk\<lparr>bk_overlay := ov, bk_status := status\<rparr>, vec_ctx (zeros 512))" "status = BK_STATUS_OK"
    "\<forall>i < 2 ^ 64. disk (padded (replicate 1024 7)) ov i = disk_write 512 512 0 (zeros 512) (disk (padded (replicate 1024 7)) fmempty) i"
    by (auto simp: in_range_def vec_ctx_def ctx_new_def)
  have "disk (padded (replicate 1024 7)) fmempty 511 = 7"
    by (simp add: disk_def padded_def)
  then have "disk (padded (replicate 1024 7)) ov 511 = 7 \<and> disk (padded (replicate 1024 7)) ov 512 = 0"
    using x(3) by (simp add: disk_write_def)
  with x show ?thesis by blast
qed

end
