(* ===== verification/Pv_Clock.thy ===== *)
theory Pv_Clock
  imports Dev_Ctx Vt
begin

text \<open>
  The paravirtual clock, \<open>src/crates/dh-devices/src/clock.rs\<close>: registers, the guest-visible
  time as a function of the icount, the one-shot timer and its snapshot section.
\<close>

abbreviation PV_CLOCK_BASE :: u64 where "PV_CLOCK_BASE \<equiv> 0xD0000000"
abbreviation DEVICE_ID_PV_CLOCK :: u16 where "DEVICE_ID_PV_CLOCK \<equiv> 0x0002"
abbreviation REG_VNS :: u64 where "REG_VNS \<equiv> 0x08"
abbreviation REG_ICOUNT :: u64 where "REG_ICOUNT \<equiv> 0x10"
abbreviation REG_TIMER_DEADLINE :: u64 where "REG_TIMER_DEADLINE \<equiv> 0x18"
abbreviation REG_TIMER_VECTOR :: u64 where "REG_TIMER_VECTOR \<equiv> 0x20"
abbreviation REG_FREQ_NUM :: u64 where "REG_FREQ_NUM \<equiv> 0x24"
abbreviation REG_FREQ_DEN :: u64 where "REG_FREQ_DEN \<equiv> 0x28"
abbreviation DEFAULT_TIMER_VECTOR :: u32 where "DEFAULT_TIMER_VECTOR \<equiv> 0x30"
abbreviation CLOCK_SECTION_VERSION :: u16 where "CLOCK_SECTION_VERSION \<equiv> 1"
abbreviation CLOCK_SECTION_LEN :: nat where "CLOCK_SECTION_LEN \<equiv> 12"

record PvClock =
  ck_num :: u32
  ck_den :: u32
  ck_vns_base :: u64
  ck_timer_deadline_vns :: u64
  ck_timer_vector :: u32

definition pv_clock_new :: "u32 \<Rightarrow> u32 \<Rightarrow> PvClock" where
  "pv_clock_new num den = \<lparr>ck_num = num, ck_den = den, ck_vns_base = 0, ck_timer_deadline_vns = 0,
     ck_timer_vector = DEFAULT_TIMER_VECTOR\<rparr>"

definition set_vns_base :: "u64 \<Rightarrow> PvClock \<Rightarrow> PvClock" where
  "set_vns_base base c = c\<lparr>ck_vns_base := base\<rparr>"

text \<open>\<open>vns\<close>: the 128-bit product cannot wrap; a zero denominator is a division panic.\<close>

definition pv_clock_vns :: "PvClock \<Rightarrow> u64 \<Rightarrow> (u64, unit) res" where
  "pv_clock_vns c icount =
     (if ck_den c = 0 then Panic
      else let v = (ucast icount * ucast (ck_num c)) div (ucast (ck_den c) :: u128) in
        Ok (saturating_add (ck_vns_base c)
          (case word_of_nat_opt (unat v) of Some x \<Rightarrow> x | None \<Rightarrow> u64_max)))"

definition clock_armed :: "PvClock \<Rightarrow> (u64 \<times> u8) option" where
  "clock_armed c = (if ck_timer_deadline_vns c \<noteq> 0
     then Some (ck_timer_deadline_vns c, ucast (ck_timer_vector c)) else None)"

definition clock_disarm :: "PvClock \<Rightarrow> PvClock" where
  "clock_disarm c = c\<lparr>ck_timer_deadline_vns := 0\<rparr>"

definition serve_u64 :: "u64 \<Rightarrow> u64 \<Rightarrow> nat \<Rightarrow> byte list" where
  "serve_u64 value off_in_reg n =
     (let bytes = to_le value in
      if off_in_reg = 0 \<and> n = 8 then bytes
      else if off_in_reg = 0 \<and> n = 4 then take 4 bytes
      else if off_in_reg = 4 \<and> n = 4 then drop 4 bytes
      else zeros n)"

text \<open>\<open>mmio_read\<close> into a buffer of \<open>n\<close> bytes: the contents it leaves there.\<close>

definition clock_mmio_read :: "u64 \<Rightarrow> nat \<Rightarrow> ('m, 'e) DevCtx \<Rightarrow> PvClock \<Rightarrow> (byte list, unit) res" where
  "clock_mmio_read off n ctx c =
     (if off = REG_VNS \<or> off = 0x0C then
        res_bind (pv_clock_vns c (cx_icount ctx)) (\<lambda>v. Ok (serve_u64 v (off - REG_VNS) n))
      else if off = REG_ICOUNT \<or> off = 0x14 then Ok (serve_u64 (cx_icount ctx) (off - REG_ICOUNT) n)
      else if off = REG_TIMER_DEADLINE \<or> off = 0x1C then
        Ok (serve_u64 (ck_timer_deadline_vns c) (off - REG_TIMER_DEADLINE) n)
      else if off = REG_TIMER_VECTOR \<and> n = 4 then Ok (to_le (ck_timer_vector c))
      else if off = REG_FREQ_NUM \<and> n = 4 then Ok (to_le (ck_num c))
      else if off = REG_FREQ_DEN \<and> n = 4 then Ok (to_le (ck_den c))
      else Ok (zeros n))"

definition clock_mmio_write :: "u64 \<Rightarrow> byte list \<Rightarrow> PvClock \<Rightarrow> PvClock" where
  "clock_mmio_write off data c =
     (if off = REG_TIMER_DEADLINE \<and> length data = 8 then c\<lparr>ck_timer_deadline_vns := from_le data\<rparr>
      else if off = REG_TIMER_VECTOR \<and> length data = 4 then c\<lparr>ck_timer_vector := from_le data AND 0xFF\<rparr>
      else c)"

definition clock_snapshot :: "PvClock \<Rightarrow> byte list" where
  "clock_snapshot c = to_le (ck_timer_deadline_vns c) @ to_le (ck_timer_vector c)"

definition clock_restore :: "PvClock \<Rightarrow> byte list \<Rightarrow> u16 \<Rightarrow> (unit, RestoreError) res \<times> PvClock" where
  "clock_restore c bytes sec_version =
     (if sec_version \<noteq> CLOCK_SECTION_VERSION \<or> length bytes \<noteq> CLOCK_SECTION_LEN then (Err RestoreError, c)
      else (Ok (), c\<lparr>ck_timer_deadline_vns := from_le (bslice bytes 0 8),
                     ck_timer_vector := from_le (bslice bytes 8 12)\<rparr>))"

section \<open>Guest time\<close>

abbreviation clock_ratio :: "PvClock \<Rightarrow> ClockRatio" where
  "clock_ratio c \<equiv> \<lparr>cr_num = ck_num c, cr_den = ck_den c\<rparr>"

lemma unat_saturating_add:
  "unat (saturating_add a b :: u64) = min (2 ^ 64 - 1) (unat a + unat b)"
proof -
  have m: "(- 1 :: u64) = u64_max" by simp
  show ?thesis
    unfolding saturating_add_def m by (auto simp: min_def unat_word_ariths)
qed

lemma pv_clock_vns_value:
  assumes "ck_den c \<noteq> 0"
  obtains v where "pv_clock_vns c icount = Ok v"
    "unat v = min (2 ^ 64 - 1) (unat (ck_vns_base c) + vns_exact (clock_ratio c) (unat icount))"
proof -
  let ?x = "vns_exact (clock_ratio c) (unat icount)"
  have v: "unat ((ucast icount * ucast (ck_num c)) div (ucast (ck_den c) :: u128)) = ?x"
    by (simp add: vns_exact_def unat_div unat_product)
  have "unat (case word_of_nat_opt ?x of Some x \<Rightarrow> x | None \<Rightarrow> u64_max) = min (2 ^ 64 - 1) ?x"
    by (auto simp: word_of_nat_opt_def min_def)
  then have "unat (saturating_add (ck_vns_base c) (case word_of_nat_opt ?x of Some x \<Rightarrow> x | None \<Rightarrow> u64_max)) =
      min (2 ^ 64 - 1) (unat (ck_vns_base c) + ?x)"
    unfolding unat_saturating_add by simp
  with assms v show ?thesis
    by (intro that) (simp_all add: pv_clock_vns_def)
qed

text \<open>The 8-byte register and its two 4-byte halves show the same value.\<close>

lemma serve_u64_halves: "serve_u64 v 0 8 = serve_u64 v 0 4 @ serve_u64 v 4 4"
  by (simp add: serve_u64_def)

lemma length_serve_u64 [simp]: "length (serve_u64 v i n) = n"
  by (simp add: serve_u64_def Let_def)

lemma clock_read_length: "clock_mmio_read off n ctx c = Ok bs \<Longrightarrow> length bs = n"
  by (auto simp: clock_mmio_read_def split: if_splits)

interpretation clock_sec: canonical_section clock_snapshot clock_restore CLOCK_SECTION_VERSION "\<lambda>_. True"
  "\<lambda>c. (ck_timer_deadline_vns c, ck_timer_vector c)" "\<lambda>c. (ck_num c, ck_den c, ck_vns_base c)"
  by unfold_locales (auto simp: clock_snapshot_def clock_restore_def wire bslice_join split: if_splits)

section \<open>Properties\<close>

text \<open>
  C26. The device's duplicated conversion is the virtual-time module's: a guest read of the
  time register is the segment base plus \<open>ClockRatio::vns_from_icount\<close>, capped at the last
  64-bit value, never panics for a validated rational, and never goes back as the icount grows.
\<close>

theorem clock_reads_vt:
  assumes r: "clock_new (ck_num c) (ck_den c) = Some r"
  shows "clock_mmio_read REG_VNS 8 ctx c = Ok (to_le (saturating_add (ck_vns_base c)
      (case vns_from_icount r (cx_icount ctx) of Some v \<Rightarrow> v | None \<Rightarrow> u64_max)))
    \<and> (\<forall>i j. i \<le> j \<longrightarrow> (\<exists>v w. pv_clock_vns c i = Ok v \<and> pv_clock_vns c j = Ok w \<and> v \<le> w))"
proof
  from r have d: "ck_den c \<noteq> 0" and ratio: "r = clock_ratio c"
    by (auto simp: clock_new_def split: if_splits)
  from d show "clock_mmio_read REG_VNS 8 ctx c = Ok (to_le (saturating_add (ck_vns_base c)
      (case vns_from_icount r (cx_icount ctx) of Some v \<Rightarrow> v | None \<Rightarrow> u64_max)))"
    by (simp add: clock_mmio_read_def pv_clock_vns_def serve_u64_def ratio vns_from_icount_def u128_to_u64_def)
  show "\<forall>i j. i \<le> j \<longrightarrow> (\<exists>v w. pv_clock_vns c i = Ok v \<and> pv_clock_vns c j = Ok w \<and> v \<le> w)"
  proof (intro allI impI)
    fix i j :: u64
    assume "i \<le> j"
    then have le: "vns_exact (clock_ratio c) (unat i) \<le> vns_exact (clock_ratio c) (unat j)"
      by (auto simp: vns_exact_def word_le_nat_alt intro: div_le_mono mult_le_mono1)
    obtain v where v: "pv_clock_vns c i = Ok v"
      "unat v = min (2 ^ 64 - 1) (unat (ck_vns_base c) + vns_exact (clock_ratio c) (unat i))"
      by (rule pv_clock_vns_value [OF d, of i])
    obtain w where w: "pv_clock_vns c j = Ok w"
      "unat w = min (2 ^ 64 - 1) (unat (ck_vns_base c) + vns_exact (clock_ratio c) (unat j))"
      by (rule pv_clock_vns_value [OF d, of j])
    from v(2) w(2) le have "v \<le> w"
      by (simp add: word_le_nat_alt)
    with v(1) w(1) show "\<exists>v w. pv_clock_vns c i = Ok v \<and> pv_clock_vns c j = Ok w \<and> v \<le> w"
      by blast
  qed
qed

theorem clock_reads_vt_witness:
  "clock_new (ck_num (pv_clock_new 3 2)) (ck_den (pv_clock_new 3 2)) = Some \<lparr>cr_num = 3, cr_den = 2\<rparr>
   \<and> (\<exists>v w. pv_clock_vns (pv_clock_new 3 2) 5 = Ok v \<and> pv_clock_vns (pv_clock_new 3 2) 9 = Ok w \<and> v \<le> w)"
proof -
  have "clock_new (ck_num (pv_clock_new 3 2)) (ck_den (pv_clock_new 3 2)) = Some \<lparr>cr_num = 3, cr_den = 2\<rparr>"
    by (simp add: clock_new_def pv_clock_new_def)
  moreover from clock_reads_vt [OF this, of undefined] have
    "\<exists>v w. pv_clock_vns (pv_clock_new 3 2) 5 = Ok v \<and> pv_clock_vns (pv_clock_new 3 2) 9 = Ok w \<and> v \<le> w"
    by (elim conjE allE [of _ 5] allE [of _ 9]) simp
  ultimately show ?thesis ..
qed

end
