(* ===== verification/Pv_Pad.thy ===== *)
theory Pv_Pad
  imports Dev_Ctx
begin

text \<open>
  The controller latch and frame counter, \<open>src/crates/dh-devices/src/pad.rs\<close>. The latch is
  the array of four ports; it changes only through \<open>apply_pad_set\<close>.
\<close>

abbreviation PV_PAD_BASE :: u64 where "PV_PAD_BASE \<equiv> 0xD0001000"
abbreviation DEVICE_ID_PV_PAD :: u16 where "DEVICE_ID_PV_PAD \<equiv> 0x0003"
abbreviation REG_PAD0 :: u64 where "REG_PAD0 \<equiv> 0x08"
abbreviation REG_IRQ_VECTOR :: u64 where "REG_IRQ_VECTOR \<equiv> 0x18"
abbreviation REG_FRAME_COUNTER :: u64 where "REG_FRAME_COUNTER \<equiv> 0x1C"
abbreviation NUM_PORTS :: nat where "NUM_PORTS \<equiv> 4"
abbreviation PAD_SECTION_VERSION :: u16 where "PAD_SECTION_VERSION \<equiv> 1"
abbreviation PAD_SECTION_LEN :: nat where "PAD_SECTION_LEN \<equiv> 24"

datatype PadError = BadPort

record PvPad =
  pd_latch :: "u32 list"
  pd_irq_vector :: u32
  pd_frame_counter :: u32

definition pv_pad_new :: PvPad where
  "pv_pad_new = \<lparr>pd_latch = replicate NUM_PORTS 0, pd_irq_vector = 0, pd_frame_counter = 0\<rparr>"

definition apply_pad_set :: "u8 \<Rightarrow> u32 \<Rightarrow> PvPad \<Rightarrow> (u8 option, PadError) res \<times> PvPad" where
  "apply_pad_set port buttons p =
     (let idx = unat port in
      if idx \<ge> NUM_PORTS then (Err BadPort, p)
      else let changed = (pd_latch p ! idx \<noteq> buttons) in
        (Ok (if changed \<and> pd_irq_vector p \<noteq> 0 then Some (ucast (pd_irq_vector p)) else None),
         p\<lparr>pd_latch := (pd_latch p)[idx := buttons]\<rparr>))"

definition pad_frame_counter :: "PvPad \<Rightarrow> u32" where
  "pad_frame_counter p = pd_frame_counter p"

definition pad_irq_vector :: "PvPad \<Rightarrow> u8" where
  "pad_irq_vector p = ucast (pd_irq_vector p)"

definition pad_mmio_read :: "u64 \<Rightarrow> nat \<Rightarrow> PvPad \<Rightarrow> byte list" where
  "pad_mmio_read off n p =
     (if n \<noteq> 4 then zeros n
      else to_le (if off \<in> {0x08, 0x0C, 0x10, 0x14} then pd_latch p ! unat ((off - REG_PAD0) div 4)
             else if off = REG_IRQ_VECTOR then pd_irq_vector p
             else if off = REG_FRAME_COUNTER then pd_frame_counter p
             else 0))"

definition pad_mmio_write ::
  "u64 \<Rightarrow> byte list \<Rightarrow> PvPad \<times> ('m, 'e) DevCtx \<Rightarrow> PvPad \<times> ('m, 'e) DevCtx" where
  "pad_mmio_write off data = (\<lambda>(p, ctx).
     if length data \<noteq> 4 then (p, ctx)
     else let value = from_le data in
       if off = REG_IRQ_VECTOR then (p\<lparr>pd_irq_vector := value AND 0xFF\<rparr>, ctx)
       else if off = REG_FRAME_COUNTER then (p\<lparr>pd_frame_counter := value\<rparr>, log_frame_mark value ctx)
       else (p, ctx))"

definition pad_snapshot :: "PvPad \<Rightarrow> byte list" where
  "pad_snapshot p = concat (map to_le (pd_latch p)) @ to_le (pd_irq_vector p) @ to_le (pd_frame_counter p)"

definition pad_restore :: "PvPad \<Rightarrow> byte list \<Rightarrow> u16 \<Rightarrow> (unit, RestoreError) res \<times> PvPad" where
  "pad_restore p bytes sec_version =
     (if sec_version \<noteq> PAD_SECTION_VERSION \<or> length bytes \<noteq> PAD_SECTION_LEN then (Err RestoreError, p)
      else (Ok (), p\<lparr>pd_latch := map (\<lambda>i. from_le (bslice bytes (i * 4) (i * 4 + 4))) [0..<NUM_PORTS],
                     pd_irq_vector := from_le (bslice bytes 16 20),
                     pd_frame_counter := from_le (bslice bytes 20 24)\<rparr>))"

section \<open>Invariant and snapshot\<close>

definition pad_wf :: "PvPad \<Rightarrow> bool" where
  "pad_wf p \<longleftrightarrow> length (pd_latch p) = NUM_PORTS"

lemma pad_wf_preserved:
  "pad_wf pv_pad_new" "pad_wf p \<Longrightarrow> pad_wf (snd (apply_pad_set port b p))"
  "pad_wf p \<Longrightarrow> pad_wf (fst (pad_mmio_write off data (p, ctx)))"
  "pad_wf p \<Longrightarrow> pad_wf (snd (pad_restore p bytes v))"
  by (auto simp: pad_wf_def pv_pad_new_def apply_pad_set_def pad_mmio_write_def pad_restore_def Let_def)

lemma upt4: "[0..<4] = [0, 1, 2, 3 :: nat]"
  by (simp add: upt_rec)

lemma length4: "length xs = 4 \<longleftrightarrow> (\<exists>a b c d. xs = [a, b, c, d])"
  by (auto simp: numeral_eq_Suc length_Suc_conv)

lemma pad_restore_snapshot:
  "pad_wf p \<Longrightarrow> pad_restore q (pad_snapshot p) PAD_SECTION_VERSION =
     (Ok (), q\<lparr>pd_latch := pd_latch p, pd_irq_vector := pd_irq_vector p, pd_frame_counter := pd_frame_counter p\<rparr>)"
  by (auto simp: pad_wf_def length4 pad_restore_def pad_snapshot_def upt4 wire)

lemma pad_snapshot_restore:
  assumes "length bytes = 24"
  shows "pad_snapshot (snd (pad_restore q bytes PAD_SECTION_VERSION)) = bytes"
proof -
  have "bslice bytes 0 4 @ bslice bytes 4 8 @ bslice bytes 8 12 @ bslice bytes 12 16 @
      bslice bytes 16 20 @ bslice bytes 20 24 = bslice bytes 0 24"
    by (simp add: bslice_join)
  with assms show ?thesis
    by (simp add: pad_restore_def pad_snapshot_def upt4 bslice_all)
qed

interpretation pad_sec: canonical_section pad_snapshot pad_restore PAD_SECTION_VERSION pad_wf
  "\<lambda>p. (pd_latch p, pd_irq_vector p, pd_frame_counter p)" "\<lambda>p. ()"
proof
  fix d e :: PvPad and b v
  show "pad_wf d \<Longrightarrow> fst (pad_restore e (pad_snapshot d) PAD_SECTION_VERSION) = Ok () \<and>
      (pd_latch (snd (pad_restore e (pad_snapshot d) PAD_SECTION_VERSION)),
       pd_irq_vector (snd (pad_restore e (pad_snapshot d) PAD_SECTION_VERSION)),
       pd_frame_counter (snd (pad_restore e (pad_snapshot d) PAD_SECTION_VERSION))) =
      (pd_latch d, pd_irq_vector d, pd_frame_counter d) \<and> () = ()"
    by (simp add: pad_restore_snapshot)
  show "fst (pad_restore e b v) \<noteq> Panic" "fst (pad_restore e b v) \<noteq> Ok () \<Longrightarrow> snd (pad_restore e b v) = e"
    by (auto simp: pad_restore_def split: if_splits)
  show "fst (pad_restore e b v) = Ok () \<Longrightarrow>
      v = PAD_SECTION_VERSION \<and> pad_snapshot (snd (pad_restore e b v)) = b \<and> pad_wf (snd (pad_restore e b v))"
    using pad_snapshot_restore [of b e]
    by (auto simp: pad_restore_def pad_wf_def split: if_splits)
qed (simp add: pad_snapshot_def)

lemma pad_write_logged:
  "\<exists>ops. length ops \<le> 1 \<and> logged ops ctx (snd (pad_mmio_write off data (p, ctx)))"
  unfolding pad_mmio_write_def Let_def
  by (auto intro: exI [of _ "[]"] exI [of _ "[x]" for x] logged_refl logged_wrappers)

lemma length_pad_read [simp]: "length (pad_mmio_read off n p) = n"
  by (simp add: pad_mmio_read_def)

end
