(* ===== verification/Pv_Entropy.thy ===== *)
theory Pv_Entropy
  imports Dev_Ctx
begin

text \<open>
  The entropy device, \<open>src/crates/dh-devices/src/entropy.rs\<close>: its registers and doorbell,
  and the per-segment generator over the ChaCha20 crate, whose operations are an argument
  (\<open>ChaChaOps\<close>).
\<close>

abbreviation PV_ENTROPY_BASE :: u64 where "PV_ENTROPY_BASE \<equiv> 0xD0002000"
abbreviation DEVICE_ID_PV_ENTROPY :: u16 where "DEVICE_ID_PV_ENTROPY \<equiv> 0x0004"
abbreviation EN_REG_BUF_GPA :: u64 where "EN_REG_BUF_GPA \<equiv> 0x08"
abbreviation EN_REG_LEN :: u64 where "EN_REG_LEN \<equiv> 0x10"
abbreviation EN_REG_DOORBELL :: u64 where "EN_REG_DOORBELL \<equiv> 0x14"
abbreviation EN_REG_STATUS :: u64 where "EN_REG_STATUS \<equiv> 0x18"
abbreviation EN_STATUS_IDLE :: u32 where "EN_STATUS_IDLE \<equiv> 0"
abbreviation EN_STATUS_OK :: u32 where "EN_STATUS_OK \<equiv> 1"
abbreviation EN_STATUS_FAULT :: u32 where "EN_STATUS_FAULT \<equiv> 2"
abbreviation MAX_FILL :: u32 where "MAX_FILL \<equiv> 0x100000"
abbreviation EN_SECTION_VERSION :: u16 where "EN_SECTION_VERSION \<equiv> 1"
abbreviation EN_SECTION_LEN :: nat where "EN_SECTION_LEN \<equiv> 16"

section \<open>The generator\<close>

record 'r ChaChaOps =
  cc_from_seed :: "byte list \<Rightarrow> 'r"
  cc_get_seed :: "'r \<Rightarrow> byte list"
  cc_get_stream :: "'r \<Rightarrow> u64"
  cc_get_word_pos :: "'r \<Rightarrow> u128"
  cc_set_stream :: "u64 \<Rightarrow> 'r \<Rightarrow> 'r"
  cc_set_word_pos :: "u128 \<Rightarrow> 'r \<Rightarrow> 'r"
  cc_fill_bytes :: "'r \<Rightarrow> nat \<Rightarrow> byte list \<times> 'r"

record EntropyState =
  ets_seed :: "byte list"
  ets_stream :: u64
  ets_word_pos :: u128

definition det_entropy_from_seed :: "'r ChaChaOps \<Rightarrow> byte list \<Rightarrow> 'r" where
  "det_entropy_from_seed ops seed = cc_from_seed ops seed"

definition det_entropy_state :: "'r ChaChaOps \<Rightarrow> 'r \<Rightarrow> EntropyState" where
  "det_entropy_state ops rng = \<lparr>ets_seed = cc_get_seed ops rng, ets_stream = cc_get_stream ops rng,
     ets_word_pos = cc_get_word_pos ops rng\<rparr>"

definition det_entropy_restore :: "'r ChaChaOps \<Rightarrow> EntropyState \<Rightarrow> 'r" where
  "det_entropy_restore ops st = (let
     rng = cc_from_seed ops (ets_seed st);
     rng = cc_set_stream ops (ets_stream st) rng
   in cc_set_word_pos ops (ets_word_pos st) rng)"

definition det_entropy_fill :: "'r ChaChaOps \<Rightarrow> 'r \<Rightarrow> nat \<Rightarrow> byte list \<times> 'r" where
  "det_entropy_fill ops rng n = cc_fill_bytes ops rng n"

section \<open>The device\<close>

record PvEntropy =
  en_buf_gpa :: u64
  en_len :: u32
  en_status :: u32

definition pv_entropy_new :: PvEntropy where
  "pv_entropy_new = \<lparr>en_buf_gpa = 0, en_len = 0, en_status = EN_STATUS_IDLE\<rparr>"

definition entropy_doorbell ::
  "('m, 'e) DevEnv \<Rightarrow> PvEntropy \<times> ('m, 'e) DevCtx \<Rightarrow> PvEntropy \<times> ('m, 'e) DevCtx" where
  "entropy_doorbell env = (\<lambda>(p, ctx).
     if en_len p > MAX_FILL then (p\<lparr>en_status := EN_STATUS_FAULT\<rparr>, ctx)
     else case env_fill env (cx_entropy ctx) (unat (en_len p)) of (bytes, ent) \<Rightarrow>
       (case env_mem_write env (cx_mem ctx) (en_buf_gpa p) bytes of (ok, mem) \<Rightarrow>
         (let ctx = ctx\<lparr>cx_entropy := ent, cx_mem := mem\<rparr> in
          if \<not> ok then (p\<lparr>en_status := EN_STATUS_FAULT\<rparr>, ctx)
          else (p\<lparr>en_status := EN_STATUS_OK\<rparr>, log_entropy (en_len p) (digest8 (env_blake3 env) bytes) ctx))))"

definition entropy_mmio_read :: "u64 \<Rightarrow> nat \<Rightarrow> PvEntropy \<Rightarrow> byte list" where
  "entropy_mmio_read off n p =
     (if off = EN_REG_BUF_GPA \<and> n = 8 then to_le (en_buf_gpa p)
      else if off = EN_REG_LEN \<and> n = 4 then to_le (en_len p)
      else if off = EN_REG_STATUS \<and> n = 4 then to_le (en_status p)
      else zeros n)"

definition entropy_mmio_write ::
  "('m, 'e) DevEnv \<Rightarrow> u64 \<Rightarrow> byte list \<Rightarrow> PvEntropy \<times> ('m, 'e) DevCtx \<Rightarrow> PvEntropy \<times> ('m, 'e) DevCtx" where
  "entropy_mmio_write env off data = (\<lambda>(p, ctx).
     if off = EN_REG_BUF_GPA \<and> length data = 8 then (p\<lparr>en_buf_gpa := from_le data\<rparr>, ctx)
     else if off = EN_REG_LEN \<and> length data = 4 then (p\<lparr>en_len := from_le data\<rparr>, ctx)
     else if off = EN_REG_DOORBELL \<and> length data = 4 then entropy_doorbell env (p, ctx)
     else (p, ctx))"

definition entropy_snapshot :: "PvEntropy \<Rightarrow> byte list" where
  "entropy_snapshot p = to_le (en_buf_gpa p) @ to_le (en_len p) @ to_le (en_status p)"

definition entropy_restore :: "PvEntropy \<Rightarrow> byte list \<Rightarrow> u16 \<Rightarrow> (unit, RestoreError) res \<times> PvEntropy" where
  "entropy_restore p bytes sec_version =
     (if sec_version \<noteq> EN_SECTION_VERSION \<or> length bytes \<noteq> EN_SECTION_LEN then (Err RestoreError, p)
      else (Ok (), p\<lparr>en_buf_gpa := from_le (bslice bytes 0 8), en_len := from_le (bslice bytes 8 12),
                     en_status := from_le (bslice bytes 12 16)\<rparr>))"

interpretation entropy_sec: canonical_section entropy_snapshot entropy_restore EN_SECTION_VERSION "\<lambda>_. True"
  "\<lambda>p. p" "\<lambda>_. ()"
  by unfold_locales (auto simp: entropy_snapshot_def entropy_restore_def wire bslice_join split: if_splits)

lemma length_entropy_read [simp]: "length (entropy_mmio_read off n p) = n"
  by (simp add: entropy_mmio_read_def)

lemma entropy_doorbell_logged:
  "\<exists>ops. length ops \<le> 1 \<and> logged ops ctx (snd (entropy_doorbell env (p, ctx)))"
proof -
  obtain bytes ent where f: "env_fill env (cx_entropy ctx) (unat (en_len p)) = (bytes, ent)" by fastforce
  obtain ok mem where w: "env_mem_write env (cx_mem ctx) (en_buf_gpa p) bytes = (ok, mem)" by fastforce
  let ?c = "ctx\<lparr>cx_entropy := ent, cx_mem := mem\<rparr>"
  have r: "logged [] ctx ctx" and c: "logged [] ctx ?c" by (simp_all add: logged_refl)
  have l: "logged [OpEntropy (cx_icount ?c) (cx_boundary_rip ?c) len dig] ctx (log_entropy len dig ?c)" for len dig
    using logged_trans [OF c logged_wrappers(3)] by simp
  show ?thesis
    using f w r c l [of "en_len p" "digest8 (env_blake3 env) bytes"]
    by (cases ok) (force simp: entropy_doorbell_def Let_def)+
qed

lemma entropy_write_logged:
  "\<exists>ops. length ops \<le> 1 \<and> logged ops ctx (snd (entropy_mmio_write env off data (p, ctx)))"
  using entropy_doorbell_logged [of ctx env p]
  by (auto simp: entropy_mmio_write_def intro: exI [of _ "[]"] logged_refl)

end
