(* ===== verification/Pv_Net.thy ===== *)
theory Pv_Net
  imports Dev_Ctx
begin

text \<open>
  The loopback network device, \<open>src/crates/dh-devices/src/net.rs\<close>: transmit doorbell,
  delivery of recorded frames into the guest's buffer, registers and snapshot section.
\<close>

abbreviation PV_NET_BASE :: u64 where "PV_NET_BASE \<equiv> 0xD0005000"
abbreviation DEVICE_ID_PV_NET :: u16 where "DEVICE_ID_PV_NET \<equiv> 0x0007"
abbreviation REG_TX_BUF_GPA :: u64 where "REG_TX_BUF_GPA \<equiv> 0x08"
abbreviation REG_TX_LEN :: u64 where "REG_TX_LEN \<equiv> 0x10"
abbreviation REG_TX_DOORBELL :: u64 where "REG_TX_DOORBELL \<equiv> 0x14"
abbreviation REG_TX_STATUS :: u64 where "REG_TX_STATUS \<equiv> 0x18"
abbreviation REG_RX_BUF_GPA :: u64 where "REG_RX_BUF_GPA \<equiv> 0x20"
abbreviation REG_RX_CAP :: u64 where "REG_RX_CAP \<equiv> 0x28"
abbreviation REG_RX_LEN :: u64 where "REG_RX_LEN \<equiv> 0x2C"
abbreviation REG_RX_VECTOR :: u64 where "REG_RX_VECTOR \<equiv> 0x30"
abbreviation NT_STATUS_IDLE :: u32 where "NT_STATUS_IDLE \<equiv> 0"
abbreviation NT_STATUS_OK :: u32 where "NT_STATUS_OK \<equiv> 1"
abbreviation NT_STATUS_FAULT :: u32 where "NT_STATUS_FAULT \<equiv> 2"
abbreviation MAX_FRAME :: u32 where "MAX_FRAME \<equiv> 2048"
abbreviation NT_SECTION_VERSION :: u16 where "NT_SECTION_VERSION \<equiv> 1"
abbreviation NT_SECTION_LEN :: nat where "NT_SECTION_LEN \<equiv> 36"

datatype NetRxError = FrameTooBig | NoRxBuffer | MemFault

record PvNet =
  nt_tx_buf_gpa :: u64
  nt_tx_len :: u32
  nt_tx_status :: u32
  nt_rx_buf_gpa :: u64
  nt_rx_cap :: u32
  nt_rx_len :: u32
  nt_rx_vector :: u32

definition pv_net_new :: PvNet where
  "pv_net_new = \<lparr>nt_tx_buf_gpa = 0, nt_tx_len = 0, nt_tx_status = NT_STATUS_IDLE, nt_rx_buf_gpa = 0,
     nt_rx_cap = 0, nt_rx_len = 0, nt_rx_vector = 0\<rparr>"

definition net_doorbell ::
  "('m, 'e) DevEnv \<Rightarrow> PvNet \<times> ('m, 'e) DevCtx \<Rightarrow> PvNet \<times> ('m, 'e) DevCtx" where
  "net_doorbell env = (\<lambda>(p, ctx).
     if nt_tx_len p = 0 \<or> nt_tx_len p > MAX_FRAME then (p\<lparr>nt_tx_status := NT_STATUS_FAULT\<rparr>, ctx)
     else case env_mem_read env (cx_mem ctx) (nt_tx_buf_gpa p) (zeros (unat (nt_tx_len p))) of (ok, frame) \<Rightarrow>
       if \<not> ok then (p\<lparr>nt_tx_status := NT_STATUS_FAULT\<rparr>, ctx)
       else (p\<lparr>nt_tx_status := NT_STATUS_OK\<rparr>,
             log_net_tx (nt_tx_len p) (digest8 (env_blake3 env) frame) ctx))"

definition net_tx_regs :: "PvNet \<Rightarrow> u64 \<times> u32 \<times> u32" where
  "net_tx_regs p = (nt_tx_buf_gpa p, nt_tx_len p, nt_tx_status p)"

definition net_rx_vector :: "PvNet \<Rightarrow> u8" where
  "net_rx_vector p = ucast (nt_rx_vector p)"

definition apply_net_rx ::
  "('m, 'e) DevEnv \<Rightarrow> byte list \<Rightarrow> PvNet \<times> 'm \<Rightarrow> (u8 option, NetRxError) res \<times> PvNet \<times> 'm" where
  "apply_net_rx env frame = (\<lambda>(p, mem).
     if nt_rx_buf_gpa p = 0 then (Err NoRxBuffer, p, mem)
     else case word_of_nat_opt (length frame) of None \<Rightarrow> (Err FrameTooBig, p, mem)
     | Some len \<Rightarrow>
       (if len = 0 \<or> len > MAX_FRAME \<or> len > nt_rx_cap p then (Err FrameTooBig, p, mem)
        else case env_mem_write env mem (nt_rx_buf_gpa p) frame of (ok, mem) \<Rightarrow>
          if \<not> ok then (Err MemFault, p, mem)
          else (Ok (if nt_rx_vector p \<noteq> 0 then Some (ucast (nt_rx_vector p)) else None),
                p\<lparr>nt_rx_len := len\<rparr>, mem)))"

definition net_mmio_read :: "u64 \<Rightarrow> nat \<Rightarrow> PvNet \<Rightarrow> byte list" where
  "net_mmio_read off n p =
     (if off = REG_TX_BUF_GPA \<and> n = 8 then to_le (nt_tx_buf_gpa p)
      else if off = REG_TX_LEN \<and> n = 4 then to_le (nt_tx_len p)
      else if off = REG_TX_STATUS \<and> n = 4 then to_le (nt_tx_status p)
      else if off = REG_RX_BUF_GPA \<and> n = 8 then to_le (nt_rx_buf_gpa p)
      else if off = REG_RX_CAP \<and> n = 4 then to_le (nt_rx_cap p)
      else if off = REG_RX_LEN \<and> n = 4 then to_le (nt_rx_len p)
      else if off = REG_RX_VECTOR \<and> n = 4 then to_le (nt_rx_vector p)
      else zeros n)"

definition net_mmio_write ::
  "('m, 'e) DevEnv \<Rightarrow> u64 \<Rightarrow> byte list \<Rightarrow> PvNet \<times> ('m, 'e) DevCtx \<Rightarrow> PvNet \<times> ('m, 'e) DevCtx" where
  "net_mmio_write env off data = (\<lambda>(p, ctx).
     if off = REG_TX_BUF_GPA \<and> length data = 8 then (p\<lparr>nt_tx_buf_gpa := from_le data\<rparr>, ctx)
     else if off = REG_TX_LEN \<and> length data = 4 then (p\<lparr>nt_tx_len := from_le data\<rparr>, ctx)
     else if off = REG_TX_DOORBELL \<and> length data = 4 then net_doorbell env (p, ctx)
     else if off = REG_RX_BUF_GPA \<and> length data = 8 then (p\<lparr>nt_rx_buf_gpa := from_le data\<rparr>, ctx)
     else if off = REG_RX_CAP \<and> length data = 4 then (p\<lparr>nt_rx_cap := from_le data\<rparr>, ctx)
     else if off = REG_RX_LEN \<and> length data = 4 then (p\<lparr>nt_rx_len := from_le data\<rparr>, ctx)
     else if off = REG_RX_VECTOR \<and> length data = 4 then (p\<lparr>nt_rx_vector := from_le data AND 0xFF\<rparr>, ctx)
     else (p, ctx))"

definition net_snapshot :: "PvNet \<Rightarrow> byte list" where
  "net_snapshot p = to_le (nt_tx_buf_gpa p) @ to_le (nt_tx_len p) @ to_le (nt_tx_status p)
     @ to_le (nt_rx_buf_gpa p) @ to_le (nt_rx_cap p) @ to_le (nt_rx_len p) @ to_le (nt_rx_vector p)"

definition net_restore :: "PvNet \<Rightarrow> byte list \<Rightarrow> u16 \<Rightarrow> (unit, RestoreError) res \<times> PvNet" where
  "net_restore p bytes sec_version =
     (if sec_version \<noteq> NT_SECTION_VERSION \<or> length bytes \<noteq> NT_SECTION_LEN then (Err RestoreError, p)
      else (Ok (), p\<lparr>nt_tx_buf_gpa := from_le (bslice bytes 0 8), nt_tx_len := from_le (bslice bytes 8 12),
                     nt_tx_status := from_le (bslice bytes 12 16), nt_rx_buf_gpa := from_le (bslice bytes 16 24),
                     nt_rx_cap := from_le (bslice bytes 24 28), nt_rx_len := from_le (bslice bytes 28 32),
                     nt_rx_vector := from_le (bslice bytes 32 36)\<rparr>))"

interpretation net_sec: canonical_section net_snapshot net_restore NT_SECTION_VERSION "\<lambda>_. True"
  "\<lambda>p. p" "\<lambda>_. ()"
  by unfold_locales (auto simp: net_snapshot_def net_restore_def wire bslice_join bslice_join_append split: if_splits)

lemma length_net_read [simp]: "length (net_mmio_read off n p) = n"
  by (simp add: net_mmio_read_def)

lemma net_doorbell_logged:
  "\<exists>ops. length ops \<le> 1 \<and> logged ops ctx (snd (net_doorbell env (p, ctx)))"
  by (auto simp: net_doorbell_def split: prod.split
      intro: exI [of _ "[]"] exI [of _ "[x]" for x] logged_refl logged_wrappers)

lemma net_write_logged:
  "\<exists>ops. length ops \<le> 1 \<and> logged ops ctx (snd (net_mmio_write env off data (p, ctx)))"
  using net_doorbell_logged [of ctx env p]
  by (auto simp: net_mmio_write_def intro: exI [of _ "[]"] logged_refl)

section \<open>Properties\<close>

lemma net_rx_recorded: "fst (net_rx i b frame w) = Ok () \<Longrightarrow> frame \<noteq> [] \<and> length frame \<le> 2048"
  by (auto simp: net_rx_def split: if_splits)

text \<open>
  C28. A frame that the log writer recorded is never refused for its size by the device except
  for the guest's own capacity. Over any guest memory that meets the contract of the seam, delivery
  without a published buffer or into one that is too small is an error that changes neither
  registers nor memory. Otherwise the frame is written to the published buffer: if that write
  succeeds the guest reads back exactly the frame, \<open>RX_LEN\<close> reads as its length and the interrupt
  is the programmed vector; if it fails the error is \<open>MemFault\<close> and no register changes, although
  part of the buffer may have been overwritten. Either way no byte outside the buffer changes.
\<close>

theorem net_rx_delivery:
  assumes rec: "fst (net_rx icount rip frame w) = Ok ()"
    and mem: "guest_mem (env_mem_read env) (env_mem_write env)"
    and rx: "apply_net_rx env frame (p, m) = (r, p', m')"
  shows "if nt_rx_buf_gpa p = 0 then r = Err NoRxBuffer \<and> p' = p \<and> m' = m
    else if unat (nt_rx_cap p) < length frame then r = Err FrameTooBig \<and> p' = p \<and> m' = m
    else (if fst (env_mem_write env m (nt_rx_buf_gpa p) frame)
          then r = Ok (if nt_rx_vector p = 0 then None else Some (net_rx_vector p))
            \<and> p' = p\<lparr>nt_rx_len := of_nat (length frame)\<rparr>
            \<and> unat (from_le (net_mmio_read REG_RX_LEN 4 p') :: u32) = length frame
            \<and> env_mem_read env m' (nt_rx_buf_gpa p) (zeros (length frame)) = (True, frame)
          else r = Err MemFault \<and> p' = p)
      \<and> (\<forall>g buf. unat g + length buf \<le> unat (nt_rx_buf_gpa p) \<or> unat (nt_rx_buf_gpa p) + length frame \<le> unat g
           \<longrightarrow> env_mem_read env m' g buf = env_mem_read env m g buf)"
proof -
  have f: "frame \<noteq> []" "length frame \<le> 2048" using net_rx_recorded [OF rec] by auto
  then have l: "word_of_nat_opt (length frame) = Some (of_nat (length frame) :: u32)"
    "unat (of_nat (length frame) :: u32) = length frame"
    by (simp_all add: word_of_nat_opt_def)
  obtain ok m1 where w: "env_mem_write env m (nt_rx_buf_gpa p) frame = (ok, m1)" by fastforce
  have "apply_net_rx env frame (p, m) =
      (if nt_rx_buf_gpa p = 0 then (Err NoRxBuffer, p, m)
       else if unat (nt_rx_cap p) < length frame then (Err FrameTooBig, p, m)
       else if \<not> ok then (Err MemFault, p, m1)
       else (Ok (if nt_rx_vector p = 0 then None else Some (net_rx_vector p)), p\<lparr>nt_rx_len := of_nat (length frame)\<rparr>, m1))"
    using f l by (auto simp: apply_net_rx_def w net_rx_vector_def word_less_nat_alt word_unat_eq_iff)
  moreover note guest_mem.rd_frame [OF mem w]
  moreover have "ok \<Longrightarrow> env_mem_read env m1 (nt_rx_buf_gpa p) (zeros (length frame)) = (True, frame)"
    using guest_mem.rd_after_wr [OF mem] w by simp
  ultimately show ?thesis
    using rx l(2) by (auto simp: w net_mmio_read_def split: if_splits)
qed

theorem net_rx_delivery_witness:
  "guest_mem (env_mem_read vec_env) (env_mem_write vec_env)
   \<and> (case apply_net_rx vec_env [1, 2, 3] (pv_net_new\<lparr>nt_rx_buf_gpa := 4, nt_rx_cap := 16\<rparr>, zeros 8) of (r, p', m') \<Rightarrow>
        r = Ok None \<and> nt_rx_len p' = 3 \<and> vec_mem_read m' 4 (zeros 3) = (True, [1, 2, 3]) \<and> vec_mem_read m' 0 (zeros 4) = (True, zeros 4))"
proof -
  let ?p = "pv_net_new\<lparr>nt_rx_buf_gpa := 4, nt_rx_cap := 16\<rparr>"
  have l: "fst (net_rx 5 0 [1, 2, 3] (log_new ex_header)) = Ok ()"
    by (simp add: net_rx_def log_record_def log_new_def word_of_nat_opt_def)
  have m: "guest_mem (env_mem_read vec_env) (env_mem_write vec_env)"
    using vec_mem.guest_mem_axioms by (simp add: vec_env_def)
  obtain r p' m' where rx: "apply_net_rx vec_env [1, 2, 3] (?p, zeros 8) = (r, p', m')" by (metis prod_cases3)
  have "fst (env_mem_write vec_env (zeros 8) 4 [1, 2, 3])" "vec_mem_read (zeros 8) 0 (zeros 4) = (True, zeros 4)"
    by (simp_all add: vec_env_def vec_mem_write_def vec_mem_read_def bslice_def)
  with net_rx_delivery [OF l m rx] m rx show ?thesis
    by (auto simp: pv_net_new_def vec_env_def numeral_3_eq_3)
qed

end
