(* ===== verification/Debug_Serial.thy ===== *)
theory Debug_Serial
  imports Dev_Ctx
begin

text \<open>
  The output-only serial port, \<open>src/crates/dh-devices/src/serial.rs\<close>: fixed register reads,
  the bounded output buffer with drop-oldest, and the empty snapshot section.
\<close>

abbreviation DEVICE_ID_DEBUG_SERIAL :: u16 where "DEVICE_ID_DEBUG_SERIAL \<equiv> 0x0006"
abbreviation SERIAL_PIO_BASE :: u16 where "SERIAL_PIO_BASE \<equiv> 0x3F8"
abbreviation SERIAL_PIO_LEN :: u16 where "SERIAL_PIO_LEN \<equiv> 8"
abbreviation REG_THR_RBR :: u16 where "REG_THR_RBR \<equiv> 0"
abbreviation REG_IIR_FCR :: u16 where "REG_IIR_FCR \<equiv> 2"
abbreviation REG_LSR :: u16 where "REG_LSR \<equiv> 5"
abbreviation LSR_ALWAYS_READY :: u8 where "LSR_ALWAYS_READY \<equiv> 0x60"
abbreviation IIR_NONE :: u8 where "IIR_NONE \<equiv> 0x01"

definition MAX_PENDING_OUTPUT :: nat where
  "MAX_PENDING_OUTPUT = 1024 * 1024"

record DebugSerial =
  sr_out :: "byte list"
  sr_dropped_bytes :: u64

definition debug_serial_new :: DebugSerial where
  "debug_serial_new = \<lparr>sr_out = [], sr_dropped_bytes = 0\<rparr>"

definition take_output :: "DebugSerial \<Rightarrow> byte list \<times> DebugSerial" where
  "take_output s = (sr_out s, s\<lparr>sr_out := []\<rparr>)"

definition dropped_output_bytes :: "DebugSerial \<Rightarrow> u64" where
  "dropped_output_bytes s = sr_dropped_bytes s"

text \<open>\<open>push_output\<close>; \<open>dropped_bytes += overflow\<close> panics when the count leaves 64 bits.\<close>

definition push_output :: "byte list \<Rightarrow> DebugSerial \<Rightarrow> (unit, unit) res \<times> DebugSerial" where
  "push_output data s =
     (let out = sr_out s @ data in
      if length out > MAX_PENDING_OUTPUT then
        let overflow = length out - MAX_PENDING_OUTPUT;
            s' = s\<lparr>sr_out := drop overflow out\<rparr>
        in case checked_add (sr_dropped_bytes s) (of_nat overflow) of
             Some d \<Rightarrow> (Ok (), s'\<lparr>sr_dropped_bytes := d\<rparr>)
           | None \<Rightarrow> (Panic, s')
      else (Ok (), s\<lparr>sr_out := out\<rparr>))"

definition reg_read :: "u16 \<Rightarrow> u8" where
  "reg_read reg = (if reg = REG_LSR then LSR_ALWAYS_READY else if reg = REG_IIR_FCR then IIR_NONE else 0)"

definition serial_pio_write :: "u16 \<Rightarrow> byte list \<Rightarrow> DebugSerial \<Rightarrow> (unit, unit) res \<times> DebugSerial" where
  "serial_pio_write port data s =
     (if \<not> (SERIAL_PIO_BASE \<le> port \<and> port < SERIAL_PIO_BASE + SERIAL_PIO_LEN) then (Panic, s)
      else if port = SERIAL_PIO_BASE + REG_THR_RBR then push_output data s
      else (Ok (), s))"

definition serial_pio_read :: "u16 \<Rightarrow> nat \<Rightarrow> (byte list, unit) res" where
  "serial_pio_read port n =
     (if \<not> (SERIAL_PIO_BASE \<le> port \<and> port < SERIAL_PIO_BASE + SERIAL_PIO_LEN) then Panic
      else Ok (replicate n (reg_read (if port < SERIAL_PIO_BASE then 0 else port - SERIAL_PIO_BASE))))"

definition serial_mmio_read :: "u64 \<Rightarrow> nat \<Rightarrow> byte list" where
  "serial_mmio_read off n =
     (if n \<noteq> 4 \<or> \<not> (0x08 \<le> off \<and> off < 0x28) \<or> off mod 4 \<noteq> 0 then zeros n
      else to_le (ucast (reg_read (ucast ((off - 0x08) div 4))) :: u32))"

definition serial_mmio_write :: "u64 \<Rightarrow> byte list \<Rightarrow> DebugSerial \<Rightarrow> (unit, unit) res \<times> DebugSerial" where
  "serial_mmio_write off data s =
     (if length data = 4 \<and> off = 0x08 then push_output (take 1 data) s else (Ok (), s))"

definition serial_snapshot :: "DebugSerial \<Rightarrow> byte list" where
  "serial_snapshot s = []"

definition serial_restore :: "DebugSerial \<Rightarrow> byte list \<Rightarrow> u16 \<Rightarrow> (unit, RestoreError) res \<times> DebugSerial" where
  "serial_restore s bytes sec_version =
     (if sec_version \<noteq> 1 \<or> bytes \<noteq> [] then (Err RestoreError, s)
      else (Ok (), s\<lparr>sr_out := [], sr_dropped_bytes := 0\<rparr>))"

section \<open>Bounded output\<close>

lemma push_output_cases:
  obtains (fits) "length (sr_out s) + length data \<le> MAX_PENDING_OUTPUT"
      "push_output data s = (Ok (), s\<lparr>sr_out := sr_out s @ data\<rparr>)"
  | (drops) n d where "length (sr_out s) + length data = MAX_PENDING_OUTPUT + n" "0 < n"
      "checked_add (sr_dropped_bytes s) (of_nat n) = Some d"
      "push_output data s = (Ok (), s\<lparr>sr_out := drop n (sr_out s @ data), sr_dropped_bytes := d\<rparr>)"
  | (overflow) n where "length (sr_out s) + length data = MAX_PENDING_OUTPUT + n"
      "checked_add (sr_dropped_bytes s) (of_nat n) = None"
      "push_output data s = (Panic, s\<lparr>sr_out := drop n (sr_out s @ data)\<rparr>)"
proof (cases "length (sr_out s) + length data \<le> MAX_PENDING_OUTPUT")
  case True
  then show ?thesis by (intro fits) (simp_all add: push_output_def)
next
  case False
  define n where "n = length (sr_out s) + length data - MAX_PENDING_OUTPUT"
  with False have n: "length (sr_out s) + length data = MAX_PENDING_OUTPUT + n" "0 < n" by simp_all
  then show ?thesis
    by (cases "checked_add (sr_dropped_bytes s) (of_nat n)")
      (auto simp: push_output_def Let_def intro: drops overflow)
qed

lemma length_serial_read [simp]: "length (serial_mmio_read off n) = n"
  by (simp add: serial_mmio_read_def)

interpretation serial_sec: canonical_section serial_snapshot serial_restore 1 "\<lambda>_. True" "\<lambda>_. ()" "\<lambda>_. ()"
  by unfold_locales (auto simp: serial_snapshot_def serial_restore_def split: if_splits)

lemma drop_cap:
  "drop (length (drop (length a - M) a @ d) - M) (drop (length a - M) a @ d) = drop (length (a @ d) - M) (a @ d)"
proof -
  have e: "drop (length a - M) a @ d = drop (length a - M) (a @ d)" by simp
  have "length (drop (length a - M) (a @ d)) - M + (length a - M) = length (a @ d) - M" by simp
  then show ?thesis unfolding e drop_drop by simp
qed

lemma push_output_Ok:
  assumes "unat (sr_dropped_bytes s) + (length (sr_out s @ data) - MAX_PENDING_OUTPUT) < 2 ^ 64"
  shows "fst (push_output data s) = Ok ()"
    "sr_out (snd (push_output data s)) = drop (length (sr_out s @ data) - MAX_PENDING_OUTPUT) (sr_out s @ data)"
    "unat (sr_dropped_bytes (snd (push_output data s))) = unat (sr_dropped_bytes s) + (length (sr_out s @ data) - MAX_PENDING_OUTPUT)"
  using assms by (cases rule: push_output_cases [of s data];
    auto simp: checked_add_nat word_of_nat_opt_Some_iff word_of_nat_opt_None_iff)+

section \<open>Properties\<close>

text \<open>
  C29. The pending output is always the last mebibyte of everything the guest transmitted and
  the drop counter is exactly the number of bytes before it: for any sequence of \<open>OUT\<close>s to the
  transmit register (fewer than \<open>2 ^ 64\<close> bytes in all) no write panics, nothing is lost without
  being counted, and the buffer never exceeds its cap.
\<close>

theorem serial_output_bounded:
  assumes "length (concat ws) < 2 ^ 64"
  shows "let s = fold (\<lambda>data s. snd (serial_pio_write SERIAL_PIO_BASE data s)) ws debug_serial_new in
    sr_out s = drop (length (concat ws) - MAX_PENDING_OUTPUT) (concat ws)
    \<and> unat (dropped_output_bytes s) = length (concat ws) - MAX_PENDING_OUTPUT
    \<and> length (sr_out s) \<le> MAX_PENDING_OUTPUT
    \<and> (\<forall>data. length (concat ws) + length data < 2 ^ 64 \<longrightarrow> fst (serial_pio_write SERIAL_PIO_BASE data s) = Ok ())"
proof -
  have push: "fst (push_output data s) = Ok () \<and> sr_out (snd (push_output data s)) = drop (length (all @ data) - MAX_PENDING_OUTPUT) (all @ data)
      \<and> unat (sr_dropped_bytes (snd (push_output data s))) = length (all @ data) - MAX_PENDING_OUTPUT"
    if "sr_out s = drop (length all - MAX_PENDING_OUTPUT) all" "unat (sr_dropped_bytes s) = length all - MAX_PENDING_OUTPUT"
      "length (all @ data) < 2 ^ 64" for s all data
    using that push_output_Ok [of s data] drop_cap [of all MAX_PENDING_OUTPUT data] by auto
  have "sr_out (fold (\<lambda>data s. snd (serial_pio_write SERIAL_PIO_BASE data s)) ws debug_serial_new)
      = drop (length (concat ws) - MAX_PENDING_OUTPUT) (concat ws)
    \<and> unat (sr_dropped_bytes (fold (\<lambda>data s. snd (serial_pio_write SERIAL_PIO_BASE data s)) ws debug_serial_new))
      = length (concat ws) - MAX_PENDING_OUTPUT"
    using assms
  proof (induction ws rule: rev_induct)
    case Nil
    then show ?case by (simp add: debug_serial_new_def)
  next
    case (snoc d ws)
    then show ?case
      using push [of "fold (\<lambda>data s. snd (serial_pio_write SERIAL_PIO_BASE data s)) ws debug_serial_new" "concat ws" d]
      by (simp add: serial_pio_write_def)
  qed
  then show ?thesis
    using push [of "fold (\<lambda>data s. snd (serial_pio_write SERIAL_PIO_BASE data s)) ws debug_serial_new" "concat ws"]
    by (auto simp: Let_def dropped_output_bytes_def serial_pio_write_def)
qed

theorem serial_output_bounded_witness:
  "sr_out (fold (\<lambda>data s. snd (serial_pio_write SERIAL_PIO_BASE data s)) [[72, 105], [10]] debug_serial_new) = [72, 105, 10]"
proof -
  have "length (concat [[72, 105], [10 :: byte]]) < 2 ^ 64" by simp
  from serial_output_bounded [OF this] show ?thesis
    by (simp add: Let_def MAX_PENDING_OUTPUT_def)
qed

end
