(* ===== verification/Mmio_Bus.thy ===== *)
theory Mmio_Bus
  imports Pv_Clock Pv_Pad Pv_Entropy Pv_Net Debug_Serial Pv_Blk
begin

text \<open>
  The MMIO bus, \<open>src/crates/dh-devices/src/bus.rs\<close>, over the devices of the crate. A device is
  one of the models (\<open>Device\<close>; the bus adapter of the guest channel carries its host state and
  ignores device memory), and \<open>dev_mmio_read\<close>/\<open>dev_mmio_write\<close> are the trait's dispatch.
\<close>

abbreviation WINDOW_LEN :: u64 where "WINDOW_LEN \<equiv> 4096"
abbreviation REG_MAGIC :: u64 where "REG_MAGIC \<equiv> 0x00"
abbreviation REG_VERSION :: u64 where "REG_VERSION \<equiv> 0x04"
abbreviation REG_DEVICE_BASE :: u64 where "REG_DEVICE_BASE \<equiv> 0x08"

datatype ('b, 'h) Device =
    DClock PvClock
  | DPad PvPad
  | DEntropy PvEntropy
  | DNet PvNet
  | DSerial DebugSerial
  | DBlk "'b PvBlk"
  | DChannel 'h

fun device_id :: "('b, 'h) Device \<Rightarrow> u16" where
  "device_id (DClock d) = DEVICE_ID_PV_CLOCK"
| "device_id (DPad d) = DEVICE_ID_PV_PAD"
| "device_id (DEntropy d) = DEVICE_ID_PV_ENTROPY"
| "device_id (DNet d) = DEVICE_ID_PV_NET"
| "device_id (DSerial d) = DEVICE_ID_DEBUG_SERIAL"
| "device_id (DBlk d) = DEVICE_ID_PV_BLK"
| "device_id (DChannel d) = DEVICE_ID_DETCHANNEL"

fun section_version :: "('b, 'h) Device \<Rightarrow> u16" where
  "section_version (DChannel d) = 2"
| "section_version d = 1"

fun dev_mmio_read :: "u64 \<Rightarrow> nat \<Rightarrow> ('m, 'e) DevCtx \<Rightarrow> ('b, 'h) Device \<Rightarrow> (byte list, unit) res" where
  "dev_mmio_read off n ctx (DClock d) = clock_mmio_read off n ctx d"
| "dev_mmio_read off n ctx (DPad d) = Ok (pad_mmio_read off n d)"
| "dev_mmio_read off n ctx (DEntropy d) = Ok (entropy_mmio_read off n d)"
| "dev_mmio_read off n ctx (DNet d) = Ok (net_mmio_read off n d)"
| "dev_mmio_read off n ctx (DSerial d) = Ok (serial_mmio_read off n)"
| "dev_mmio_read off n ctx (DBlk d) = Ok (blk_mmio_read off n d)"
| "dev_mmio_read off n ctx (DChannel d) = Ok (zeros n)"

fun dev_mmio_write ::
  "('m, 'e) DevEnv \<Rightarrow> 'b BlockBaseOps \<Rightarrow> u64 \<Rightarrow> byte list \<Rightarrow> ('b, 'h) Device \<times> ('m, 'e) DevCtx
   \<Rightarrow> (unit, unit) res \<times> ('b, 'h) Device \<times> ('m, 'e) DevCtx" where
  "dev_mmio_write env bo off data (DClock d, ctx) = (Ok (), DClock (clock_mmio_write off data d), ctx)"
| "dev_mmio_write env bo off data (DPad d, ctx) =
     (case pad_mmio_write off data (d, ctx) of (d, ctx) \<Rightarrow> (Ok (), DPad d, ctx))"
| "dev_mmio_write env bo off data (DEntropy d, ctx) =
     (case entropy_mmio_write env off data (d, ctx) of (d, ctx) \<Rightarrow> (Ok (), DEntropy d, ctx))"
| "dev_mmio_write env bo off data (DNet d, ctx) =
     (case net_mmio_write env off data (d, ctx) of (d, ctx) \<Rightarrow> (Ok (), DNet d, ctx))"
| "dev_mmio_write env bo off data (DSerial d, ctx) =
     (case serial_mmio_write off data d of (r, d) \<Rightarrow> (r, DSerial d, ctx))"
| "dev_mmio_write env bo off data (DBlk d, ctx) =
     (case blk_mmio_write env bo off data (d, ctx) of (r, d, ctx) \<Rightarrow> (r, DBlk d, ctx))"
| "dev_mmio_write env bo off data (DChannel d, ctx) = (Ok (), DChannel d, ctx)"

section \<open>The bus\<close>

datatype BusError = Unmapped | GuestFault | ReadOnly | BadWindow

record ('b, 'h) MmioBus =
  mb_devices :: "(u64 \<times> ('b, 'h) Device) list"

definition bus_new :: "('b, 'h) MmioBus" where
  "bus_new = \<lparr>mb_devices = []\<rparr>"

text \<open>\<open>binary_search_by_key\<close> on a list sorted by distinct keys: the match or the insertion point.\<close>

definition bus_search :: "u64 \<Rightarrow> (u64 \<times> 'd) list \<Rightarrow> nat + nat" where
  "bus_search key devs =
     (let i = length (takeWhile (\<lambda>(b, _). b < key) devs) in
      if i < length devs \<and> fst (devs ! i) = key then Inr i else Inl i)"

definition bus_register ::
  "u64 \<Rightarrow> ('b, 'h) Device \<Rightarrow> ('b, 'h) MmioBus \<Rightarrow> (unit, BusError) res \<times> ('b, 'h) MmioBus" where
  "bus_register base dev bus =
     (if base mod WINDOW_LEN \<noteq> 0 \<or> checked_add base WINDOW_LEN = None then (Err BadWindow, bus)
      else case bus_search base (mb_devices bus) of
        Inr _ \<Rightarrow> (Err BadWindow, bus)
      | Inl i \<Rightarrow> (Ok (), bus\<lparr>mb_devices := take i (mb_devices bus) @ (base, dev) # drop i (mb_devices bus)\<rparr>))"

definition bus_lookup :: "u64 \<Rightarrow> ('b, 'h) MmioBus \<Rightarrow> (nat, BusError) res" where
  "bus_lookup gpa bus =
     res_bind (case bus_search gpa (mb_devices bus) of
       Inr i \<Rightarrow> Ok i | Inl 0 \<Rightarrow> Err Unmapped | Inl (Suc i) \<Rightarrow> Ok i) (\<lambda>idx.
     res_bind (index_res (mb_devices bus) idx) (\<lambda>(base, _).
     if gpa - base \<ge> WINDOW_LEN then Err Unmapped else Ok idx))"

definition check_access :: "u64 \<Rightarrow> nat \<Rightarrow> (unit, BusError) res" where
  "check_access off n =
     (let len64 = (of_nat n :: u64) in
      if \<not> (n = 4 \<or> n = 8) \<or> off mod len64 \<noteq> 0 then Err GuestFault
      else if off + len64 > WINDOW_LEN then Err GuestFault
      else Ok ())"

definition bus_read ::
  "u64 \<Rightarrow> nat \<Rightarrow> ('m, 'e) DevCtx \<Rightarrow> ('b, 'h) MmioBus \<Rightarrow> (byte list, BusError) res" where
  "bus_read gpa n ctx bus =
     res_bind (bus_lookup gpa bus) (\<lambda>idx.
     let (base, dev) = mb_devices bus ! idx; off = gpa - base in
     res_bind (check_access off n) (\<lambda>_.
     if off = REG_MAGIC then (if n \<noteq> 4 then Err GuestFault else Ok (to_le (ucast (device_id dev) :: u32)))
     else if off = REG_VERSION then (if n \<noteq> 4 then Err GuestFault else Ok (to_le (ucast (section_version dev) :: u32)))
     else (case dev_mmio_read off n ctx dev of Ok bs \<Rightarrow> Ok bs | _ \<Rightarrow> Panic)))"

definition bus_write ::
  "('m, 'e) DevEnv \<Rightarrow> 'b BlockBaseOps \<Rightarrow> u64 \<Rightarrow> byte list \<Rightarrow> ('b, 'h) MmioBus \<times> ('m, 'e) DevCtx
   \<Rightarrow> (unit, BusError) res \<times> ('b, 'h) MmioBus \<times> ('m, 'e) DevCtx" where
  "bus_write env bo gpa data = (\<lambda>(bus, ctx).
     case bus_lookup gpa bus of
       Err e \<Rightarrow> (Err e, bus, ctx)
     | Panic \<Rightarrow> (Panic, bus, ctx)
     | Ok idx \<Rightarrow>
       (let (base, dev) = mb_devices bus ! idx; off = gpa - base in
        case check_access off (length data) of
          Err e \<Rightarrow> (Err e, bus, ctx)
        | Panic \<Rightarrow> (Panic, bus, ctx)
        | Ok _ \<Rightarrow>
          (if off < REG_DEVICE_BASE then (Err ReadOnly, bus, ctx)
           else case dev_mmio_write env bo off data (dev, ctx) of (r, dev, ctx) \<Rightarrow>
             ((case r of Ok _ \<Rightarrow> Ok () | _ \<Rightarrow> Panic), bus\<lparr>mb_devices := (mb_devices bus)[idx := (base, dev)]\<rparr>, ctx))))"

section \<open>The window invariant\<close>

definition bus_inv :: "('b, 'h) MmioBus \<Rightarrow> bool" where
  "bus_inv bus \<longleftrightarrow> sorted_wrt (<) (map fst (mb_devices bus))
     \<and> (\<forall>(b, d) \<in> set (mb_devices bus). unat b mod 4096 = 0 \<and> unat b + 4096 < 2 ^ 64)"

abbreviation covers :: "u64 \<Rightarrow> u64 \<Rightarrow> bool" where
  "covers b gpa \<equiv> unat b \<le> unat gpa \<and> unat gpa < unat b + 4096"

lemma covers_iff: "b \<le> gpa \<Longrightarrow> covers b gpa \<longleftrightarrow> gpa - b < WINDOW_LEN"
  by (auto simp: word_le_nat_alt word_less_nat_alt unat_sub)

lemma windows_disjoint:
  assumes "unat b mod 4096 = 0" "unat c mod 4096 = 0" "covers b gpa" "covers c gpa"
  shows "b = c"
proof -
  have "unat gpa div 4096 = unat b div 4096" if "unat b mod 4096 = 0" "covers b gpa" for b
    using that by (intro div_nat_eqI) (auto simp: algebra_simps)
  from this [of b] this [of c] assms have "unat b div 4096 = unat c div 4096" by simp
  with assms(1,2) have "unat b = unat c"
    by (metis mod_0_imp_dvd dvd_div_eq_cancel)
  then show ?thesis by (simp add: word_unat_eq_iff)
qed

lemma search_found: "bus_search key devs = Inr i \<Longrightarrow> i < length devs \<and> fst (devs ! i) = key"
  by (auto simp: bus_search_def Let_def split: if_splits)

lemma search_absent:
  assumes "sorted_wrt (<) (map fst devs)" "bus_search key devs = Inl i"
  shows "i \<le> length devs" "j < i \<Longrightarrow> fst (devs ! j) < key" "i \<le> j \<Longrightarrow> j < length devs \<Longrightarrow> key < fst (devs ! j)"
proof -
  let ?P = "\<lambda>(b, _). b < key"
  have i: "i = length (takeWhile ?P devs)" and n: "i < length devs \<Longrightarrow> fst (devs ! i) \<noteq> key"
    using assms(2) by (auto simp: bus_search_def Let_def split: if_splits)
  show "i \<le> length devs" unfolding i by (rule length_takeWhile_le)
  show "fst (devs ! j) < key" if "j < i"
  proof -
    have j: "j < length (takeWhile ?P devs)" using that i by simp
    have "?P (takeWhile ?P devs ! j)"
      using set_takeWhileD [OF nth_mem [OF j]] by simp
    then show ?thesis
      unfolding takeWhile_nth [OF j] by (simp add: case_prod_unfold)
  qed
  show "key < fst (devs ! j)" if "i \<le> j" "j < length devs"
  proof -
    have "i < length devs" using that by simp
    then have "\<not> fst (devs ! i) < key"
      using nth_length_takeWhile [of ?P devs] unfolding i by (simp add: case_prod_unfold)
    with n \<open>i < length devs\<close> have "key < fst (devs ! i)" by auto
    moreover have "fst (devs ! i) \<le> fst (devs ! j)"
      using assms(1) that by (cases "i = j") (auto simp: sorted_wrt_iff_nth_less intro: less_imp_le)
    ultimately show ?thesis by simp
  qed
qed

lemma lookup_Ok:
  assumes inv: "bus_inv bus"
  shows "bus_lookup gpa bus = Ok i \<longleftrightarrow> i < length (mb_devices bus) \<and> covers (fst (mb_devices bus ! i)) gpa"
proof -
  let ?d = "mb_devices bus"
  have srt: "sorted_wrt (<) (map fst ?d)" and al: "\<And>j. j < length ?d \<Longrightarrow> unat (fst (?d ! j)) mod 4096 = 0"
    using inv nth_mem [of _ ?d] by (auto simp: bus_inv_def case_prod_unfold)
  have uniq: "j = k" if "j < length ?d" "k < length ?d" "covers (fst (?d ! j)) gpa" "covers (fst (?d ! k)) gpa" for j k
  proof -
    have "fst (?d ! j) = fst (?d ! k)" using windows_disjoint [OF al al] that by blast
    moreover have "distinct (map fst ?d)" using srt by (simp add: strict_sorted_iff)
    ultimately show ?thesis using that(1,2) by (metis distinct_conv_nth length_map nth_map)
  qed
  show ?thesis
  proof (cases "bus_search gpa ?d")
    case (Inr j)
    then have j: "j < length ?d" "fst (?d ! j) = gpa" using search_found by blast+
    then have "bus_lookup gpa bus = Ok j" by (simp add: bus_lookup_def Inr case_prod_unfold)
    with j uniq [of j i] show ?thesis by auto
  next
    case (Inl n)
    note ab = search_absent [OF srt Inl]
    show ?thesis
    proof (cases n)
      case 0
      then have "bus_lookup gpa bus = Err Unmapped" by (simp add: bus_lookup_def Inl)
      moreover have "\<not> covers (fst (?d ! i)) gpa" if "i < length ?d"
        using ab(3) [of i] 0 that by (simp add: word_less_nat_alt)
      ultimately show ?thesis by auto
    next
      case (Suc j)
      have j: "j < length ?d" "fst (?d ! j) < gpa" using ab(1,2) Suc by auto
      have "bus_lookup gpa bus = (if covers (fst (?d ! j)) gpa then Ok j else Err Unmapped)"
        using j covers_iff [of "fst (?d ! j)" gpa]
        by (auto simp: bus_lookup_def Inl Suc case_prod_unfold not_le)
      moreover have "i = j" if "i < length ?d" "covers (fst (?d ! i)) gpa"
      proof (rule ccontr)
        assume "i \<noteq> j"
        have "\<not> gpa < fst (?d ! i)" using that by (simp add: word_less_nat_alt)
        then have "i < n" using ab(3) [of i] that(1) by (cases "i < n") auto
        with \<open>i \<noteq> j\<close> Suc have "i < j" by simp
        then have lt: "fst (?d ! i) < fst (?d ! j)" using srt j by (simp add: sorted_wrt_iff_nth_less)
        then have "covers (fst (?d ! j)) gpa" using that(2) j(2) by (auto simp: word_less_nat_alt)
        from uniq [OF that(1) j(1) that(2) this] \<open>i \<noteq> j\<close> show False by simp
      qed
      ultimately show ?thesis using j by auto
    qed
  qed
qed

lemma lookup_total:
  assumes "bus_inv bus"
  shows "bus_lookup gpa bus \<noteq> Panic" "bus_lookup gpa bus = Err e \<Longrightarrow> e = Unmapped"
proof -
  have "(\<exists>i < length (mb_devices bus). bus_lookup gpa bus = (if gpa - fst (mb_devices bus ! i) \<ge> WINDOW_LEN then Err Unmapped else Ok i))
      \<or> bus_lookup gpa bus = Err Unmapped"
  proof (cases "bus_search gpa (mb_devices bus)")
    case (Inr j)
    with search_found [OF Inr] show ?thesis
      by (intro disjI1 exI [of _ j]) (simp add: bus_lookup_def case_prod_unfold)
  next
    case (Inl n)
    with search_absent(1) [OF _ Inl] assms show ?thesis
      by (cases n) (auto simp: bus_lookup_def bus_inv_def case_prod_unfold intro!: exI [of _ "n - 1"])
  qed
  then show "bus_lookup gpa bus \<noteq> Panic" "bus_lookup gpa bus = Err e \<Longrightarrow> e = Unmapped"
    by (auto split: if_splits)
qed

lemma bus_inv_new: "bus_inv bus_new"
  by (simp add: bus_inv_def bus_new_def)

lemma register_inv:
  assumes inv: "bus_inv bus"
  shows "bus_inv (snd (bus_register base dev bus))"
proof (cases "bus_search base (mb_devices bus)")
  case (Inr j)
  with inv show ?thesis by (simp add: bus_register_def)
next
  case (Inl i)
  let ?d = "mb_devices bus"
  have srt: "sorted_wrt (<) (map fst ?d)" using inv by (simp add: bus_inv_def)
  note ab = search_absent [OF srt Inl]
  have "fst x < base" if "x \<in> set (take i ?d)" for x
    using that ab(1,2) by (auto simp: in_set_conv_nth)
  moreover have "base < fst x" if "x \<in> set (drop i ?d)" for x
    using that ab(3) by (auto simp: in_set_conv_nth)
  moreover have "sorted_wrt (<) (map fst (take i ?d) @ map fst (drop i ?d))"
    using srt by (simp flip: map_append)
  ultimately have s: "sorted_wrt (<) (map fst (take i ?d @ (base, dev) # drop i ?d))"
    by (auto simp: sorted_wrt_append)
  have m: "unat base mod 4096 = unat (base mod WINDOW_LEN)" by (simp add: unat_mod)
  have "unat base mod 4096 = 0 \<and> unat base + 4096 < 2 ^ 64"
    if "base mod WINDOW_LEN = 0" "checked_add base WINDOW_LEN \<noteq> None"
    using that unfolding m by (auto simp: checked_add_def split: if_splits)
  with inv s show ?thesis
    by (auto simp: bus_register_def Inl bus_inv_def dest: in_set_takeD in_set_dropD)
qed

lemma update_inv:
  assumes "bus_inv bus" "i < length (mb_devices bus)"
  shows "bus_inv (bus\<lparr>mb_devices := (mb_devices bus)[i := (fst (mb_devices bus ! i), d)]\<rparr>)"
proof -
  have "map fst ((mb_devices bus)[i := (fst (mb_devices bus ! i), d)]) = map fst (mb_devices bus)"
    using assms(2) by (simp add: map_update) (metis list_update_id nth_map)
  moreover have "x \<in> set (mb_devices bus) \<or> x = (fst (mb_devices bus ! i), d)"
    if "x \<in> set ((mb_devices bus)[i := (fst (mb_devices bus ! i), d)])" for x
    using that set_update_subset_insert by fastforce
  moreover have "mb_devices bus ! i \<in> set (mb_devices bus)" using assms(2) by simp
  ultimately show ?thesis
    using assms(1) unfolding bus_inv_def by (force simp: case_prod_unfold)
qed

lemma write_inv:
  assumes "bus_inv bus"
  shows "bus_inv (fst (snd (bus_write env bo gpa data (bus, ctx))))"
  using assms update_inv [OF assms] lookup_Ok [OF assms, of gpa]
  by (auto simp: bus_write_def Let_def case_prod_unfold split: res.split)

inductive bus_reach :: "('m, 'e) DevEnv \<Rightarrow> 'b BlockBaseOps \<Rightarrow> ('b, 'h) MmioBus \<Rightarrow> bool" for env bo where
  new: "bus_reach env bo bus_new"
| register: "bus_reach env bo bus \<Longrightarrow> bus_reach env bo (snd (bus_register base dev bus))"
| wr: "bus_reach env bo bus \<Longrightarrow> bus_reach env bo (fst (snd (bus_write env bo gpa data (bus, ctx))))"

lemma bus_reach_inv: "bus_reach env bo bus \<Longrightarrow> bus_inv bus"
  by (induction rule: bus_reach.induct) (simp_all add: bus_inv_new register_inv write_inv)

lemma dev_write_logged:
  "\<exists>ops. length ops \<le> 1 \<and> logged ops ctx (snd (snd (dev_mmio_write env bo off data (dev, ctx))))"
proof (cases dev)
  case (DBlk d)
  then show ?thesis
    using blk_write_logged [of ctx env bo off data d] by (auto simp: case_prod_unfold intro: exI [of _ "[]"])
qed (use pad_write_logged [of ctx off data] entropy_write_logged [of ctx env off data] net_write_logged [of ctx env off data]
    in \<open>auto simp: case_prod_unfold logged_refl intro: exI [of _ "[]"]\<close>)

lemma dev_read_length: "dev_mmio_read off n ctx dev = Ok bs \<Longrightarrow> length bs = n"
  by (cases dev) (auto dest: clock_read_length)

section \<open>Properties\<close>

definition access_ok :: "u64 \<Rightarrow> nat \<Rightarrow> bool" where
  "access_ok off n \<longleftrightarrow> (n = 4 \<or> n = 8) \<and> unat off mod n = 0 \<and> unat off + n \<le> 4096"

lemma check_access_iff:
  assumes "off < WINDOW_LEN"
  shows "check_access off n = (if access_ok off n then Ok () else Err GuestFault)"
proof -
  have m: "off mod of_nat n = 0 \<longleftrightarrow> unat off mod n = 0" if "n = 4 \<or> n = 8"
    using that by (auto simp: word_unat_eq_iff unat_mod)
  have "unat off < 4096" using assms by (simp add: word_less_nat_alt)
  then have "off + of_nat n > WINDOW_LEN \<longleftrightarrow> unat off + n > 4096" if "n = 4 \<or> n = 8"
    using that by (auto simp: word_less_nat_alt unat_word_ariths)
  with m show ?thesis
    by (auto simp: check_access_def access_ok_def Let_def)
qed

text \<open>The device that covers an address, by a scan of the windows.\<close>

definition window_at :: "u64 \<Rightarrow> ('b, 'h) MmioBus \<Rightarrow> (u64 \<times> ('b, 'h) Device) option" where
  "window_at gpa bus = find (\<lambda>(b, d). covers b gpa) (mb_devices bus)"

lemma window_lookup:
  assumes inv: "bus_inv bus"
  shows "case bus_lookup gpa bus of
      Ok i \<Rightarrow> i < length (mb_devices bus) \<and> window_at gpa bus = Some (mb_devices bus ! i)
        \<and> gpa - fst (mb_devices bus ! i) < WINDOW_LEN
    | Err e \<Rightarrow> e = Unmapped \<and> window_at gpa bus = None
    | Panic \<Rightarrow> False"
proof (cases "bus_lookup gpa bus")
  case (Ok i)
  have i: "i < length (mb_devices bus)" "covers (fst (mb_devices bus ! i)) gpa"
    using Ok lookup_Ok [OF inv] by auto
  have "j = i" if "j < length (mb_devices bus)" "covers (fst (mb_devices bus ! j)) gpa" for j
    using lookup_Ok [OF inv, of gpa j] that Ok by simp
  then have "\<forall>j < i. \<not> covers (fst (mb_devices bus ! j)) gpa"
    using i(1) less_trans by blast
  with i have "window_at gpa bus = Some (mb_devices bus ! i)"
    unfolding window_at_def find_Some_iff case_prod_unfold by (intro exI [of _ i] conjI) simp_all
  moreover have "gpa - fst (mb_devices bus ! i) < WINDOW_LEN"
    using i covers_iff [of "fst (mb_devices bus ! i)" gpa] by (simp add: word_le_nat_alt)
  ultimately show ?thesis using Ok i by simp
next
  case (Err e)
  have "\<not> covers (fst x) gpa" if "x \<in> set (mb_devices bus)" for x
    using that lookup_Ok [OF inv, of gpa] Err by (auto simp: in_set_conv_nth)
  then have "window_at gpa bus = None"
    by (auto simp: window_at_def find_None_iff case_prod_unfold)
  with Err lookup_total(2) [OF inv Err] show ?thesis by simp
qed (use lookup_total(1) [OF inv] in simp)

text \<open>
  C18. On every bus built by registrations and guest writes, the binary search dispatch is the
  scan of the registered windows: an address outside all of them is unmapped, an access that
  is not 4 or 8 bytes, not naturally aligned or leaves the window is the guest's fault, offsets
  0 and 4 are the 4-byte device id and section version of the bus itself, and every other read
  is the device's own at an offset of at least 8; at most one window covers an address.
\<close>

theorem bus_read_exact:
  assumes reach: "bus_reach env bo bus"
  shows "bus_read gpa n ctx bus = (case window_at gpa bus of
      None \<Rightarrow> Err Unmapped
    | Some (b, d) \<Rightarrow>
        (if \<not> access_ok (gpa - b) n then Err GuestFault
         else if gpa - b < REG_DEVICE_BASE then
           (if n = 4 then Ok (to_le (if gpa = b then ucast (device_id d) else ucast (section_version d) :: u32))
            else Err GuestFault)
         else (case dev_mmio_read (gpa - b) n ctx d of Ok bs \<Rightarrow> Ok bs | _ \<Rightarrow> Panic)))
    \<and> (\<forall>x \<in> set (mb_devices bus). \<forall>y \<in> set (mb_devices bus). covers (fst x) gpa \<and> covers (fst y) gpa \<longrightarrow> x = y)"
proof
  have inv: "bus_inv bus" by (rule bus_reach_inv [OF reach])
  have low: "off = 0 \<or> off = 4" if "access_ok off n" "off < REG_DEVICE_BASE" "n = 4" for off
    using that by (auto simp: access_ok_def word_less_nat_alt word_unat_eq_iff)
  have low8: "off = 0" if "access_ok off n" "off < REG_DEVICE_BASE" "n \<noteq> 4" for off
    using that by (auto simp: access_ok_def word_less_nat_alt word_unat_eq_iff)
  show "bus_read gpa n ctx bus = (case window_at gpa bus of
      None \<Rightarrow> Err Unmapped
    | Some (b, d) \<Rightarrow>
        (if \<not> access_ok (gpa - b) n then Err GuestFault
         else if gpa - b < REG_DEVICE_BASE then
           (if n = 4 then Ok (to_le (if gpa = b then ucast (device_id d) else ucast (section_version d) :: u32))
            else Err GuestFault)
         else (case dev_mmio_read (gpa - b) n ctx d of Ok bs \<Rightarrow> Ok bs | _ \<Rightarrow> Panic)))"
  proof (cases "bus_lookup gpa bus")
    case (Ok i)
    obtain b d where bd: "mb_devices bus ! i = (b, d)" by fastforce
    have w: "window_at gpa bus = Some (b, d)" "gpa - b < WINDOW_LEN"
      using window_lookup [OF inv, of gpa] Ok bd by simp_all
    have z: "gpa - b = 0 \<longleftrightarrow> gpa = b" by simp
    have "\<not> (4 :: u64) < 8 \<Longrightarrow> False" by simp
    then show ?thesis
      using w low [of "gpa - b"] low8 [of "gpa - b"]
      by (auto simp: bus_read_def Ok bd check_access_iff Let_def)
  next
    case (Err e)
    with window_lookup [OF inv, of gpa] show ?thesis by (simp add: bus_read_def)
  qed (use lookup_total(1) [OF inv] in simp)
  show "\<forall>x \<in> set (mb_devices bus). \<forall>y \<in> set (mb_devices bus). covers (fst x) gpa \<and> covers (fst y) gpa \<longrightarrow> x = y"
  proof (intro ballI impI)
    fix x y
    assume "x \<in> set (mb_devices bus)" "y \<in> set (mb_devices bus)" and c: "covers (fst x) gpa \<and> covers (fst y) gpa"
    then obtain i j where "i < length (mb_devices bus)" "j < length (mb_devices bus)"
      "x = mb_devices bus ! i" "y = mb_devices bus ! j" by (auto simp: in_set_conv_nth)
    with c lookup_Ok [OF inv, of gpa i] lookup_Ok [OF inv, of gpa j] show "x = y" by auto
  qed
qed

text \<open>
  C19. What a guest write can do: a refused write changes nothing at all. An accepted one went
  to the one device whose window covers the address, at a naturally aligned offset of at least
  8; it leaves every base, id, version and every other device as they were, and appends at most
  one log record, stamped with the boundary of the exit. If the log had not failed before, the
  fault flag stays clear exactly when that record was accepted, and a set flag stays.
\<close>

theorem bus_write_contract:
  assumes reach: "bus_reach env bo bus"
    and run: "bus_write env bo gpa data (bus, ctx) = (r, bus', ctx')"
  shows "((\<exists>e. r = Err e) \<longrightarrow> bus' = bus \<and> ctx' = ctx)
    \<and> (r = Ok () \<longrightarrow> (\<exists>b d. window_at gpa bus = Some (b, d) \<and> access_ok (gpa - b) (length data) \<and> REG_DEVICE_BASE \<le> gpa - b))
    \<and> map fst (mb_devices bus') = map fst (mb_devices bus)
    \<and> (\<forall>x \<in> set (mb_devices bus'). \<not> covers (fst x) gpa \<longrightarrow> x \<in> set (mb_devices bus))
    \<and> (\<exists>ops. length ops \<le> 1 \<and> logged ops ctx ctx'
        \<and> (cx_log_fault ctx = None \<longrightarrow> (cx_log_fault ctx' = None \<longleftrightarrow> all_accepted ops (cx_log ctx)))
        \<and> (\<forall>e. cx_log_fault ctx = Some e \<longrightarrow> cx_log_fault ctx' = Some e))"
proof -
  have inv: "bus_inv bus" by (rule bus_reach_inv [OF reach])
  have same: ?thesis if "bus' = bus" "ctx' = ctx" "r \<noteq> Ok ()"
    using that logged_refl [of ctx ctx] logged_fault_iff [of "[]" ctx ctx] by (intro conjI exI [of _ "[]"]) auto
  show ?thesis
  proof (cases "bus_lookup gpa bus")
    case (Ok i)
    obtain b d where bd: "mb_devices bus ! i = (b, d)" by fastforce
    have i: "i < length (mb_devices bus)" and w: "window_at gpa bus = Some (b, d)" "gpa - b < WINDOW_LEN"
      using window_lookup [OF inv, of gpa] Ok bd by simp_all
    have cov: "covers b gpa" using lookup_Ok [OF inv, of gpa i] Ok bd by simp
    show ?thesis
    proof (cases "access_ok (gpa - b) (length data) \<and> REG_DEVICE_BASE \<le> gpa - b")
      case False
      then have "bus' = bus \<and> ctx' = ctx \<and> r \<noteq> Ok ()"
        using run w by (auto simp: bus_write_def Ok bd check_access_iff Let_def split: if_splits)
      with same show ?thesis by blast
    next
      case True
      have nl: "\<not> gpa - b < REG_DEVICE_BASE" using True by (simp add: not_less)
      obtain q d' c' where dc: "dev_mmio_write env bo (gpa - b) data (d, ctx) = (q, d', c')"
        by (rule prod_cases3)
      have "((case q of Ok _ \<Rightarrow> Ok () | _ \<Rightarrow> Panic), bus\<lparr>mb_devices := (mb_devices bus)[i := (b, d')]\<rparr>, c') = (r, bus', ctx')"
        using run w True nl dc by (simp add: bus_write_def Ok bd check_access_iff)
      then have dw: "dev_mmio_write env bo (gpa - b) data (d, ctx) = (q, d', ctx')"
        and b': "bus' = bus\<lparr>mb_devices := (mb_devices bus)[i := (b, d')]\<rparr>" and rq: "\<And>e. r \<noteq> Err e"
        using dc by (auto split: res.splits)
      obtain ops where ops: "length ops \<le> 1" "logged ops ctx ctx'"
        using dev_write_logged [of ctx env bo "gpa - b" data d] dw by auto
      have "map fst (mb_devices bus') = map fst (mb_devices bus)"
        using i bd by (simp add: b' map_update) (metis fst_conv list_update_id nth_map)
      moreover have "x \<in> set (mb_devices bus)" if "x \<in> set (mb_devices bus')" "\<not> covers (fst x) gpa" for x
        using that cov set_update_subset_insert [of "mb_devices bus" i "(b, d')"] by (auto simp: b')
      ultimately show ?thesis
        using ops logged_fault_iff [OF ops(2)] logged_fault_sticky [OF ops(2)] w True rq
        by (intro conjI impI ballI allI exI [of _ b] exI [of _ d] exI [of _ ops]) simp_all
    qed
  next
    case (Err e)
    with run have "bus' = bus" "ctx' = ctx" "r = Err e" by (simp_all add: bus_write_def)
    then show ?thesis by (intro same) simp_all
  qed (use lookup_total(1) [OF inv] in simp)
qed

text \<open>A bus with a pad and an entropy device.\<close>

definition ex_bo :: "unit BlockBaseOps" where
  "ex_bo = \<lparr>bb_len_bytes = (\<lambda>_. 0), bb_read_at = (\<lambda>_ _ b. (True, b))\<rparr>"

definition ex_bus :: "(unit, unit) MmioBus" where
  "ex_bus = snd (bus_register PV_ENTROPY_BASE (DEntropy pv_entropy_new) (snd (bus_register PV_PAD_BASE (DPad pv_pad_new) bus_new)))"

lemma ex_bus_reach: "bus_reach vec_env ex_bo ex_bus"
  unfolding ex_bus_def by (intro bus_reach.register bus_reach.new)

lemma ex_bus_devices: "mb_devices ex_bus = [(PV_PAD_BASE, DPad pv_pad_new), (PV_ENTROPY_BASE, DEntropy pv_entropy_new)]"
  by (simp add: ex_bus_def bus_register_def bus_new_def bus_search_def checked_add_def Let_def)

theorem bus_read_exact_witness:
  "bus_read 0xD0002000 4 (vec_ctx []) ex_bus = Ok (to_le (4 :: u32)) \<and> bus_read 0xD0003000 4 (vec_ctx []) ex_bus = Err Unmapped"
proof
  have "window_at 0xD0002000 ex_bus = Some (0xD0002000, DEntropy pv_entropy_new)"
    by (simp add: window_at_def ex_bus_devices)
  then show "bus_read 0xD0002000 4 (vec_ctx []) ex_bus = Ok (to_le (4 :: u32))"
    using conjunct1 [OF bus_read_exact [OF ex_bus_reach, where gpa = "0xD0002000" and n = 4 and ctx = "vec_ctx []"]]
    by (simp add: access_ok_def)
  have "window_at 0xD0003000 ex_bus = None"
    by (simp add: window_at_def ex_bus_devices)
  then show "bus_read 0xD0003000 4 (vec_ctx []) ex_bus = Err Unmapped"
    using conjunct1 [OF bus_read_exact [OF ex_bus_reach, where gpa = "0xD0003000" and n = 4 and ctx = "vec_ctx []"]]
    by simp
qed

theorem bus_write_contract_witness:
  "\<exists>r bus' ctx'. bus_write vec_env ex_bo 0xD000101C [5, 0, 0, 0] (ex_bus, vec_ctx []) = (r, bus', ctx')
    \<and> (\<exists>ops. length ops \<le> 1 \<and> logged ops (vec_ctx []) ctx' \<and> (cx_log_fault ctx' = None \<longleftrightarrow> all_accepted ops (cx_log (vec_ctx []))))"
proof -
  obtain r bus' ctx' where run: "bus_write vec_env ex_bo 0xD000101C [5, 0, 0, 0] (ex_bus, vec_ctx []) = (r, bus', ctx')"
    by (rule prod_cases3)
  have "cx_log_fault (vec_ctx []) = None" by (simp add: vec_ctx_def ctx_new_def)
  with bus_write_contract [OF ex_bus_reach run] obtain ops where "length ops \<le> 1" "logged ops (vec_ctx []) ctx'"
    "cx_log_fault ctx' = None \<longleftrightarrow> all_accepted ops (cx_log (vec_ctx []))" by auto
  with run show ?thesis by (intro exI conjI)
qed

text \<open>
  C25. The register devices' sections are lossless and canonical: restoring a snapshot
  reinstates the device's registers (the clock keeps the rational and base of its new machine,
  the serial port starts empty), exactly the byte strings of the section's length under its
  version are accepted, and an accepted section is the snapshot of the device it restored.
\<close>

theorem register_sections_canonical:
  assumes "pad_wf p"
  shows "clock_restore c' (clock_snapshot c) 1 =
      (Ok (), c'\<lparr>ck_timer_deadline_vns := ck_timer_deadline_vns c, ck_timer_vector := ck_timer_vector c\<rparr>)
    \<and> pad_restore p' (pad_snapshot p) 1 = (Ok (), p)
    \<and> entropy_restore e' (entropy_snapshot e) 1 = (Ok (), e)
    \<and> net_restore n' (net_snapshot n) 1 = (Ok (), n)
    \<and> serial_restore s' (serial_snapshot s) 1 = (Ok (), debug_serial_new)
    \<and> (fst (clock_restore c' b v) = Ok () \<longleftrightarrow> v = 1 \<and> length b = 12)
    \<and> (fst (pad_restore p' b v) = Ok () \<longleftrightarrow> v = 1 \<and> length b = 24)
    \<and> (fst (entropy_restore e' b v) = Ok () \<longleftrightarrow> v = 1 \<and> length b = 16)
    \<and> (fst (net_restore n' b v) = Ok () \<longleftrightarrow> v = 1 \<and> length b = 36)
    \<and> (fst (clock_restore c' b v) = Ok () \<longrightarrow> clock_snapshot (snd (clock_restore c' b v)) = b)
    \<and> (fst (pad_restore p' b v) = Ok () \<longrightarrow> pad_snapshot (snd (pad_restore p' b v)) = b)
    \<and> (fst (entropy_restore e' b v) = Ok () \<longrightarrow> entropy_snapshot (snd (entropy_restore e' b v)) = b)
    \<and> (fst (net_restore n' b v) = Ok () \<longrightarrow> net_snapshot (snd (net_restore n' b v)) = b)"
proof (intro conjI)
  show "clock_restore c' (clock_snapshot c) 1 =
      (Ok (), c'\<lparr>ck_timer_deadline_vns := ck_timer_deadline_vns c, ck_timer_vector := ck_timer_vector c\<rparr>)"
    by (simp add: clock_restore_def clock_snapshot_def wire)
  show "pad_restore p' (pad_snapshot p) 1 = (Ok (), p)"
    using pad_restore_snapshot [OF assms, of p'] by simp
  show "entropy_restore e' (entropy_snapshot e) 1 = (Ok (), e)"
    using entropy_sec.restore_snapshot [of e' e] by (simp add: prod_eq_iff)
  show "net_restore n' (net_snapshot n) 1 = (Ok (), n)"
    using net_sec.restore_snapshot [of n' n] by (simp add: prod_eq_iff)
  show "serial_restore s' (serial_snapshot s) 1 = (Ok (), debug_serial_new)"
    by (simp add: serial_restore_def serial_snapshot_def debug_serial_new_def)
  show "fst (clock_restore c' b v) = Ok () \<longrightarrow> clock_snapshot (snd (clock_restore c' b v)) = b"
    "fst (pad_restore p' b v) = Ok () \<longrightarrow> pad_snapshot (snd (pad_restore p' b v)) = b"
    "fst (entropy_restore e' b v) = Ok () \<longrightarrow> entropy_snapshot (snd (entropy_restore e' b v)) = b"
    "fst (net_restore n' b v) = Ok () \<longrightarrow> net_snapshot (snd (net_restore n' b v)) = b"
    using clock_sec.restore_accepts pad_sec.restore_accepts entropy_sec.restore_accepts net_sec.restore_accepts
    by simp_all
qed (simp_all add: clock_restore_def pad_restore_def entropy_restore_def net_restore_def)

theorem register_sections_canonical_witness:
  "pad_wf pv_pad_new \<and> pad_restore pv_pad_new (pad_snapshot pv_pad_new) 1 = (Ok (), pv_pad_new)"
proof -
  have w: "pad_wf pv_pad_new" by (rule pad_wf_preserved)
  from register_sections_canonical [OF w] w show ?thesis by blast
qed

end
