(* ===== verification/Detchannel.thy ===== *)
theory Detchannel
  imports Dev_Ctx
begin

text \<open>
  The host side of the guest channel, \<open>src/crates/dh-devices/src/detchannel.rs\<close>: the port
  handler, the drains, the inject answers and the \<open>EVTC\<close> section codec.

  The channel itself belongs to the guest SDK crates and is an argument (\<open>ChannelOps\<close>): the
  port numbers and status codes, the operations on an attached channel, the responder and the
  canonical payload of an event. An operation that takes the write sink returns the calls it
  made on it, in order; the sink's methods return nothing, so that is all it can do with it.
  Counters advance modulo \<open>2 ^ 64\<close>, as in a release build; a build with overflow checks would
  panic at the wrap instead.
\<close>

section \<open>Vocabulary of the guest SDK\<close>

datatype InitStatus = InitOk | BadGpa | BadMagicVersion | AlreadyAttached
datatype RingId = RingC | RingI | RingA | RingW
datatype SinkCall = RingPush RingId "byte list" u32 | ConsBump RingId u32 | PioAnswer u16 u32

record ('m, 'ch, 'ev, 'mf, 'r, 'p, 'cmd, 'ctl, 'pe, 'we) ChannelOps =
  port_ident :: u16
  port_init_lo :: u16
  port_init_hi :: u16
  port_init_go :: u16
  port_doorbell :: u16
  port_inject :: u16
  port_quiesce_ack :: u16
  ident_value :: u32
  channel_size_pages :: u32
  init_to_u32 :: "InitStatus \<Rightarrow> u32"
  init_from_u32 :: "u32 \<Rightarrow> InitStatus option"
  ch_attach :: "'m \<Rightarrow> u64 \<Rightarrow> InitStatus + 'ch"
  ch_read_manifest :: "'ch \<Rightarrow> 'mf option"
  ch_producer_seqs :: "'ch \<Rightarrow> u32 \<times> u32"
  ch_restore_seqs :: "u32 \<times> u32 \<Rightarrow> 'ch \<Rightarrow> 'ch"
  ch_intern_name :: "'ch \<Rightarrow> u32 \<Rightarrow> byte list option"
  ch_drain_events :: "'ch \<Rightarrow> ('we + 'ev list) \<times> SinkCall list \<times> 'ch"
  ch_push_command :: "'cmd \<Rightarrow> 'ch \<Rightarrow> 'pe option \<times> SinkCall list \<times> 'ch"
  ch_push_ctrl :: "'ctl \<Rightarrow> 'ch \<Rightarrow> 'pe option \<times> SinkCall list \<times> 'ch"
  ev_inject_query :: "'ev \<Rightarrow> (u32 \<times> u32) option"
  ev_stream_payload :: "'ev \<Rightarrow> (u16 \<times> byte list) option"
  rs_new :: "'p \<Rightarrow> 'r"
  rs_decide :: "u32 \<Rightarrow> u32 \<Rightarrow> byte list option \<Rightarrow> 'r \<Rightarrow> u32 \<times> 'r"
  rs_answer :: "'ch \<Rightarrow> u32 \<Rightarrow> 'r \<Rightarrow> u32 \<times> SinkCall list \<times> 'ch \<times> 'r"

text \<open>\<open>str::from_utf8\<close> of the standard library: the well-formed byte sequences.\<close>

abbreviation utf8_cont :: "byte \<Rightarrow> bool" where
  "utf8_cont b \<equiv> 0x80 \<le> b \<and> b \<le> 0xBF"

fun utf8_valid :: "byte list \<Rightarrow> bool" where
  "utf8_valid [] = True"
| "utf8_valid (a # bs) =
     (if a < 0x80 then utf8_valid bs
      else case bs of [] \<Rightarrow> False | b # bs2 \<Rightarrow>
        if 0xC2 \<le> a \<and> a \<le> 0xDF then utf8_cont b \<and> utf8_valid bs2
        else case bs2 of [] \<Rightarrow> False | c # bs3 \<Rightarrow>
          if 0xE0 \<le> a \<and> a \<le> 0xEF then
            utf8_cont b \<and> (a = 0xE0 \<longrightarrow> 0xA0 \<le> b) \<and> (a = 0xED \<longrightarrow> b \<le> 0x9F) \<and> utf8_cont c \<and> utf8_valid bs3
          else case bs3 of [] \<Rightarrow> False | d # bs4 \<Rightarrow>
            0xF0 \<le> a \<and> a \<le> 0xF4 \<and> utf8_cont b \<and> (a = 0xF0 \<longrightarrow> 0x90 \<le> b) \<and> (a = 0xF4 \<longrightarrow> b \<le> 0x8F)
            \<and> utf8_cont c \<and> utf8_cont d \<and> utf8_valid bs4)"

section \<open>State\<close>

abbreviation INIT_STATUS_NEVER_COMMITTED :: u32 where "INIT_STATUS_NEVER_COMMITTED \<equiv> 0xFFFFFFFF"
abbreviation EVTC_PENDING_NAME_ABSENT :: u32 where "EVTC_PENDING_NAME_ABSENT \<equiv> 0xFFFFFFFF"
abbreviation DOORBELL_RING_A :: u32 where "DOORBELL_RING_A \<equiv> 1"
abbreviation DOORBELL_RING_W :: u32 where "DOORBELL_RING_W \<equiv> 2"
abbreviation EVTC_V1_LEN :: nat where "EVTC_V1_LEN \<equiv> 39"
abbreviation EVTC_LEN :: nat where "EVTC_LEN \<equiv> 43"
abbreviation EVTC_VERSION :: u16 where "EVTC_VERSION \<equiv> 2"

record DetChannelMetrics =
  raz_wi_outs :: u64
  raz_wi_ins :: u64
  inject_in_without_out :: u64
  doorbell_empty_mask :: u64
  drain_failures :: u64
  manifest_read_failures :: u64
  sdk_digest_failures :: u64

definition metrics_default :: DetChannelMetrics where
  "metrics_default = \<lparr>raz_wi_outs = 0, raz_wi_ins = 0, inject_in_without_out = 0, doorbell_empty_mask = 0,
     drain_failures = 0, manifest_read_failures = 0, sdk_digest_failures = 0\<rparr>"

definition any_anomaly :: "DetChannelMetrics \<Rightarrow> bool" where
  "any_anomaly m \<longleftrightarrow> drain_failures m > 0 \<or> sdk_digest_failures m > 0"

datatype 'pe PushChannelError = NotAttached | Push 'pe

record PendingInjectSnapshot =
  pi_name_id :: u32
  pi_name :: "byte list option"

type_synonym pending = "(u32, PendingInjectSnapshot) fmap"

record ('m, 'ch, 'mf, 'r, 'we) DetChannelHost =
  dc_mem :: 'm
  dc_channel :: "'ch option"
  dc_init_lo :: u32
  dc_init_hi :: u32
  dc_init_status :: u32
  dc_channel_gpa :: "u64 option"
  dc_manifest :: "'mf option"
  dc_inject_iseq :: "u32 option"
  dc_pending_injects :: pending
  dc_restored_pending_injects :: pending
  dc_responder :: 'r
  dc_last_quiesce_ack :: "u32 option"
  dc_last_drain_error :: "'we option"
  dc_metrics :: DetChannelMetrics

definition dc_new ::
  "('m, 'ch, 'ev, 'mf, 'r, 'p, 'cmd, 'ctl, 'pe, 'we) ChannelOps \<Rightarrow> 'm \<Rightarrow> 'p \<Rightarrow> ('m, 'ch, 'mf, 'r, 'we) DetChannelHost" where
  "dc_new ops mem plan = \<lparr>dc_mem = mem, dc_channel = None, dc_init_lo = 0, dc_init_hi = 0,
     dc_init_status = INIT_STATUS_NEVER_COMMITTED, dc_channel_gpa = None, dc_manifest = None,
     dc_inject_iseq = None, dc_pending_injects = fmempty, dc_restored_pending_injects = fmempty,
     dc_responder = rs_new ops plan, dc_last_quiesce_ack = None, dc_last_drain_error = None,
     dc_metrics = metrics_default\<rparr>"

definition dc_producer_seqs ::
  "('m, 'ch, 'ev, 'mf, 'r, 'p, 'cmd, 'ctl, 'pe, 'we) ChannelOps \<Rightarrow> ('m, 'ch, 'mf, 'r, 'we) DetChannelHost \<Rightarrow> (u32 \<times> u32) option" where
  "dc_producer_seqs ops h = map_option (ch_producer_seqs ops) (dc_channel h)"

definition dc_restore_producer_seqs ::
  "('m, 'ch, 'ev, 'mf, 'r, 'p, 'cmd, 'ctl, 'pe, 'we) ChannelOps \<Rightarrow> u32 \<times> u32
   \<Rightarrow> ('m, 'ch, 'mf, 'r, 'we) DetChannelHost \<Rightarrow> ('m, 'ch, 'mf, 'r, 'we) DetChannelHost" where
  "dc_restore_producer_seqs ops seqs h = h\<lparr>dc_channel := map_option (ch_restore_seqs ops seqs) (dc_channel h)\<rparr>"

definition take_quiesce_ack ::
  "('m, 'ch, 'mf, 'r, 'we) DetChannelHost \<Rightarrow> u32 option \<times> ('m, 'ch, 'mf, 'r, 'we) DetChannelHost" where
  "take_quiesce_ack h = (dc_last_quiesce_ack h, h\<lparr>dc_last_quiesce_ack := None\<rparr>)"

section \<open>The \<open>EVTC\<close> section\<close>

definition evtc_opt :: "u32 option \<Rightarrow> byte list" where
  "evtc_opt x = (if x \<noteq> None then 1 else 0) # to_le (case x of Some v \<Rightarrow> v | None \<Rightarrow> 0)"

definition pending_entry :: "u32 \<times> PendingInjectSnapshot \<Rightarrow> byte list" where
  "pending_entry = (\<lambda>(iseq, q). to_le iseq @ to_le (pi_name_id q) @ (case pi_name q of
     Some name \<Rightarrow> to_le (of_nat (length name) :: u32) @ name
   | None \<Rightarrow> to_le EVTC_PENDING_NAME_ABSENT))"

text \<open>
  \<open>snapshot\<close>: the two \<open>expect\<close>s (table and name lengths that do not fit 32 bits) are the panic.
\<close>

definition evtc_snapshot ::
  "('m, 'ch, 'ev, 'mf, 'r, 'p, 'cmd, 'ctl, 'pe, 'we) ChannelOps \<Rightarrow> ('m, 'ch, 'mf, 'r, 'we) DetChannelHost
   \<Rightarrow> (byte list, unit) res" where
  "evtc_snapshot ops h =
     (let entries = fm_entries (dc_pending_injects h) in
      if length entries \<ge> 2 ^ 32
         \<or> (\<exists>e \<in> set entries. case pi_name (snd e) of Some name \<Rightarrow> length name \<ge> 2 ^ 32 | None \<Rightarrow> False)
      then Panic
      else Ok (to_le (dc_init_lo h) @ to_le (dc_init_hi h) @ to_le (dc_init_status h)
        @ evtc_opt (dc_inject_iseq h) @ evtc_opt (dc_last_quiesce_ack h)
        @ (case (dc_channel h, dc_channel_gpa h) of
             (Some c, Some gpa) \<Rightarrow> 1 # to_le gpa @ to_le (fst (ch_producer_seqs ops c)) @ to_le (snd (ch_producer_seqs ops c))
           | _ \<Rightarrow> 0 # zeros 16)
        @ to_le (of_nat (length entries) :: u32) @ concat (map pending_entry entries)))"

definition evtc_present_flag :: "byte list \<Rightarrow> nat \<Rightarrow> nat \<Rightarrow> nat \<Rightarrow> (bool, RestoreError) res" where
  "evtc_present_flag bytes flag_at lo hi =
     res_bind (index_res bytes flag_at) (\<lambda>flag.
     if flag = 0 then
       res_bind (slice_res bytes lo hi) (\<lambda>payload.
       if list_ex (\<lambda>b. b \<noteq> 0) payload then Err RestoreError else Ok False)
     else if flag = 1 then Ok True
     else Err RestoreError)"

definition validate_evtc_prefix ::
  "('m, 'ch, 'ev, 'mf, 'r, 'p, 'cmd, 'ctl, 'pe, 'we) ChannelOps \<Rightarrow> byte list \<Rightarrow> (bool, RestoreError) res" where
  "validate_evtc_prefix ops bytes =
     (if length bytes < EVTC_V1_LEN then Err RestoreError
      else res_bind (rd_u32 bytes 8) (\<lambda>init_status.
      res_bind (if init_status = INIT_STATUS_NEVER_COMMITTED then Ok None
                else res_bind (ok_or (init_from_u32 ops init_status) RestoreError) (\<lambda>s. Ok (Some s))) (\<lambda>status.
      res_bind (evtc_present_flag bytes 12 13 17) (\<lambda>_.
      res_bind (evtc_present_flag bytes 17 18 22) (\<lambda>_.
      res_bind (evtc_present_flag bytes 22 23 39) (\<lambda>attached.
      if attached \<and> (status = Some InitOk \<or> status = Some AlreadyAttached) then Ok attached
      else if \<not> attached \<and> (status = None \<or> status = Some BadGpa \<or> status = Some BadMagicVersion) then Ok attached
      else Err RestoreError))))))"

primrec evtc_pending_loop ::
  "byte list \<Rightarrow> nat \<Rightarrow> nat \<Rightarrow> u32 option \<Rightarrow> pending \<Rightarrow> (pending \<times> nat, RestoreError) res" where
  "evtc_pending_loop bytes 0 at prev_iseq pending = Ok (pending, at)"
| "evtc_pending_loop bytes (Suc n) at prev_iseq pending =
     (if at + 12 > length bytes then Err RestoreError
      else res_bind (rd_u32 bytes at) (\<lambda>iseq. res_bind (rd_u32 bytes (at + 4)) (\<lambda>name_id.
      res_bind (rd_u32 bytes (at + 8)) (\<lambda>name_len.
      if (case prev_iseq of Some prev \<Rightarrow> iseq \<le> prev | None \<Rightarrow> False) then Err RestoreError
      else res_bind
        (if name_len = EVTC_PENDING_NAME_ABSENT then Ok (None, at + 12)
         else if at + 12 + unat name_len > length bytes then Err RestoreError
         else res_bind (slice_res bytes (at + 12) (at + 12 + unat name_len)) (\<lambda>name.
           if \<not> utf8_valid name then Err RestoreError
           else Ok (Some name, at + 12 + unat name_len))) (\<lambda>(name, at).
      evtc_pending_loop bytes n at (Some iseq)
        (fmupd iseq \<lparr>pi_name_id = name_id, pi_name = name\<rparr> pending))))))"

definition evtc_pending_injects :: "byte list \<Rightarrow> u16 \<Rightarrow> bool \<Rightarrow> (pending, RestoreError) res" where
  "evtc_pending_injects bytes version attached =
     (if version = 1 then (if length bytes \<noteq> EVTC_V1_LEN then Err RestoreError else Ok fmempty)
      else if version \<noteq> EVTC_VERSION \<or> length bytes < EVTC_LEN then Err RestoreError
      else res_bind (rd_u32 bytes EVTC_V1_LEN) (\<lambda>count.
      if \<not> attached \<and> count \<noteq> 0 then Err RestoreError
      else res_bind (evtc_pending_loop bytes (unat count) EVTC_LEN None fmempty) (\<lambda>(pending, at).
      if at \<noteq> length bytes then Err RestoreError else Ok pending)))"

definition validate_evtc_section ::
  "('m, 'ch, 'ev, 'mf, 'r, 'p, 'cmd, 'ctl, 'pe, 'we) ChannelOps \<Rightarrow> byte list \<Rightarrow> u16 \<Rightarrow> (unit, RestoreError) res" where
  "validate_evtc_section ops bytes version =
     (if version \<noteq> 1 \<and> version \<noteq> EVTC_VERSION then Err RestoreError
      else res_bind (validate_evtc_prefix ops bytes) (\<lambda>attached.
      res_bind (evtc_pending_injects bytes version attached) (\<lambda>_. Ok ())))"

definition evtc_attach ::
  "('m, 'ch, 'ev, 'mf, 'r, 'p, 'cmd, 'ctl, 'pe, 'we) ChannelOps \<Rightarrow> 'm \<Rightarrow> byte list
   \<Rightarrow> ('ch option \<times> u64 option \<times> 'mf option, RestoreError) res" where
  "evtc_attach ops mem bytes =
     (let gpa = from_le (bslice bytes 23 31);
          seqs = (from_le (bslice bytes 31 35), from_le (bslice bytes 35 39))
      in case ch_attach ops mem gpa of
           Inl _ \<Rightarrow> Err RestoreError
         | Inr ch \<Rightarrow> let ch = ch_restore_seqs ops seqs ch
             in Ok (Some ch, Some gpa, ch_read_manifest ops ch))"

text \<open>\<open>restore\<close>: everything that can fail runs before the first assignment.\<close>

definition evtc_restore ::
  "('m, 'ch, 'ev, 'mf, 'r, 'p, 'cmd, 'ctl, 'pe, 'we) ChannelOps \<Rightarrow> byte list \<Rightarrow> u16 \<Rightarrow> 'p
   \<Rightarrow> ('m, 'ch, 'mf, 'r, 'we) DetChannelHost \<Rightarrow> (unit, RestoreError) res \<times> ('m, 'ch, 'mf, 'r, 'we) DetChannelHost" where
  "evtc_restore ops bytes version plan h =
     (case (res_bind (validate_evtc_section ops bytes version) (\<lambda>_.
       let attached = (bytes ! 22 = 1) in
       res_bind (evtc_pending_injects bytes version attached) (\<lambda>pending.
       res_bind (if attached then evtc_attach ops (dc_mem h) bytes else Ok (None, None, None)) (\<lambda>parts.
       Ok (pending, parts))))) of
     Ok (pending, channel, channel_gpa, manifest) \<Rightarrow>
       (Ok (), h\<lparr>dc_init_lo := from_le (bslice bytes 0 4), dc_init_hi := from_le (bslice bytes 4 8),
          dc_init_status := from_le (bslice bytes 8 12),
          dc_inject_iseq := (if bytes ! 12 = 1 then Some (from_le (bslice bytes 13 17)) else None),
          dc_pending_injects := pending, dc_restored_pending_injects := pending,
          dc_last_quiesce_ack := (if bytes ! 17 = 1 then Some (from_le (bslice bytes 18 22)) else None),
          dc_channel := channel, dc_channel_gpa := channel_gpa, dc_manifest := manifest,
          dc_responder := rs_new ops plan, dc_last_drain_error := None,
          dc_metrics := metrics_default\<lparr>manifest_read_failures :=
            (if channel \<noteq> None \<and> manifest = None then 1 else 0)\<rparr>\<rparr>)
   | Err e \<Rightarrow> (Err e, h)
   | Panic \<Rightarrow> (Panic, h))"

section \<open>The logging sink\<close>

definition ring_id_byte :: "RingId \<Rightarrow> u8" where
  "ring_id_byte r = (case r of RingC \<Rightarrow> 0 | RingI \<Rightarrow> 1 | RingA \<Rightarrow> 2 | RingW \<Rightarrow> 3)"

fun sink_call :: "SinkCall \<Rightarrow> ('a, 'e) DevCtx \<Rightarrow> ('a, 'e) DevCtx" where
  "sink_call (RingPush ring bytes new_prod) ctx =
     log_dev_event DEVICE_ID_DETCHANNEL EVENT_RING_PUSH ([ring_id_byte ring] @ zeros 3 @ to_le new_prod @ bytes) ctx"
| "sink_call (ConsBump ring new_cons) ctx =
     log_dev_event DEVICE_ID_DETCHANNEL EVENT_CONS_BUMP
       (overwrite ((zeros 8)[0 := ring_id_byte ring]) 4 (to_le new_cons)) ctx"
| "sink_call (PioAnswer port value) ctx = log_pio_answer port value ctx"

definition sink_calls :: "SinkCall list \<Rightarrow> ('a, 'e) DevCtx \<Rightarrow> ('a, 'e) DevCtx" where
  "sink_calls cs ctx = fold sink_call cs ctx"

definition sdk_event_digest ::
  "('m, 'ch, 'ev, 'mf, 'r, 'p, 'cmd, 'ctl, 'pe, 'we) ChannelOps \<Rightarrow> (byte list \<Rightarrow> byte list) \<Rightarrow> 'ev \<Rightarrow> (u16 \<times> u32 \<times> u64) option" where
  "sdk_event_digest ops blake3 ev = (case ev_stream_payload ops ev of
     None \<Rightarrow> None
   | Some (kind, payload) \<Rightarrow> Some (kind, of_nat (length payload), digest8 blake3 payload))"

section \<open>Handlers\<close>

definition dc_push_command ::
  "('m, 'ch, 'ev, 'mf, 'r, 'p, 'cmd, 'ctl, 'pe, 'we) ChannelOps \<Rightarrow> 'cmd
   \<Rightarrow> ('m, 'ch, 'mf, 'r, 'we) DetChannelHost \<times> ('a, 'e) DevCtx
   \<Rightarrow> (unit, 'pe PushChannelError) res \<times> ('m, 'ch, 'mf, 'r, 'we) DetChannelHost \<times> ('a, 'e) DevCtx" where
  "dc_push_command ops cmd = (\<lambda>(h, ctx). case dc_channel h of
     None \<Rightarrow> (Err NotAttached, h, ctx)
   | Some ch \<Rightarrow> (case ch_push_command ops cmd ch of (r, calls, ch) \<Rightarrow>
       ((case r of None \<Rightarrow> Ok () | Some e \<Rightarrow> Err (Push e)), h\<lparr>dc_channel := Some ch\<rparr>, sink_calls calls ctx)))"

definition dc_push_workload_ctrl ::
  "('m, 'ch, 'ev, 'mf, 'r, 'p, 'cmd, 'ctl, 'pe, 'we) ChannelOps \<Rightarrow> 'ctl
   \<Rightarrow> ('m, 'ch, 'mf, 'r, 'we) DetChannelHost \<times> ('a, 'e) DevCtx
   \<Rightarrow> (unit, 'pe PushChannelError) res \<times> ('m, 'ch, 'mf, 'r, 'we) DetChannelHost \<times> ('a, 'e) DevCtx" where
  "dc_push_workload_ctrl ops ctl = (\<lambda>(h, ctx). case dc_channel h of
     None \<Rightarrow> (Err NotAttached, h, ctx)
   | Some ch \<Rightarrow> (case ch_push_ctrl ops ctl ch of (r, calls, ch) \<Rightarrow>
       ((case r of None \<Rightarrow> Ok () | Some e \<Rightarrow> Err (Push e)), h\<lparr>dc_channel := Some ch\<rparr>, sink_calls calls ctx)))"

definition channel_init ::
  "('m, 'ch, 'ev, 'mf, 'r, 'p, 'cmd, 'ctl, 'pe, 'we) ChannelOps \<Rightarrow> u32
   \<Rightarrow> ('m, 'ch, 'mf, 'r, 'we) DetChannelHost \<Rightarrow> InitStatus \<times> ('m, 'ch, 'mf, 'r, 'we) DetChannelHost" where
  "channel_init ops size_pages h =
     (if dc_channel h \<noteq> None then (AlreadyAttached, h)
      else if size_pages \<noteq> channel_size_pages ops then (BadMagicVersion, h)
      else let gpa = (push_bit 32 (ucast (dc_init_hi h)) OR ucast (dc_init_lo h) :: u64) in
        if gpa mod (ucast (channel_size_pages ops) * 4096) \<noteq> 0 then (BadGpa, h)
        else case ch_attach ops (dc_mem h) gpa of
          Inr ch \<Rightarrow>
            (let h = (case ch_read_manifest ops ch of
                 Some m \<Rightarrow> h\<lparr>dc_manifest := Some m\<rparr>
               | None \<Rightarrow> h\<lparr>dc_metrics := (dc_metrics h)\<lparr>manifest_read_failures := manifest_read_failures (dc_metrics h) + 1\<rparr>\<rparr>)
             in (InitOk, h\<lparr>dc_channel := Some ch, dc_channel_gpa := Some gpa\<rparr>))
        | Inl status \<Rightarrow> (status, h))"

text \<open>The per-event step of \<open>drain\<close>.\<close>

definition drain_event ::
  "('m, 'ch, 'ev, 'mf, 'r, 'p, 'cmd, 'ctl, 'pe, 'we) ChannelOps \<Rightarrow> (byte list \<Rightarrow> byte list) \<Rightarrow> 'ev
   \<Rightarrow> ('m, 'ch, 'mf, 'r, 'we) DetChannelHost \<times> ('a, 'e) DevCtx
   \<Rightarrow> ('m, 'ch, 'mf, 'r, 'we) DetChannelHost \<times> ('a, 'e) DevCtx" where
  "drain_event ops blake3 ev = (\<lambda>(h, ctx).
     let h = (case ev_inject_query ops ev of
         Some (iseq, name_id) \<Rightarrow>
           (let name = Option.bind (dc_channel h) (\<lambda>c. ch_intern_name ops c name_id)
            in h\<lparr>dc_pending_injects := fmupd iseq \<lparr>pi_name_id = name_id, pi_name = name\<rparr> (dc_pending_injects h),
                 dc_restored_pending_injects := fmdrop iseq (dc_restored_pending_injects h)\<rparr>)
       | None \<Rightarrow> h)
     in case sdk_event_digest ops blake3 ev of
          Some (stream, len, dig) \<Rightarrow> (h, log_sdk_event stream len dig ctx)
        | None \<Rightarrow> (h\<lparr>dc_metrics := (dc_metrics h)\<lparr>sdk_digest_failures := sdk_digest_failures (dc_metrics h) + 1\<rparr>\<rparr>, ctx))"

definition dc_drain ::
  "('m, 'ch, 'ev, 'mf, 'r, 'p, 'cmd, 'ctl, 'pe, 'we) ChannelOps \<Rightarrow> (byte list \<Rightarrow> byte list)
   \<Rightarrow> ('m, 'ch, 'mf, 'r, 'we) DetChannelHost \<times> ('a, 'e) DevCtx
   \<Rightarrow> 'ev list \<times> ('m, 'ch, 'mf, 'r, 'we) DetChannelHost \<times> ('a, 'e) DevCtx" where
  "dc_drain ops blake3 = (\<lambda>(h, ctx). case dc_channel h of
     None \<Rightarrow> ([], h, ctx)
   | Some ch \<Rightarrow> (case ch_drain_events ops ch of (r, calls, ch) \<Rightarrow>
       (let h = h\<lparr>dc_channel := Some ch\<rparr>; ctx = sink_calls calls ctx in
        case r of
          Inr events \<Rightarrow> (events, fold (drain_event ops blake3) events (h, ctx))
        | Inl e \<Rightarrow> ([], h\<lparr>dc_metrics := (dc_metrics h)\<lparr>drain_failures := drain_failures (dc_metrics h) + 1\<rparr>,
                          dc_last_drain_error := Some e\<rparr>, ctx))))"

definition inject_answer ::
  "('m, 'ch, 'ev, 'mf, 'r, 'p, 'cmd, 'ctl, 'pe, 'we) ChannelOps
   \<Rightarrow> ('m, 'ch, 'mf, 'r, 'we) DetChannelHost \<times> ('a, 'e) DevCtx
   \<Rightarrow> u32 \<times> ('m, 'ch, 'mf, 'r, 'we) DetChannelHost \<times> ('a, 'e) DevCtx" where
  "inject_answer ops = (\<lambda>(h, ctx). case dc_inject_iseq h of
     None \<Rightarrow> (0, h\<lparr>dc_metrics := (dc_metrics h)\<lparr>inject_in_without_out := inject_in_without_out (dc_metrics h) + 1\<rparr>\<rparr>,
              log_pio_answer (port_inject ops) 0 ctx)
   | Some iseq \<Rightarrow>
       (let h = h\<lparr>dc_inject_iseq := None\<rparr> in
        case dc_channel h of
          None \<Rightarrow> (0, h\<lparr>dc_metrics := (dc_metrics h)\<lparr>inject_in_without_out := inject_in_without_out (dc_metrics h) + 1\<rparr>\<rparr>,
                   log_pio_answer (port_inject ops) 0 ctx)
        | Some ch \<Rightarrow>
            (case fmlookup (dc_restored_pending_injects h) iseq of
               Some q \<Rightarrow>
                 (let live = ch_intern_name ops ch (pi_name_id q);
                      name = (case live of Some n \<Rightarrow> Some n | None \<Rightarrow> pi_name q)
                  in case rs_decide ops iseq (pi_name_id q) name (dc_responder h) of (value, rs) \<Rightarrow>
                    (value, h\<lparr>dc_restored_pending_injects := fmdrop iseq (dc_restored_pending_injects h),
                              dc_pending_injects := fmdrop iseq (dc_pending_injects h), dc_responder := rs\<rparr>,
                     sink_call (PioAnswer (port_inject ops) value) ctx))
             | None \<Rightarrow>
                 (case rs_answer ops ch iseq (dc_responder h) of (value, calls, ch, rs) \<Rightarrow>
                   (value, h\<lparr>dc_channel := Some ch, dc_responder := rs,
                             dc_pending_injects := fmdrop iseq (dc_pending_injects h)\<rparr>,
                    sink_calls calls ctx)))))"

definition dc_pio_out ::
  "('m, 'ch, 'ev, 'mf, 'r, 'p, 'cmd, 'ctl, 'pe, 'we) ChannelOps \<Rightarrow> (byte list \<Rightarrow> byte list) \<Rightarrow> u16 \<Rightarrow> u32
   \<Rightarrow> ('m, 'ch, 'mf, 'r, 'we) DetChannelHost \<times> ('a, 'e) DevCtx
   \<Rightarrow> 'ev list \<times> ('m, 'ch, 'mf, 'r, 'we) DetChannelHost \<times> ('a, 'e) DevCtx" where
  "dc_pio_out ops blake3 port value = (\<lambda>(h, ctx).
     if port = port_init_lo ops then ([], h\<lparr>dc_init_lo := value\<rparr>, ctx)
     else if port = port_init_hi ops then ([], h\<lparr>dc_init_hi := value\<rparr>, ctx)
     else if port = port_init_go ops then
       (case channel_init ops value h of (status, h) \<Rightarrow> ([], h\<lparr>dc_init_status := init_to_u32 ops status\<rparr>, ctx))
     else if port = port_doorbell ops then
       (if value AND (DOORBELL_RING_A OR DOORBELL_RING_W) = 0 then
          ([], h\<lparr>dc_metrics := (dc_metrics h)\<lparr>doorbell_empty_mask := doorbell_empty_mask (dc_metrics h) + 1\<rparr>\<rparr>, ctx)
        else dc_drain ops blake3 (h, ctx))
     else if port = port_inject ops then dc_drain ops blake3 (h\<lparr>dc_inject_iseq := Some value\<rparr>, ctx)
     else if port = port_quiesce_ack ops then ([], h\<lparr>dc_last_quiesce_ack := Some value\<rparr>, ctx)
     else ([], h\<lparr>dc_metrics := (dc_metrics h)\<lparr>raz_wi_outs := raz_wi_outs (dc_metrics h) + 1\<rparr>\<rparr>, ctx))"

definition dc_pio_in ::
  "('m, 'ch, 'ev, 'mf, 'r, 'p, 'cmd, 'ctl, 'pe, 'we) ChannelOps \<Rightarrow> u16
   \<Rightarrow> ('m, 'ch, 'mf, 'r, 'we) DetChannelHost \<times> ('a, 'e) DevCtx
   \<Rightarrow> u32 \<times> ('m, 'ch, 'mf, 'r, 'we) DetChannelHost \<times> ('a, 'e) DevCtx" where
  "dc_pio_in ops port = (\<lambda>(h, ctx).
     let logged_answer = (\<lambda>value h. (value, h, log_pio_answer port value ctx)) in
     if port = port_ident ops then logged_answer (ident_value ops) h
     else if port = port_init_lo ops then logged_answer (dc_init_lo h) h
     else if port = port_init_hi ops then logged_answer (dc_init_hi h) h
     else if port = port_init_go ops then logged_answer (dc_init_status h) h
     else if port = port_doorbell ops \<or> port = port_quiesce_ack ops then logged_answer 0 h
     else if port = port_inject ops then inject_answer ops (h, ctx)
     else logged_answer 0 (h\<lparr>dc_metrics := (dc_metrics h)\<lparr>raz_wi_ins := raz_wi_ins (dc_metrics h) + 1\<rparr>\<rparr>))"

definition drain_at_pause ::
  "('m, 'ch, 'ev, 'mf, 'r, 'p, 'cmd, 'ctl, 'pe, 'we) ChannelOps \<Rightarrow> (byte list \<Rightarrow> byte list)
   \<Rightarrow> ('m, 'ch, 'mf, 'r, 'we) DetChannelHost \<times> ('a, 'e) DevCtx
   \<Rightarrow> 'ev list \<times> ('m, 'ch, 'mf, 'r, 'we) DetChannelHost \<times> ('a, 'e) DevCtx" where
  "drain_at_pause ops blake3 = dc_drain ops blake3"

text \<open>The bus adapter: device memory is read as zeros; restore validates before drawing a plan.\<close>

definition evtc_guest_ram_ranges ::
  "('m, 'ch, 'ev, 'mf, 'r, 'p, 'cmd, 'ctl, 'pe, 'we) ChannelOps \<Rightarrow> ('m, 'ch, 'mf, 'r, 'we) DetChannelHost \<Rightarrow> (u64 \<times> u64) list" where
  "evtc_guest_ram_ranges ops h = (case dc_channel_gpa h of
     Some gpa \<Rightarrow> [(gpa, ucast (channel_size_pages ops) * 4096)] | None \<Rightarrow> [])"

definition evtc_device_restore ::
  "('m, 'ch, 'ev, 'mf, 'r, 'p, 'cmd, 'ctl, 'pe, 'we) ChannelOps \<Rightarrow> ('g \<Rightarrow> 'p \<times> 'g) \<Rightarrow> byte list \<Rightarrow> u16
   \<Rightarrow> ('m, 'ch, 'mf, 'r, 'we) DetChannelHost \<times> 'g
   \<Rightarrow> (unit, RestoreError) res \<times> ('m, 'ch, 'mf, 'r, 'we) DetChannelHost \<times> 'g" where
  "evtc_device_restore ops restore_plan bytes version = (\<lambda>(h, g).
     case validate_evtc_section ops bytes version of
       Ok _ \<Rightarrow> (case restore_plan g of (plan, g) \<Rightarrow>
         (case evtc_restore ops bytes version plan h of (r, h) \<Rightarrow> (r, h, g)))
     | Err e \<Rightarrow> (Err e, h, g)
     | Panic \<Rightarrow> (Panic, h, g))"

section \<open>The laws of the channel\<close>

text \<open>
  What the code relies on: the status codes are a bijection that avoids the sentinel, a failed
  attach reports one of the two failures, reinstated sequence numbers are read back, and an
  interned name is a string shorter than the sentinel.
\<close>

definition channel_laws :: "('m, 'ch, 'ev, 'mf, 'r, 'p, 'cmd, 'ctl, 'pe, 'we) ChannelOps \<Rightarrow> bool" where
  "channel_laws ops \<longleftrightarrow>
     (\<forall>s. init_from_u32 ops (init_to_u32 ops s) = Some s \<and> init_to_u32 ops s \<noteq> INIT_STATUS_NEVER_COMMITTED)
   \<and> (\<forall>x s. init_from_u32 ops x = Some s \<longrightarrow> x = init_to_u32 ops s)
   \<and> (\<forall>m gpa s. ch_attach ops m gpa = Inl s \<longrightarrow> s = BadGpa \<or> s = BadMagicVersion)
   \<and> (\<forall>q c. ch_producer_seqs ops (ch_restore_seqs ops q c) = q)
   \<and> (\<forall>c k n. ch_intern_name ops c k = Some n \<longrightarrow> utf8_valid n \<and> length n < 2 ^ 32 - 1)"

definition name_ok :: "PendingInjectSnapshot \<Rightarrow> bool" where
  "name_ok q \<longleftrightarrow> (case pi_name q of Some n \<Rightarrow> utf8_valid n \<and> length n < 2 ^ 32 - 1 | None \<Rightarrow> True)"

definition pending_ok :: "pending \<Rightarrow> bool" where
  "pending_ok m \<longleftrightarrow> (\<forall>k q. fmlookup m k = Some q \<longrightarrow> name_ok q)"

definition status_ok :: "('m, 'ch, 'ev, 'mf, 'r, 'p, 'cmd, 'ctl, 'pe, 'we) ChannelOps \<Rightarrow> bool \<Rightarrow> u32 \<Rightarrow> bool" where
  "status_ok ops attached status \<longleftrightarrow>
     (if attached then status = init_to_u32 ops InitOk \<or> status = init_to_u32 ops AlreadyAttached
      else status = INIT_STATUS_NEVER_COMMITTED \<or> status = init_to_u32 ops BadGpa
        \<or> status = init_to_u32 ops BadMagicVersion)"

definition dc_inv ::
  "('m, 'ch, 'ev, 'mf, 'r, 'p, 'cmd, 'ctl, 'pe, 'we) ChannelOps \<Rightarrow> ('m, 'ch, 'mf, 'r, 'we) DetChannelHost \<Rightarrow> bool" where
  "dc_inv ops h \<longleftrightarrow> (dc_channel h \<noteq> None \<longleftrightarrow> dc_channel_gpa h \<noteq> None)
     \<and> status_ok ops (dc_channel h \<noteq> None) (dc_init_status h)
     \<and> (dc_channel h = None \<longrightarrow> dc_pending_injects h = fmempty)
     \<and> pending_ok (dc_pending_injects h)"

lemma pending_ok_simps [simp]:
  "pending_ok fmempty" "pending_ok m \<Longrightarrow> pending_ok (fmdrop k m)"
  "pending_ok m \<Longrightarrow> name_ok q \<Longrightarrow> pending_ok (fmupd k q m)"
  by (auto simp: pending_ok_def split: if_splits)

lemma channel_lawsD:
  assumes "channel_laws ops"
  shows "init_from_u32 ops (init_to_u32 ops s) = Some s" "init_to_u32 ops s \<noteq> INIT_STATUS_NEVER_COMMITTED"
    "init_from_u32 ops x = Some s \<Longrightarrow> x = init_to_u32 ops s"
    "ch_attach ops m gpa = Inl s \<Longrightarrow> s = BadGpa \<or> s = BadMagicVersion"
    "ch_producer_seqs ops (ch_restore_seqs ops q c) = q"
    "ch_intern_name ops c k = Some n \<Longrightarrow> utf8_valid n \<and> length n < 2 ^ 32 - 1"
  using assms by (cases q; simp add: channel_laws_def)+

lemma dc_inv_cong:
  assumes "dc_inv ops h" "dc_channel h' = None \<longleftrightarrow> dc_channel h = None" "dc_channel_gpa h' = dc_channel_gpa h"
    "dc_init_status h' = dc_init_status h" "pending_ok (dc_pending_injects h')"
    "dc_channel h = None \<Longrightarrow> dc_pending_injects h' = fmempty"
  shows "dc_inv ops h'"
  using assms by (cases "dc_channel h"; cases "dc_channel h'") (auto simp: dc_inv_def)

lemma dc_invD:
  "dc_inv ops h \<Longrightarrow> pending_ok (dc_pending_injects h)"
  "dc_inv ops h \<Longrightarrow> dc_channel h = None \<Longrightarrow> dc_pending_injects h = fmempty"
  by (simp_all add: dc_inv_def)

lemma dc_inv_status: "dc_inv ops h \<Longrightarrow> status_ok ops (dc_channel h \<noteq> None) (dc_init_status h)"
  unfolding dc_inv_def by (elim conjE)

lemma dc_new_inv: "dc_inv ops (dc_new ops mem plan)"
  by (simp add: dc_inv_def dc_new_def status_ok_def)

lemma channel_init_inv:
  assumes "channel_laws ops" "dc_inv ops h" "channel_init ops n h = (status, h')"
  shows "dc_inv ops (h'\<lparr>dc_init_status := init_to_u32 ops status\<rparr>)"
proof (cases "dc_channel h")
  case None
  then have "status \<in> {BadGpa, BadMagicVersion} \<and> h' = h
    \<or> status = InitOk \<and> dc_channel h' \<noteq> None \<and> dc_channel_gpa h' \<noteq> None \<and> dc_pending_injects h' = dc_pending_injects h"
    using assms(3) channel_lawsD(4) [OF assms(1)]
    by (auto simp: channel_init_def Let_def split: if_splits sum.splits option.splits)
  with assms(2) None show ?thesis
    by (auto simp: dc_inv_def status_ok_def)
next
  case (Some ch)
  with assms(2,3) show ?thesis
    by (auto simp: channel_init_def dc_inv_def status_ok_def)
qed

lemma drain_event_inv:
  assumes "channel_laws ops" "dc_inv ops h" "dc_channel h \<noteq> None"
  shows "dc_inv ops (fst (drain_event ops b3 ev (h, ctx))) \<and> dc_channel (fst (drain_event ops b3 ev (h, ctx))) \<noteq> None"
proof -
  have "name_ok \<lparr>pi_name_id = k, pi_name = Option.bind (dc_channel h) (\<lambda>c. ch_intern_name ops c k)\<rparr>" for k
    using assms(1) by (auto simp: name_ok_def channel_laws_def split: option.split bind_splits)
  then have "dc_inv ops h' \<and> dc_channel h' \<noteq> None" if "drain_event ops b3 ev (h, ctx) = (h', ctx')" for h' ctx'
    using that assms(3) dc_invD [OF assms(2)]
    by (auto intro!: dc_inv_cong [OF assms(2)] simp: drain_event_def Let_def split: option.splits)
  then show ?thesis
    by (metis prod.collapse)
qed

lemma drain_events_inv:
  assumes "channel_laws ops" "dc_inv ops h" "dc_channel h \<noteq> None"
  shows "dc_inv ops (fst (fold (drain_event ops b3) evs (h, ctx)))"
  using assms(2,3)
proof (induction evs arbitrary: h ctx)
  case (Cons ev evs)
  obtain h' ctx' where e: "drain_event ops b3 ev (h, ctx) = (h', ctx')" by fastforce
  from drain_event_inv [OF assms(1) Cons.prems, of b3 ev ctx] Cons.IH [of h' ctx'] e show ?case
    by simp
qed simp

lemma drain_inv:
  assumes "channel_laws ops" "dc_inv ops h"
  shows "dc_inv ops (fst (snd (dc_drain ops b3 (h, ctx))))"
proof (cases "dc_channel h")
  case None
  with assms show ?thesis by (simp add: dc_drain_def)
next
  case (Some ch)
  obtain r calls ch' where d: "ch_drain_events ops ch = (r, calls, ch')" using prod_cases3 by blast
  have i: "dc_inv ops (h\<lparr>dc_channel := Some ch'\<rparr>)"
    using Some dc_invD [OF assms(2)] by (intro dc_inv_cong [OF assms(2)]) simp_all
  have "dc_inv ops (h\<lparr>dc_channel := Some ch', dc_metrics := m, dc_last_drain_error := e\<rparr>)" for m e
    using dc_invD [OF i] by (intro dc_inv_cong [OF i]) simp_all
  with drain_events_inv [OF assms(1) i, of b3 _ "sink_calls calls ctx"] show ?thesis
    using Some d by (simp add: dc_drain_def Let_def split: sum.split)
qed

lemma dc_inv_frame:
  assumes "dc_inv ops h"
  shows "dc_inv ops (h\<lparr>dc_init_lo := x\<rparr>)" "dc_inv ops (h\<lparr>dc_init_hi := x\<rparr>)" "dc_inv ops (h\<lparr>dc_metrics := m\<rparr>)"
    "dc_inv ops (h\<lparr>dc_inject_iseq := i\<rparr>)" "dc_inv ops (h\<lparr>dc_last_quiesce_ack := i\<rparr>)"
    "dc_inv ops (h\<lparr>dc_channel := map_option f (dc_channel h)\<rparr>)"
    "dc_inv ops (h\<lparr>dc_pending_injects := fmdrop k (dc_pending_injects h)\<rparr>)"
    "dc_inv ops (h\<lparr>dc_restored_pending_injects := p\<rparr>)" "dc_inv ops (h\<lparr>dc_responder := r\<rparr>)"
  using dc_invD [OF assms] by (auto intro!: dc_inv_cong [OF assms])

lemma dc_inv_channel: "dc_inv ops h \<Longrightarrow> dc_channel h = Some c \<Longrightarrow> dc_inv ops (h\<lparr>dc_channel := Some c'\<rparr>)"
  using dc_inv_frame(6) [of ops h "\<lambda>_. c'"] by simp

lemma pio_out_inv:
  assumes "channel_laws ops" "dc_inv ops h"
  shows "dc_inv ops (fst (snd (dc_pio_out ops b3 port v (h, ctx))))"
  using drain_inv [OF assms(1) dc_inv_frame(4) [OF assms(2)], of b3 _ ctx] drain_inv [OF assms, of b3 ctx]
    channel_init_inv [OF assms]
  by (cases "channel_init ops v h") (auto simp: dc_pio_out_def dc_inv_frame assms(2))

lemma inject_answer_inv:
  assumes i: "dc_inv ops h"
  shows "dc_inv ops (fst (snd (inject_answer ops (h, ctx))))"
proof (cases "dc_inject_iseq h")
  case None
  then show ?thesis by (simp add: inject_answer_def dc_inv_frame(3) [OF i])
next
  case (Some iseq)
  let ?h = "h\<lparr>dc_inject_iseq := None\<rparr>"
  have h: "dc_inv ops ?h" by (rule dc_inv_frame(4) [OF i])
  show ?thesis
  proof (cases "dc_channel h")
    case None
    with Some show ?thesis by (simp add: inject_answer_def dc_inv_frame(3) [OF h])
  next
    case (Some ch)
    have a: "dc_inv ops (?h\<lparr>dc_restored_pending_injects := r, dc_pending_injects := fmdrop k (dc_pending_injects h), dc_responder := rs\<rparr>)" for r k rs
      using dc_inv_frame(9) [OF dc_inv_frame(7) [OF dc_inv_frame(8) [OF h]]] by simp
    have b: "dc_inv ops (?h\<lparr>dc_channel := Some c, dc_responder := rs, dc_pending_injects := fmdrop k (dc_pending_injects h)\<rparr>)" for c k rs
      using dc_inv_frame(7) [OF dc_inv_frame(9) [OF dc_inv_channel [OF h]]] Some by simp
    from Some \<open>dc_inject_iseq h = Some iseq\<close> a b show ?thesis
      by (simp add: inject_answer_def Let_def split: option.split prod.split)
  qed
qed

lemma pio_in_inv:
  assumes "dc_inv ops h"
  shows "dc_inv ops (fst (snd (dc_pio_in ops port (h, ctx))))"
  using assms inject_answer_inv [OF assms, of ctx] by (simp add: dc_pio_in_def Let_def dc_inv_frame)

lemma push_inv:
  assumes "dc_inv ops h"
  shows "dc_inv ops (fst (snd (dc_push_command ops cmd (h, ctx))))"
    "dc_inv ops (fst (snd (dc_push_workload_ctrl ops ctl (h, ctx))))"
    "dc_inv ops (dc_restore_producer_seqs ops q h)" "dc_inv ops (snd (take_quiesce_ack h))"
  using assms dc_inv_channel [OF assms]
  by (simp_all add: dc_push_command_def dc_push_workload_ctrl_def dc_restore_producer_seqs_def take_quiesce_ack_def
      dc_inv_frame split: option.split prod.split)

section \<open>The codec\<close>

lemma pending_loop_entries:
  "sorted_wrt (<) ((case prev of Some k \<Rightarrow> [k] | None \<Rightarrow> []) @ map fst es) \<Longrightarrow> \<forall>e \<in> set es. name_ok (snd e) \<Longrightarrow>
   evtc_pending_loop (pre @ concat (map pending_entry es)) (length es) (length pre) prev m
   = Ok (fm_of es m, length pre + length (concat (map pending_entry es)))"
proof (induction es arbitrary: pre prev m)
  case (Cons e es)
  obtain k q where e: "e = (k, q)" by fastforce
  have n: "name_ok q" using Cons.prems e by simp
  have prev: "\<not> (case prev of Some p \<Rightarrow> k \<le> p | None \<Rightarrow> False)"
    using Cons.prems(1) e by (auto split: option.split)
  let ?pre = "pre @ pending_entry e"
  have ih: "evtc_pending_loop (?pre @ concat (map pending_entry es)) (length es) (length ?pre) (Some k) (fmupd k q m)
      = Ok (fm_of es (fmupd k q m), length ?pre + length (concat (map pending_entry es)))"
    by (rule Cons.IH) (use Cons.prems e in \<open>auto simp: sorted_wrt_append\<close>)
  obtain id nm where q: "q = \<lparr>pi_name_id = id, pi_name = nm\<rparr>" by (cases q) auto
  show ?case
  proof (cases nm)
    case None
    with ih prev show ?thesis
      by (simp add: e q pending_entry_def wire fm_of_def)
  next
    case (Some name)
    have l: "utf8_valid name" "length name < 4294967295"
      using n Some q by (simp_all add: name_ok_def)
    then have u: "unat (of_nat (length name) :: u32) = length name" "(of_nat (length name) :: u32) \<noteq> EVTC_PENDING_NAME_ABSENT"
      by (simp_all add: word_unat_eq_iff)
    with ih prev Some l show ?thesis
      by (simp add: e q pending_entry_def wire fm_of_def add.assoc)
  qed
qed (simp add: fm_of_def)

text \<open>The fixed part of a snapshot, block by block.\<close>

definition evtc_chan ::
  "('m, 'ch, 'ev, 'mf, 'r, 'p, 'cmd, 'ctl, 'pe, 'we) ChannelOps \<Rightarrow> ('m, 'ch, 'mf, 'r, 'we) DetChannelHost \<Rightarrow> byte list" where
  "evtc_chan ops h = (case (dc_channel h, dc_channel_gpa h) of
     (Some c, Some gpa) \<Rightarrow> 1 # to_le gpa @ to_le (fst (ch_producer_seqs ops c)) @ to_le (snd (ch_producer_seqs ops c))
   | _ \<Rightarrow> 0 # zeros 16)"

definition evtc_fixed ::
  "('m, 'ch, 'ev, 'mf, 'r, 'p, 'cmd, 'ctl, 'pe, 'we) ChannelOps \<Rightarrow> ('m, 'ch, 'mf, 'r, 'we) DetChannelHost \<Rightarrow> byte list" where
  "evtc_fixed ops h = to_le (dc_init_lo h) @ to_le (dc_init_hi h) @ to_le (dc_init_status h)
     @ evtc_opt (dc_inject_iseq h) @ evtc_opt (dc_last_quiesce_ack h) @ evtc_chan ops h
     @ to_le (of_nat (fcard (fmdom (dc_pending_injects h))) :: u32)"

lemma nat_le_0 [simp]: "nat_le n 0 = zeros n"
  by (induction n) auto

lemma length_evtc [simp]:
  "length (evtc_opt x) = 5" "length (evtc_chan ops h) = 17" "length (evtc_fixed ops h) = 43"
  by (simp_all add: evtc_opt_def evtc_chan_def evtc_fixed_def split: option.split)

lemma evtc_opt_slices:
  "evtc_opt x ! 0 = (if x = None then 0 else 1)"
  "bslice (evtc_opt x) (Suc 0) 5 = (case x of Some v \<Rightarrow> to_le v | None \<Rightarrow> zeros 4)"
  by (auto simp: evtc_opt_def bslice_def to_le_def split: option.split)

lemma evtc_fields:
  "bslice (evtc_fixed ops h @ xs) 0 4 = to_le (dc_init_lo h)"
  "bslice (evtc_fixed ops h @ xs) 4 8 = to_le (dc_init_hi h)"
  "bslice (evtc_fixed ops h @ xs) 8 12 = to_le (dc_init_status h)"
  "(evtc_fixed ops h @ xs) ! 12 = (if dc_inject_iseq h = None then 0 else 1)"
  "bslice (evtc_fixed ops h @ xs) 13 17 = (case dc_inject_iseq h of Some v \<Rightarrow> to_le v | None \<Rightarrow> zeros 4)"
  "(evtc_fixed ops h @ xs) ! 17 = (if dc_last_quiesce_ack h = None then 0 else 1)"
  "bslice (evtc_fixed ops h @ xs) 18 22 = (case dc_last_quiesce_ack h of Some v \<Rightarrow> to_le v | None \<Rightarrow> zeros 4)"
  "(evtc_fixed ops h @ xs) ! 22 = evtc_chan ops h ! 0"
  "bslice (evtc_fixed ops h @ xs) 23 39 = bslice (evtc_chan ops h) 1 17"
  "bslice (evtc_fixed ops h @ xs) 23 31 = bslice (evtc_chan ops h) 1 9"
  "bslice (evtc_fixed ops h @ xs) 31 35 = bslice (evtc_chan ops h) 9 13"
  "bslice (evtc_fixed ops h @ xs) 35 39 = bslice (evtc_chan ops h) 13 17"
  "bslice (evtc_fixed ops h @ xs) 39 43 = to_le (of_nat (fcard (fmdom (dc_pending_injects h))) :: u32)"
  by (simp_all add: evtc_fixed_def wire evtc_opt_slices nth_append)

abbreviation evtc_bytes ::
  "('m, 'ch, 'ev, 'mf, 'r, 'p, 'cmd, 'ctl, 'pe, 'we) ChannelOps \<Rightarrow> ('m, 'ch, 'mf, 'r, 'we) DetChannelHost \<Rightarrow> byte list" where
  "evtc_bytes ops h \<equiv> evtc_fixed ops h @ concat (map pending_entry (fm_entries (dc_pending_injects h)))"

lemma pending_ok_entries: "pending_ok m \<Longrightarrow> \<forall>e \<in> set (fm_entries m). name_ok (snd e)"
  by (auto simp: pending_ok_def set_fm_entries)

lemma evtc_snapshot_eq:
  assumes "pending_ok (dc_pending_injects h)" "fcard (fmdom (dc_pending_injects h)) < 2 ^ 32"
  shows "evtc_snapshot ops h = Ok (evtc_bytes ops h)"
proof -
  have "\<not> (\<exists>e \<in> set (fm_entries (dc_pending_injects h)). case pi_name (snd e) of Some n \<Rightarrow> length n \<ge> 2 ^ 32 | None \<Rightarrow> False)"
    using pending_ok_entries [OF assms(1)] by (auto simp: name_ok_def split: option.splits)
  with assms(2) show ?thesis
    by (simp add: evtc_snapshot_def Let_def fm_entries_simps(2) evtc_fixed_def evtc_chan_def)
qed

lemma present_flag_opt:
  "length bytes \<ge> 39 \<Longrightarrow> at + 5 \<le> 39 \<Longrightarrow> bytes ! at = (if x = None then 0 else 1) \<Longrightarrow>
   bslice bytes (at + 1) (at + 5) = (case x of Some (v :: u32) \<Rightarrow> to_le v | None \<Rightarrow> zeros 4) \<Longrightarrow>
   evtc_present_flag bytes at (at + 1) (at + 5) = Ok (x \<noteq> None)"
  by (cases x) (simp_all add: evtc_present_flag_def list_ex_iff)

lemma chan_flag:
  assumes "dc_inv ops h"
  shows "evtc_present_flag (evtc_fixed ops h @ xs) 22 23 39 = Ok (dc_channel h \<noteq> None)"
    "(evtc_fixed ops h @ xs) ! 22 = (if dc_channel h = None then 0 else 1)"
proof -
  show c: "(evtc_fixed ops h @ xs) ! 22 = (if dc_channel h = None then 0 else 1)"
    unfolding evtc_fields using assms by (auto simp: evtc_chan_def dc_inv_def split: option.split)
  show "evtc_present_flag (evtc_fixed ops h @ xs) 22 23 39 = Ok (dc_channel h \<noteq> None)"
  proof (cases "dc_channel h")
    case None
    then have "evtc_chan ops h = 0 # zeros 16" by (simp add: evtc_chan_def)
    then have "bslice (evtc_fixed ops h @ xs) 23 39 = zeros 16"
      unfolding evtc_fields by (simp add: bslice_def)
    with None c show ?thesis by (simp add: evtc_present_flag_def list_ex_iff)
  next
    case (Some ch)
    with c show ?thesis by (simp add: evtc_present_flag_def)
  qed
qed

lemma prefix_snapshot:
  assumes laws: "channel_laws ops" and inv: "dc_inv ops h"
  shows "validate_evtc_prefix ops (evtc_fixed ops h @ xs) = Ok (dc_channel h \<noteq> None)"
proof -
  let ?b = "evtc_fixed ops h @ xs" and ?s = "dc_init_status h"
  have f: "evtc_present_flag ?b 12 13 17 = Ok (dc_inject_iseq h \<noteq> None)"
    "evtc_present_flag ?b 17 18 22 = Ok (dc_last_quiesce_ack h \<noteq> None)"
    using present_flag_opt [of ?b 12 "dc_inject_iseq h"] present_flag_opt [of ?b 17 "dc_last_quiesce_ack h"]
    by (simp_all add: evtc_fields)
  have st: "status_ok ops (dc_channel h \<noteq> None) ?s" by (rule dc_inv_status [OF inv])
  have len: "\<not> length ?b < 39" by simp
  have rd: "rd_u32 ?b 8 = Ok ?s" by (simp add: evtc_fields)
  show ?thesis
    unfolding validate_evtc_prefix_def
    using len rd f chan_flag(1) [OF inv, of xs] st channel_lawsD(1,2) [OF laws]
    by (auto simp: status_ok_def split: if_splits)
qed

lemma pending_snapshot:
  assumes "pending_ok (dc_pending_injects h)" "fcard (fmdom (dc_pending_injects h)) < 2 ^ 32"
    "dc_channel h = None \<Longrightarrow> dc_pending_injects h = fmempty"
  shows "evtc_pending_injects (evtc_bytes ops h) EVTC_VERSION (dc_channel h \<noteq> None) = Ok (dc_pending_injects h)"
proof -
  let ?n = "fcard (fmdom (dc_pending_injects h))"
  have u: "unat (of_nat ?n :: u32) = ?n" using assms(2) by simp
  have z: "(\<exists>y. dc_channel h = Some y) \<or> (of_nat ?n :: u32) = 0"
    using assms(3) by (cases "dc_channel h") (simp_all add: fcard.rep_eq)
  have rd: "rd_u32 (evtc_bytes ops h) 39 = Ok (of_nat ?n)" by (simp add: evtc_fields)
  have "evtc_pending_loop (evtc_bytes ops h) ?n 43 None fmempty
      = Ok (dc_pending_injects h, length (evtc_bytes ops h))"
    using pending_loop_entries [of None "fm_entries (dc_pending_injects h)" "evtc_fixed ops h" fmempty]
      pending_ok_entries [OF assms(1)]
    by (simp add: fm_of_entries fm_entries_simps(2))
  with u z rd show ?thesis
    by (simp add: evtc_pending_injects_def)
qed

lemma evtc_restore_snapshot:
  assumes laws: "channel_laws ops" and inv: "dc_inv ops h" and n: "fcard (fmdom (dc_pending_injects h)) < 2 ^ 32"
    and att: "\<And>gpa. dc_channel_gpa h = Some gpa \<Longrightarrow> \<exists>ch. ch_attach ops (dc_mem t) gpa = Inr ch"
  obtains t' where "evtc_restore ops (evtc_bytes ops h) EVTC_VERSION plan t = (Ok (), t')"
    "dc_init_lo t' = dc_init_lo h" "dc_init_hi t' = dc_init_hi h" "dc_init_status t' = dc_init_status h"
    "dc_inject_iseq t' = dc_inject_iseq h" "dc_last_quiesce_ack t' = dc_last_quiesce_ack h"
    "dc_pending_injects t' = dc_pending_injects h" "dc_restored_pending_injects t' = dc_pending_injects h"
    "dc_channel_gpa t' = dc_channel_gpa h"
    "map_option (ch_producer_seqs ops) (dc_channel t') = map_option (ch_producer_seqs ops) (dc_channel h)"
    "dc_mem t' = dc_mem t" "dc_responder t' = rs_new ops plan"
proof -
  let ?b = "evtc_bytes ops h"
  note p = dc_invD [OF inv]
  have v: "validate_evtc_section ops ?b EVTC_VERSION = Ok ()"
    using prefix_snapshot [OF laws inv] pending_snapshot [OF p(1) n p(2), of ops]
    by (simp add: validate_evtc_section_def)
  have a: "?b ! 22 = 1 \<longleftrightarrow> dc_channel h \<noteq> None" using chan_flag(2) [OF inv] by simp
  have o: "(if ?b ! 12 = 1 then Some (from_le (bslice ?b 13 17)) else None) = dc_inject_iseq h"
    "(if ?b ! 17 = 1 then Some (from_le (bslice ?b 18 22)) else None) = dc_last_quiesce_ack h"
    by (auto simp: evtc_fields split: option.split)
  define t' where "t' = snd (evtc_restore ops ?b EVTC_VERSION plan t)"
  show ?thesis
  proof (cases "dc_channel h")
    case None
    then have "dc_channel_gpa h = None" using inv by (auto simp: dc_inv_def)
    with None show ?thesis
      using v a o pending_snapshot [OF p(1) n p(2), of ops]
      by (intro that [of t']) (simp_all add: t'_def evtc_restore_def evtc_fields(1-3))
  next
    case (Some c)
    then obtain gpa where g: "dc_channel_gpa h = Some gpa" using inv by (auto simp: dc_inv_def)
    obtain q1 q2 where q: "ch_producer_seqs ops c = (q1, q2)" by fastforce
    obtain ch where ch: "ch_attach ops (dc_mem t) gpa = Inr ch" using att g by blast
    have c: "evtc_chan ops h = 1 # to_le gpa @ to_le q1 @ to_le q2"
      using Some g q by (simp add: evtc_chan_def)
    have f: "bslice ?b 23 31 = to_le gpa" "bslice ?b 31 35 = to_le q1" "bslice ?b 35 39 = to_le q2"
      unfolding evtc_fields c by (simp_all add: bslice_def)
    have "evtc_attach ops (dc_mem t) ?b = Ok (Some (ch_restore_seqs ops (q1, q2) ch), Some gpa,
        ch_read_manifest ops (ch_restore_seqs ops (q1, q2) ch))"
      by (simp add: evtc_attach_def f ch Let_def)
    with Some g q v a o pending_snapshot [OF p(1) n p(2), of ops] channel_lawsD(5) [OF laws] show ?thesis
      by (intro that [of t']) (simp_all add: t'_def evtc_restore_def evtc_fields(1-3))
  qed
qed

section \<open>Hostile sections\<close>

lemma present_flag_total: "at < length b \<Longrightarrow> lo \<le> hi \<Longrightarrow> hi \<le> length b \<Longrightarrow> evtc_present_flag b at lo hi \<noteq> Panic"
  by (auto simp: evtc_present_flag_def)

lemma present_flag_Ok: "at < length b \<Longrightarrow> evtc_present_flag b at lo hi = Ok f \<Longrightarrow> f \<longleftrightarrow> b ! at = 1"
  by (auto simp: evtc_present_flag_def split: if_splits)

lemma prefix_total: "validate_evtc_prefix ops b \<noteq> Panic"
  unfolding validate_evtc_prefix_def
  by (intro if_not_Panic res_bind_not_Panic present_flag_total) auto

lemma pending_loop_total: "evtc_pending_loop b n at prev m \<noteq> Panic"
proof (induction n arbitrary: at prev m)
  case (Suc n)
  then show ?case
    by (auto simp: res_bind_eq_Panic split: if_splits)
qed simp

lemma pending_total: "evtc_pending_injects b v a \<noteq> Panic"
  using pending_loop_total by (auto simp: evtc_pending_injects_def res_bind_eq_Panic split: if_splits)

lemma restore_total: "fst (evtc_restore ops b v plan h) \<noteq> Panic"
proof -
  have v: "validate_evtc_section ops b v \<noteq> Panic"
    using prefix_total pending_total by (auto simp: validate_evtc_section_def res_bind_eq_Panic)
  have a: "evtc_attach ops m b \<noteq> Panic" for m
    by (simp add: evtc_attach_def Let_def split: sum.split)
  let ?x = "res_bind (validate_evtc_section ops b v) (\<lambda>_.
       let attached = (b ! 22 = 1) in
       res_bind (evtc_pending_injects b v attached) (\<lambda>pending.
       res_bind (if attached then evtc_attach ops (dc_mem h) b else Ok (None, None, None)) (\<lambda>parts.
       Ok (pending, parts))))"
  have "?x \<noteq> Panic"
    using v a pending_total by (auto simp: res_bind_eq_Panic Let_def)
  then show ?thesis
    unfolding evtc_restore_def by (cases ?x) auto
qed

lemma restore_refused: "fst (evtc_restore ops b v plan h) \<noteq> Ok () \<Longrightarrow> snd (evtc_restore ops b v plan h) = h"
  by (auto simp: evtc_restore_def split: res.splits)

lemma pending_loop_ok: "evtc_pending_loop b n at prev m = Ok (m', at') \<Longrightarrow> pending_ok m \<Longrightarrow> pending_ok m'"
proof (induction n arbitrary: at prev m)
  case (Suc n)
  have len: "unat w < 2 ^ 32 - 1" if "w \<noteq> EVTC_PENDING_NAME_ABSENT" for w :: u32
    using that unat_lt_pow [of w] by (auto simp: word_unat_eq_iff)
  from Suc.prems(1) obtain k q at2 where
    l: "evtc_pending_loop b n at2 (Some k) (fmupd k q m) = Ok (m', at')" and n: "name_ok q"
    using len by (force simp: name_ok_def split: if_splits)
  from Suc.IH [OF l] Suc.prems(2) n show ?case by simp
qed simp

lemma fcard_fmupd: "fcard (fmdom (fmupd k v m)) \<le> Suc (fcard (fmdom m))"
  by (simp add: fcard.rep_eq card_insert_if)

lemma pending_loop_card:
  "evtc_pending_loop b n at prev m = Ok (m', at') \<Longrightarrow> fcard (fmdom m') \<le> fcard (fmdom m) + n"
proof (induction n arbitrary: at prev m)
  case (Suc n)
  from Suc.prems obtain k q at2 where l: "evtc_pending_loop b n at2 (Some k) (fmupd k q m) = Ok (m', at')"
    by (force split: if_splits)
  from Suc.IH [OF l] fcard_fmupd [of k q m] show ?case by simp
qed simp

lemma pending_injects_ok:
  assumes "evtc_pending_injects b v a = Ok m"
  shows "pending_ok m" "\<not> a \<Longrightarrow> m = fmempty" "fcard (fmdom m) < 2 ^ 32"
proof -
  show "pending_ok m" "\<not> a \<Longrightarrow> m = fmempty"
    using assms pending_loop_ok [of b _ _ _ fmempty m]
    by (auto simp: evtc_pending_injects_def split: if_splits)
  have "m = fmempty \<or> (\<exists>(c :: u32) at. evtc_pending_loop b (unat c) EVTC_LEN None fmempty = Ok (m, at))"
    using assms by (auto simp: evtc_pending_injects_def split: if_splits)
  then show "fcard (fmdom m) < 2 ^ 32"
  proof
    assume "\<exists>(c :: u32) at. evtc_pending_loop b (unat c) EVTC_LEN None fmempty = Ok (m, at)"
    then obtain c :: u32 and at where "evtc_pending_loop b (unat c) EVTC_LEN None fmempty = Ok (m, at)" by blast
    from pending_loop_card [OF this] unat_lt_pow [of c] show ?thesis by (simp add: fcard.rep_eq)
  qed (simp add: fcard.rep_eq)
qed

lemma restore_inv:
  assumes laws: "channel_laws ops" and r: "evtc_restore ops b v plan h = (Ok (), h')"
  shows "dc_inv ops h'" "fcard (fmdom (dc_pending_injects h')) < 2 ^ 32"
proof -
  obtain m ch gpa mf where x: "validate_evtc_section ops b v = Ok ()" "evtc_pending_injects b v (b ! 22 = 1) = Ok m"
    "(if b ! 22 = 1 then evtc_attach ops (dc_mem h) b else Ok (None, None, None)) = Ok (ch, gpa, mf)"
    and h: "dc_channel h' = ch" "dc_channel_gpa h' = gpa" "dc_pending_injects h' = m"
      "dc_init_status h' = from_le (bslice b 8 12)"
    using r by (auto simp: evtc_restore_def Let_def split: res.splits prod.splits)
  obtain a where a: "validate_evtc_prefix ops b = Ok a"
    using x(1) by (auto simp: validate_evtc_section_def split: if_splits)
  have l: "39 \<le> length b" using a by (auto simp: validate_evtc_prefix_def split: if_splits)
  have s: "status_ok ops a (from_le (bslice b 8 12))" and "evtc_present_flag b 22 23 39 = Ok a"
    using a l channel_lawsD(3) [OF laws]
    by (auto simp: validate_evtc_prefix_def status_ok_def split: if_splits)
  then have f: "a \<longleftrightarrow> b ! 22 = 1" using present_flag_Ok [of 22 b 23 39 a] l by simp
  have c: "ch \<noteq> None \<longleftrightarrow> b ! 22 = 1" "gpa \<noteq> None \<longleftrightarrow> b ! 22 = 1"
    using x(3) by (auto simp: evtc_attach_def Let_def split: if_splits sum.splits)
  show "dc_inv ops h'"
    using s f c h pending_injects_ok [OF x(2)] by (cases "b ! 22 = 1") (auto simp: dc_inv_def)
  show "fcard (fmdom (dc_pending_injects h')) < 2 ^ 32"
    using pending_injects_ok(3) [OF x(2)] h by simp
qed

section \<open>Reachable hosts\<close>

text \<open>The steps run control takes; \<open>exit\<close> hands the next exit's context to the handlers.\<close>

inductive dc_step ::
  "('m, 'ch, 'ev, 'mf, 'r, 'p, 'cmd, 'ctl, 'pe, 'we) ChannelOps \<Rightarrow> (byte list \<Rightarrow> byte list)
   \<Rightarrow> ('m, 'ch, 'mf, 'r, 'we) DetChannelHost \<times> ('a, 'e) DevCtx \<Rightarrow> ('m, 'ch, 'mf, 'r, 'we) DetChannelHost \<times> ('a, 'e) DevCtx \<Rightarrow> bool"
  for ops b3 where
  out: "dc_step ops b3 s (snd (dc_pio_out ops b3 port v s))"
| inp: "dc_step ops b3 s (snd (dc_pio_in ops port s))"
| pause: "dc_step ops b3 s (snd (drain_at_pause ops b3 s))"
| command: "dc_step ops b3 s (snd (dc_push_command ops cmd s))"
| ctrl: "dc_step ops b3 s (snd (dc_push_workload_ctrl ops ctl s))"
| ack: "dc_step ops b3 (h, c) (snd (take_quiesce_ack h), c)"
| seqs: "dc_step ops b3 (h, c) (dc_restore_producer_seqs ops q h, c)"
| restore: "evtc_restore ops b v plan h = (Ok (), h') \<Longrightarrow> dc_step ops b3 (h, c) (h', c)"
| exit: "dc_step ops b3 (h, c) (h, c')"

lemma dc_step_inv:
  assumes "dc_step ops b3 s s'" "channel_laws ops" "dc_inv ops (fst s)"
  shows "dc_inv ops (fst s')"
  using assms
proof (induction rule: dc_step.induct)
  case (out s port v)
  then show ?case using pio_out_inv [of ops "fst s" b3 port v "snd s"] by simp
next
  case (inp s port)
  then show ?case using pio_in_inv [of ops "fst s" port "snd s"] by simp
next
  case (pause s)
  then show ?case using drain_inv [of ops "fst s" b3 "snd s"] by (simp add: drain_at_pause_def)
next
  case (command s cmd)
  then show ?case using push_inv(1) [of ops "fst s" cmd "snd s"] by simp
next
  case (ctrl s ctl)
  then show ?case using push_inv(2) [of ops "fst s" ctl "snd s"] by simp
next
  case (restore b v plan h h' c)
  then show ?case using restore_inv(1) by fastforce
qed (simp_all add: push_inv)

lemma dc_reach_inv:
  assumes "(dc_step ops b3)\<^sup>*\<^sup>* (dc_new ops mem plan, c) s" "channel_laws ops"
  shows "dc_inv ops (fst s)"
  using assms by (induction rule: rtranclp_induct) (auto simp: dc_new_inv dc_step_inv)

lemma evtc_bytes_cong:
  assumes "dc_init_lo t = dc_init_lo h" "dc_init_hi t = dc_init_hi h" "dc_init_status t = dc_init_status h"
    "dc_inject_iseq t = dc_inject_iseq h" "dc_last_quiesce_ack t = dc_last_quiesce_ack h"
    "dc_pending_injects t = dc_pending_injects h" "dc_channel_gpa t = dc_channel_gpa h"
    "map_option (ch_producer_seqs ops) (dc_channel t) = map_option (ch_producer_seqs ops) (dc_channel h)"
  shows "evtc_bytes ops t = evtc_bytes ops h"
proof -
  have "evtc_chan ops t = evtc_chan ops h"
    using assms(7,8) by (cases "dc_channel t"; cases "dc_channel h") (auto simp: evtc_chan_def split: option.split)
  with assms show ?thesis by (simp add: evtc_fixed_def)
qed

lemma sink_call_simps:
  "sink_calls [] c = c" "sink_calls [PioAnswer port v] c = log_pio_answer port v c"
  by (simp_all add: sink_calls_def)

section \<open>A concrete channel\<close>

definition ex_init_code :: "InitStatus \<Rightarrow> u32" where
  "ex_init_code s = (case s of InitOk \<Rightarrow> 0 | BadGpa \<Rightarrow> 1 | BadMagicVersion \<Rightarrow> 2 | AlreadyAttached \<Rightarrow> 3)"

definition ex_chan :: "(unit, u32 \<times> u32, unit, unit, unit, unit, unit, unit, unit, unit) ChannelOps" where
  "ex_chan = \<lparr>port_ident = 0xD370, port_init_lo = 0xD374, port_init_hi = 0xD378, port_init_go = 0xD37C,
     port_doorbell = 0xD380, port_inject = 0xD384, port_quiesce_ack = 0xD388, ident_value = 1,
     channel_size_pages = 512, init_to_u32 = ex_init_code,
     init_from_u32 = (\<lambda>x. if x = 0 then Some InitOk else if x = 1 then Some BadGpa
        else if x = 2 then Some BadMagicVersion else if x = 3 then Some AlreadyAttached else None),
     ch_attach = (\<lambda>_ gpa. if gpa = 0 then Inl BadGpa else Inr (0, 0)),
     ch_read_manifest = (\<lambda>_. Some ()), ch_producer_seqs = (\<lambda>c. c), ch_restore_seqs = (\<lambda>q c. q),
     ch_intern_name = (\<lambda>_ _. None), ch_drain_events = (\<lambda>c. (Inr [()], [ConsBump RingW 1], c)),
     ch_push_command = (\<lambda>_ c. (None, [], c)), ch_push_ctrl = (\<lambda>_ c. (None, [], c)),
     ev_inject_query = (\<lambda>_. Some (5, 9)), ev_stream_payload = (\<lambda>_. Some (6, zeros 8)),
     rs_new = (\<lambda>_. ()), rs_decide = (\<lambda>iseq _ _ r. (iseq, r)),
     rs_answer = (\<lambda>ch iseq r. (iseq, [PioAnswer 0xD384 iseq], ch, r))\<rparr>"

lemma ex_chan_laws: "channel_laws ex_chan"
  by (auto simp: channel_laws_def ex_chan_def ex_init_code_def split: InitStatus.split if_splits)

abbreviation ex_b3 :: "byte list \<Rightarrow> byte list" where "ex_b3 \<equiv> \<lambda>_. zeros 32"

definition ex_out :: "u16 \<Rightarrow> u32 \<Rightarrow> (unit, u32 \<times> u32, unit, unit, unit) DetChannelHost \<times> (byte list, unit) DevCtx
   \<Rightarrow> (unit, u32 \<times> u32, unit, unit, unit) DetChannelHost \<times> (byte list, unit) DevCtx" where
  "ex_out port v s = snd (dc_pio_out ex_chan ex_b3 port v s)"

definition ex_run :: "(unit, u32 \<times> u32, unit, unit, unit) DetChannelHost \<times> (byte list, unit) DevCtx" where
  "ex_run = ex_out 0xD384 5 (ex_out 0xD37C 512 (ex_out 0xD374 0x200000 (dc_new ex_chan () (), vec_ctx [])))"

lemma ex_run_reach: "(dc_step ex_chan ex_b3)\<^sup>*\<^sup>* (dc_new ex_chan () (), vec_ctx []) ex_run"
proof -
  have step: "dc_step ex_chan ex_b3 s (ex_out port v s)" for s port v
    unfolding ex_out_def by (rule dc_step.out)
  show ?thesis
    unfolding ex_run_def
    by (rule rtranclp.rtrancl_into_rtrancl, rule rtranclp.rtrancl_into_rtrancl,
        rule rtranclp.rtrancl_into_rtrancl, rule rtranclp.rtrancl_refl) (rule step)+
qed

lemma ex_answer:
  "rs_decide ex_chan iseq k name r = (iseq, r)" "rs_answer ex_chan ch iseq r = (iseq, [PioAnswer 0xD384 iseq], ch, r)"
  by (simp_all add: ex_chan_def)

lemma ex_run_host:
  "dc_channel_gpa (fst ex_run) = Some 0x200000"
  "dc_pending_injects (fst ex_run) = fmupd 5 \<lparr>pi_name_id = 9, pi_name = None\<rparr> fmempty"
  "dc_inject_iseq (fst ex_run) = Some 5" "dc_channel (fst ex_run) = Some (0, 0)"
  by (simp_all add: ex_run_def ex_out_def dc_pio_out_def channel_init_def dc_new_def dc_drain_def drain_event_def
      ex_chan_def ex_init_code_def sdk_event_digest_def Let_def)

section \<open>Properties\<close>

text \<open>
  C22. Whatever the guest and run control did since the channel host was created (any sequence
  of port accesses, drains, pushes and restores, over any exits), its \<open>EVTC\<close> snapshot succeeds,
  the section is accepted, and restoring it into any host whose memory still holds the channel
  reinstates every persisted field, the pending inject queries and the producer sequence
  numbers; a second snapshot gives the same bytes.
\<close>

theorem evtc_roundtrip:
  assumes laws: "channel_laws ops"
    and reach: "(dc_step ops b3)\<^sup>*\<^sup>* (dc_new ops mem plan0, c) (h, c')"
    and n: "fcard (fmdom (dc_pending_injects h)) < 2 ^ 32"
    and att: "\<And>gpa. dc_channel_gpa h = Some gpa \<Longrightarrow> \<exists>ch. ch_attach ops (dc_mem t) gpa = Inr ch"
  shows "\<exists>bytes t'. evtc_snapshot ops h = Ok bytes \<and> evtc_restore ops bytes EVTC_VERSION plan t = (Ok (), t')
    \<and> evtc_snapshot ops t' = Ok bytes
    \<and> dc_init_lo t' = dc_init_lo h \<and> dc_init_hi t' = dc_init_hi h \<and> dc_init_status t' = dc_init_status h
    \<and> dc_inject_iseq t' = dc_inject_iseq h \<and> dc_last_quiesce_ack t' = dc_last_quiesce_ack h
    \<and> dc_pending_injects t' = dc_pending_injects h \<and> dc_restored_pending_injects t' = dc_pending_injects h
    \<and> dc_channel_gpa t' = dc_channel_gpa h \<and> dc_producer_seqs ops t' = dc_producer_seqs ops h"
proof -
  have inv: "dc_inv ops h" using dc_reach_inv [OF reach laws] by simp
  from dc_invD(1) [OF inv] n have s: "evtc_snapshot ops h = Ok (evtc_bytes ops h)" by (rule evtc_snapshot_eq)
  obtain t' where t: "evtc_restore ops (evtc_bytes ops h) EVTC_VERSION plan t = (Ok (), t')"
    "dc_init_lo t' = dc_init_lo h" "dc_init_hi t' = dc_init_hi h" "dc_init_status t' = dc_init_status h"
    "dc_inject_iseq t' = dc_inject_iseq h" "dc_last_quiesce_ack t' = dc_last_quiesce_ack h"
    "dc_pending_injects t' = dc_pending_injects h" "dc_restored_pending_injects t' = dc_pending_injects h"
    "dc_channel_gpa t' = dc_channel_gpa h"
    "map_option (ch_producer_seqs ops) (dc_channel t') = map_option (ch_producer_seqs ops) (dc_channel h)"
    using evtc_restore_snapshot [OF laws inv n att] by blast
  have "evtc_snapshot ops t' = Ok (evtc_bytes ops t')"
    using evtc_snapshot_eq [of t' ops] dc_invD(1) [OF inv] n t(7) by simp
  then have "evtc_snapshot ops t' = Ok (evtc_bytes ops h)"
    using evtc_bytes_cong [OF t(2,3,4,5,6,7,9,10)] by simp
  with s t show ?thesis
    by (auto simp: dc_producer_seqs_def)
qed

theorem evtc_roundtrip_witness:
  "\<exists>bytes t'. evtc_snapshot ex_chan (fst ex_run) = Ok bytes
     \<and> evtc_restore ex_chan bytes EVTC_VERSION () (dc_new ex_chan () ()) = (Ok (), t')
     \<and> dc_pending_injects t' = fmupd 5 \<lparr>pi_name_id = 9, pi_name = None\<rparr> fmempty \<and> dc_inject_iseq t' = Some 5"
proof -
  have "(dc_step ex_chan ex_b3)\<^sup>*\<^sup>* (dc_new ex_chan () (), vec_ctx []) (fst ex_run, snd ex_run)"
    using ex_run_reach by simp
  moreover have "fcard (fmdom (dc_pending_injects (fst ex_run))) < 2 ^ 32"
    by (simp add: ex_run_host fcard.rep_eq)
  moreover have "\<exists>ch. ch_attach ex_chan (dc_mem (dc_new ex_chan () ())) gpa = Inr ch"
    if "dc_channel_gpa (fst ex_run) = Some gpa" for gpa
    using that by (simp add: ex_run_host ex_chan_def)
  ultimately have "\<exists>bytes t'. evtc_snapshot ex_chan (fst ex_run) = Ok bytes
      \<and> evtc_restore ex_chan bytes EVTC_VERSION () (dc_new ex_chan () ()) = (Ok (), t')
      \<and> dc_inject_iseq t' = dc_inject_iseq (fst ex_run) \<and> dc_pending_injects t' = dc_pending_injects (fst ex_run)"
    using evtc_roundtrip [OF ex_chan_laws, of ex_b3 "()" "()" "vec_ctx []" "fst ex_run" "snd ex_run" "dc_new ex_chan () ()" "()"]
    by blast
  then show ?thesis unfolding ex_run_host by blast
qed

text \<open>
  C23. Restoring a section with arbitrary bytes and version never panics; a refused section
  leaves the host exactly as it was, and an accepted one leaves a host whose status, channel
  and pending queries agree, so that its own snapshot is accepted again.
\<close>

theorem evtc_hostile_sections:
  assumes laws: "channel_laws ops"
  shows "(case evtc_restore ops bytes version plan h of
      (Ok _, h') \<Rightarrow>
        (\<exists>b. evtc_snapshot ops h' = Ok b \<and> validate_evtc_section ops b EVTC_VERSION = Ok ())
    | (Err _, h') \<Rightarrow> h' = h
    | (Panic, _) \<Rightarrow> False)"
proof -
  obtain r h' where r: "evtc_restore ops bytes version plan h = (r, h')" by fastforce
  show ?thesis
  proof (cases r)
    case (Ok u)
    with r have inv: "dc_inv ops h'" and n: "fcard (fmdom (dc_pending_injects h')) < 2 ^ 32"
      using restore_inv [OF laws, of bytes version plan h h'] by simp_all
    note p = dc_invD [OF inv]
    show ?thesis
      using r Ok evtc_snapshot_eq [OF p(1) n, of ops] prefix_snapshot [OF laws inv] pending_snapshot [OF p(1) n p(2), of ops]
      by (simp add: validate_evtc_section_def)
  next
    case (Err e)
    with r show ?thesis using restore_refused [of ops bytes version plan h] by simp
  next
    case Panic
    with r show ?thesis using restore_total [of ops bytes version plan h] by simp
  qed
qed

theorem evtc_hostile_sections_witness:
  "channel_laws ex_chan \<and> evtc_restore ex_chan [] 1 () (dc_new ex_chan () ()) = (Err RestoreError, dc_new ex_chan () ())"
proof -
  have "fst (evtc_restore ex_chan [] 1 () (dc_new ex_chan () ())) = Err RestoreError"
    by (simp add: evtc_restore_def validate_evtc_section_def validate_evtc_prefix_def)
  then show ?thesis
    using evtc_hostile_sections [OF ex_chan_laws, where bytes = "[]" and version = 1 and plan = "()" and h = "dc_new ex_chan () ()"] ex_chan_laws
    by (cases "evtc_restore ex_chan [] 1 () (dc_new ex_chan () ())") simp
qed

text \<open>
  C24. Every \<open>IN\<close> from the port window is logged exactly once, as one \<open>PIO_ANSWER\<close> at the
  exit's boundary with the port and the value the guest receives, whichever port it was. The
  responder is assumed to report each answer once, as its contract says.
\<close>

theorem pio_in_logs_once:
  assumes rs: "\<And>ch iseq r value calls ch' r'. rs_answer ops ch iseq r = (value, calls, ch', r')
      \<Longrightarrow> calls = [PioAnswer (port_inject ops) value]"
    and run: "dc_pio_in ops port (h, ctx) = (value, h', ctx')"
  shows "logged [OpPioAnswer (cx_icount ctx) (cx_boundary_rip ctx) port value] ctx ctx'"
proof -
  have l: "logged [OpPioAnswer (cx_icount ctx) (cx_boundary_rip ctx) p v] ctx (log_pio_answer p v ctx)" for p v
    by (rule logged_wrappers)
  have i: "ctx' = log_pio_answer (port_inject ops) value ctx" if "inject_answer ops (h, ctx) = (value, h', ctx')"
    using that
    by (auto simp: inject_answer_def Let_def sink_call_simps split: option.splits prod.splits dest!: rs)
  from run l i show ?thesis
    by (auto simp: dc_pio_in_def Let_def split: if_splits)
qed

theorem pio_in_logs_once_witness:
  "logged [OpPioAnswer 7 0 0xD384 5] (vec_ctx []) (snd (snd (dc_pio_in ex_chan 0xD384 (fst ex_run, vec_ctx []))))"
proof -
  obtain x h' ctx' where r: "dc_pio_in ex_chan 0xD384 (fst ex_run, vec_ctx []) = (x, h', ctx')"
    using prod_cases3 by blast
  have "dc_pio_in ex_chan 0xD384 (fst ex_run, vec_ctx []) = inject_answer ex_chan (fst ex_run, vec_ctx [])"
    by (simp add: dc_pio_in_def ex_chan_def)
  with r have v: "x = 5"
    by (auto simp: inject_answer_def ex_run_host(3,4) Let_def ex_answer split: option.splits)
  have "logged [OpPioAnswer (cx_icount (vec_ctx [])) (cx_boundary_rip (vec_ctx [])) 0xD384 x] (vec_ctx []) ctx'"
    by (rule pio_in_logs_once [OF _ r]) (auto simp: ex_chan_def)
  with v r show ?thesis by (simp add: vec_ctx_def ctx_new_def)
qed

end
