(* ===== verification/Slot_State.thy ===== *)
theory Slot_State
  imports Dh_Prelude
begin

text \<open>
  The slot-state machine and the capability report of \<open>crates/dh-vmm/src/lib.rs\<close>: the
  transition relation that every slot crossing goes through, the write-path guard, and the
  list of missing KVM capabilities.
\<close>

section \<open>Slot states\<close>

datatype SlotState = Empty | Running | Paused | Frozen | Faulted

datatype SlotStateError =
    InvalidTransition SlotState SlotState
  | FrozenWriteDenied string
  | EmptyWriteDenied string
  | FaultedWriteDenied string

definition can_transition :: "SlotState \<Rightarrow> SlotState \<Rightarrow> bool" where
  "can_transition s t = (case (s, t) of
     (Empty, Paused) \<Rightarrow> True
   | (Paused, Running) \<Rightarrow> True
   | (Running, Paused) \<Rightarrow> True
   | (Paused, Frozen) \<Rightarrow> True
   | (Frozen, Paused) \<Rightarrow> True
   | (Paused, Empty) \<Rightarrow> True
   | (Frozen, Empty) \<Rightarrow> True
   | (Running, Faulted) \<Rightarrow> True
   | (Paused, Faulted) \<Rightarrow> True
   | (Faulted, Empty) \<Rightarrow> True
   | _ \<Rightarrow> False)"

definition transition :: "SlotState \<Rightarrow> SlotState \<Rightarrow> (SlotState, SlotStateError) res" where
  "transition s t = (if can_transition s t then Ok t else Err (InvalidTransition s t))"

definition ensure_write_path :: "SlotState \<Rightarrow> string \<Rightarrow> (unit, SlotStateError) res" where
  "ensure_write_path s api = (case s of
     Paused \<Rightarrow> Ok ()
   | Running \<Rightarrow> Ok ()
   | Frozen \<Rightarrow> Err (FrozenWriteDenied api)
   | Empty \<Rightarrow> Err (EmptyWriteDenied api)
   | Faulted \<Rightarrow> Err (FaultedWriteDenied api))"

definition initial_slot_state :: SlotState where
  "initial_slot_state = Empty"

lemma transition_Ok [simp]: "transition s t = Ok u \<longleftrightarrow> can_transition s t \<and> u = t"
  by (auto simp: transition_def)

lemma transition_not_Panic [simp]: "transition s t \<noteq> Panic"
  by (simp add: transition_def)

lemma ensure_write_path_Ok: "ensure_write_path s api = Ok () \<longleftrightarrow> s = Paused \<or> s = Running"
  by (cases s) (simp_all add: ensure_write_path_def)

lemma ensure_write_path_not_Panic [simp]: "ensure_write_path s api \<noteq> Panic"
  by (cases s) (simp_all add: ensure_write_path_def)

text \<open>The edges into and out of each state, one lemma per target.\<close>

lemma can_transition_to:
  "can_transition s Empty \<longleftrightarrow> s = Paused \<or> s = Frozen \<or> s = Faulted"
  "can_transition s Running \<longleftrightarrow> s = Paused"
  "can_transition s Paused \<longleftrightarrow> s = Empty \<or> s = Running \<or> s = Frozen"
  "can_transition s Frozen \<longleftrightarrow> s = Paused"
  "can_transition s Faulted \<longleftrightarrow> s = Running \<or> s = Paused"
  by (cases s; simp add: can_transition_def)+

section \<open>Required capabilities\<close>

record KvmCaps =
  user_space_msr :: bool
  msr_filter :: bool
  dirty_ring :: bool
  immediate_exit :: bool
  no_in_kernel_irqchip :: bool

definition required_caps_template :: KvmCaps where
  "required_caps_template = \<lparr>user_space_msr = True, msr_filter = True, dirty_ring = True,
     immediate_exit = True, no_in_kernel_irqchip = True\<rparr>"

definition missing_caps :: "KvmCaps \<Rightarrow> string list" where
  "missing_caps caps = List.map_filter (\<lambda>(present, name). if \<not> present then Some name else None)
     [(user_space_msr caps, ''KVM_CAP_X86_USER_SPACE_MSR''),
      (msr_filter caps, ''KVM_MSR_EXIT_REASON_FILTER''),
      (dirty_ring caps, ''KVM_CAP_DIRTY_LOG_RING''),
      (immediate_exit caps, ''KVM_CAP_IMMEDIATE_EXIT''),
      (no_in_kernel_irqchip caps, ''no in-kernel irqchip'')]"

lemma missing_caps_empty_iff: "missing_caps caps = [] \<longleftrightarrow> caps = required_caps_template"
  by (cases caps) (auto simp: missing_caps_def required_caps_template_def List.map_filter_def)

end
