(* ===== verification/Slot_Manager.thy ===== *)
theory Slot_Manager
  imports Slot_State
begin

text \<open>
  The slot table of \<open>crates/dh-worker/src/slot_manager.rs\<close>: leases, the lifecycle crossings,
  fork accounting and the expiry reaper.

  \<^item> The table is a list of entries, slot ids are 64-bit words that index it. The published
    events are kept in \<open>sm_events\<close>, oldest first. A method returns its result and the manager.
  \<^item> The token source is host randomness: call \<open>k\<close> of the source returns \<open>sm_tokens m k\<close>, and
    \<open>sm_minted\<close> counts the calls.
  \<^item> Host time is an argument, as in the code.
\<close>

section \<open>Data\<close>

type_synonym LeaseToken = "byte list"

record Lease =
  ls_slot_id :: u64
  ls_token :: LeaseToken

record LeasePolicy =
  ttl_ms :: "u64 option"

definition lease_policy_default :: LeasePolicy where
  "lease_policy_default = \<lparr>ttl_ms = None\<rparr>"

definition with_ttl :: "u64 \<Rightarrow> LeasePolicy" where
  "with_ttl ttl = \<lparr>ttl_ms = Some ttl\<rparr>"

record SlotInfo =
  si_slot_id :: u64
  si_state :: SlotState
  si_icount :: u64
  si_base_snapshot_id :: "byte list option"
  si_live_children :: u32

datatype SlotError =
    NoSuchSlot u64
  | State SlotStateError
  | StaleLease u64
  | LeaseExpired u64
  | LiveChildren u64 u32
  | CowChildCannotFork u64
  | ZeroChildFork u64
  | NoFreeSlot
  | NotEnoughCores nat nat
  | DuplicateCore u32

record SlotEntry =
  se_state :: SlotState
  se_lease :: "(LeaseToken \<times> u64 option) option"
  se_live_children :: u32
  se_parent :: "u64 option"
  se_ram_is_cow :: bool
  se_icount :: u64
  se_base_snapshot_id :: "byte list option"

definition entry_empty :: SlotEntry where
  "entry_empty = \<lparr>se_state = Empty, se_lease = None, se_live_children = 0, se_parent = None,
     se_ram_is_cow = False, se_icount = 0, se_base_snapshot_id = None\<rparr>"

record SlotManager =
  sm_slots :: "SlotEntry list"
  sm_cores :: "u32 list"
  sm_policy :: LeasePolicy
  sm_tokens :: "nat \<Rightarrow> LeaseToken"
  sm_minted :: nat
  sm_events :: "SlotInfo list"

text \<open>\<open>physical_cores.saturating_sub(2).max(1)\<close>.\<close>

definition default_slot_count :: "nat \<Rightarrow> nat" where
  "default_slot_count physical_cores = max (physical_cores - 2) 1"

section \<open>Construction and leases\<close>

text \<open>The first repeated core of the duplicate scan.\<close>

fun first_dup :: "u32 list \<Rightarrow> u32 list \<Rightarrow> u32 option" where
  "first_dup seen [] = None"
| "first_dup seen (c # cs) = (if c \<in> set seen then Some c else first_dup (c # seen) cs)"

definition with_token_source ::
  "nat \<Rightarrow> u32 list \<Rightarrow> LeasePolicy \<Rightarrow> (nat \<Rightarrow> LeaseToken) \<Rightarrow> (SlotManager, SlotError) res" where
  "with_token_source n_slots cores policy tokens = (case first_dup [] cores of
     Some core \<Rightarrow> Err (DuplicateCore core)
   | None \<Rightarrow>
       if n_slots > length cores then Err (NotEnoughCores n_slots (length cores))
       else Ok \<lparr>sm_slots = replicate n_slots entry_empty, sm_cores = cores, sm_policy = policy,
                sm_tokens = tokens, sm_minted = 0, sm_events = []\<rparr>)"

definition slot_count :: "SlotManager \<Rightarrow> nat" where
  "slot_count m = length (sm_slots m)"

definition core_for :: "u64 \<Rightarrow> SlotManager \<Rightarrow> u32 option" where
  "core_for slot_id m = (if unat slot_id < length (sm_cores m) then Some (sm_cores m ! unat slot_id) else None)"

definition publish :: "SlotInfo list \<Rightarrow> SlotManager \<Rightarrow> SlotManager" where
  "publish evs m = m\<lparr>sm_events := sm_events m @ evs\<rparr>"

definition info_of :: "SlotEntry \<Rightarrow> u64 \<Rightarrow> SlotInfo" where
  "info_of e slot_id = \<lparr>si_slot_id = slot_id, si_state = se_state e, si_icount = se_icount e,
     si_base_snapshot_id = se_base_snapshot_id e, si_live_children = se_live_children e\<rparr>"

text \<open>One call of the token source and the expiry of the new lease.\<close>

definition mint :: "u64 \<Rightarrow> SlotManager \<Rightarrow> (LeaseToken \<times> u64 option) \<times> SlotManager" where
  "mint now_ms m = ((sm_tokens m (sm_minted m), map_option (\<lambda>ttl. saturating_add now_ms ttl) (ttl_ms (sm_policy m))),
     m\<lparr>sm_minted := Suc (sm_minted m)\<rparr>)"

definition lease_into :: "SlotEntry \<Rightarrow> u64 \<Rightarrow> u64 \<Rightarrow> SlotManager \<Rightarrow> (SlotEntry \<times> Lease) \<times> SlotManager" where
  "lease_into e slot_id now_ms m = (case mint now_ms m of
     ((token, expires), m) \<Rightarrow> ((e\<lparr>se_lease := Some (token, expires)\<rparr>, \<lparr>ls_slot_id = slot_id, ls_token = token\<rparr>), m))"

text \<open>\<open>slots.get(id).ok_or(NoSuchSlot(id))\<close>.\<close>

definition slot_at :: "SlotManager \<Rightarrow> u64 \<Rightarrow> (SlotEntry, SlotError) res" where
  "slot_at m slot_id = (if unat slot_id < length (sm_slots m) then Ok (sm_slots m ! unat slot_id)
     else Err (NoSuchSlot slot_id))"

definition validate_entry :: "SlotEntry \<Rightarrow> Lease \<Rightarrow> u64 \<Rightarrow> (unit, SlotError) res" where
  "validate_entry e lease now_ms = (case se_lease e of
     Some (token, expires) \<Rightarrow>
       if token = ls_token lease then
         (case expires of
            Some at \<Rightarrow> if now_ms \<ge> at then Err (LeaseExpired (ls_slot_id lease)) else Ok ()
          | None \<Rightarrow> Ok ())
       else Err (StaleLease (ls_slot_id lease))
   | None \<Rightarrow> Err (StaleLease (ls_slot_id lease)))"

definition validate :: "Lease \<Rightarrow> u64 \<Rightarrow> SlotManager \<Rightarrow> (unit, SlotError) res" where
  "validate lease now_ms m = res_bind (slot_at m (ls_slot_id lease)) (\<lambda>e. validate_entry e lease now_ms)"

definition checkout_write :: "Lease \<Rightarrow> string \<Rightarrow> u64 \<Rightarrow> SlotManager \<Rightarrow> (unit, SlotError) res" where
  "checkout_write lease api now_ms m =
     res_bind (slot_at m (ls_slot_id lease)) (\<lambda>e.
     res_bind (validate_entry e lease now_ms) (\<lambda>_.
       map_err State (ensure_write_path (se_state e) api)))"

text \<open>Write an entry back into the table.\<close>

definition set_slot :: "u64 \<Rightarrow> SlotEntry \<Rightarrow> SlotManager \<Rightarrow> SlotManager" where
  "set_slot slot_id e m = m\<lparr>sm_slots := (sm_slots m)[unat slot_id := e]\<rparr>"

text \<open>
  The block every single-slot crossing ends with: on success the changed entry is in the table
  and its event is published; on an error the table is as before.
\<close>

definition commit :: "u64 \<Rightarrow> (SlotEntry, SlotError) res \<Rightarrow> SlotManager \<Rightarrow> (unit, SlotError) res \<times> SlotManager" where
  "commit slot_id r m = (case r of
     Ok e \<Rightarrow> (Ok (), publish [info_of e slot_id] (set_slot slot_id e m))
   | Err x \<Rightarrow> (Err x, m)
   | Panic \<Rightarrow> (Panic, m))"

definition renew :: "Lease \<Rightarrow> u64 \<Rightarrow> SlotManager \<Rightarrow> (unit, SlotError) res \<times> SlotManager" where
  "renew lease now_ms m =
     (case res_bind (slot_at m (ls_slot_id lease)) (\<lambda>e.
           res_bind (validate_entry e lease now_ms) (\<lambda>_. Ok e)) of
        Ok e \<Rightarrow>
          (case (ttl_ms (sm_policy m), se_lease e) of
             (Some ttl, Some (token, _)) \<Rightarrow>
               (Ok (), set_slot (ls_slot_id lease) (e\<lparr>se_lease := Some (token, Some (saturating_add now_ms ttl))\<rparr>) m)
           | _ \<Rightarrow> (Ok (), m))
      | Err x \<Rightarrow> (Err x, m)
      | Panic \<Rightarrow> (Panic, m))"

section \<open>Lifecycle\<close>

text \<open>\<open>slots.iter().position(|e| e.state == Empty)\<close>.\<close>

fun position :: "('a \<Rightarrow> bool) \<Rightarrow> 'a list \<Rightarrow> nat option" where
  "position P [] = None"
| "position P (x # xs) = (if P x then Some 0 else map_option Suc (position P xs))"

definition allocate :: "u64 \<Rightarrow> SlotManager \<Rightarrow> (Lease, SlotError) res \<times> SlotManager" where
  "allocate now_ms m = (case position (\<lambda>e. se_state e = Empty) (sm_slots m) of
     None \<Rightarrow> (Err NoFreeSlot, m)
   | Some idx \<Rightarrow>
       (case map_err State (transition (se_state (sm_slots m ! idx)) Paused) of
          Ok s \<Rightarrow>
            (case lease_into ((sm_slots m ! idx)\<lparr>se_state := s\<rparr>) (of_nat idx) now_ms m of
               ((e, lease), m) \<Rightarrow>
                 (Ok lease, publish [info_of e (of_nat idx)] (set_slot (of_nat idx) e m)))
        | Err x \<Rightarrow> (Err x, m)
        | Panic \<Rightarrow> (Panic, m)))"

text \<open>The first \<open>children\<close> empty slots, in slot order.\<close>

definition free_slots :: "SlotEntry list \<Rightarrow> nat \<Rightarrow> nat list" where
  "free_slots slots children = take children (filter (\<lambda>i. se_state (slots ! i) = Empty) [0..<length slots])"

definition check_fork_entries ::
  "SlotEntry list \<Rightarrow> Lease \<Rightarrow> nat \<Rightarrow> u64 \<Rightarrow> (nat \<times> SlotState \<times> nat list, SlotError) res" where
  "check_fork_entries slots parent children now_ms =
     (let idx = unat (ls_slot_id parent) in
      if idx \<ge> length slots then Err (NoSuchSlot (ls_slot_id parent))
      else res_bind (validate_entry (slots ! idx) parent now_ms) (\<lambda>_.
      if children = 0 then Err (ZeroChildFork (ls_slot_id parent))
      else if se_ram_is_cow (slots ! idx) then Err (CowChildCannotFork (ls_slot_id parent))
      else res_bind (map_err State (transition (se_state (slots ! idx)) Frozen)) (\<lambda>frozen.
      let free = free_slots slots children in
      if length free < children then Err NoFreeSlot else Ok (idx, frozen, free))))"

definition check_fork :: "Lease \<Rightarrow> nat \<Rightarrow> u64 \<Rightarrow> SlotManager \<Rightarrow> (unit, SlotError) res" where
  "check_fork parent children now_ms m =
     res_bind (check_fork_entries (sm_slots m) parent children now_ms) (\<lambda>_. Ok ())"

text \<open>
  The child loop of \<open>fork\<close>: each free slot becomes a paused copy-on-write child at the parent's
  position. A refused \<open>Empty -> Paused\<close> crossing is the panic of the \<open>expect\<close>.
\<close>

fun fork_children ::
  "u64 \<Rightarrow> u64 \<times> byte list option \<Rightarrow> u64 \<Rightarrow> nat list \<Rightarrow> SlotManager \<times> Lease list \<times> SlotInfo list
   \<Rightarrow> (SlotManager \<times> Lease list \<times> SlotInfo list) option" where
  "fork_children parent_id pos now_ms [] acc = Some acc"
| "fork_children parent_id pos now_ms (idx # free) (m, leases, events) =
     (case transition (se_state (sm_slots m ! idx)) Paused of
        Ok s \<Rightarrow>
          (case lease_into ((sm_slots m ! idx)\<lparr>se_state := s, se_parent := Some parent_id, se_ram_is_cow := True,
                  se_icount := fst pos, se_base_snapshot_id := snd pos\<rparr>) (of_nat idx) now_ms m of
             ((e, lease), m) \<Rightarrow>
               fork_children parent_id pos now_ms free
                 (set_slot (of_nat idx) e m, leases @ [lease], events @ [info_of e (of_nat idx)]))
      | _ \<Rightarrow> None)"

definition fork :: "Lease \<Rightarrow> nat \<Rightarrow> u64 \<Rightarrow> SlotManager \<Rightarrow> (Lease list, SlotError) res \<times> SlotManager" where
  "fork parent children now_ms m =
     (case check_fork_entries (sm_slots m) parent children now_ms of
        Err x \<Rightarrow> (Err x, m)
      | Panic \<Rightarrow> (Panic, m)
      | Ok (idx, frozen, free) \<Rightarrow>
          (let m1 = m\<lparr>sm_slots := (sm_slots m)[idx := (sm_slots m ! idx)\<lparr>se_state := frozen\<rparr>]\<rparr>;
               pos = (se_icount (sm_slots m1 ! idx), se_base_snapshot_id (sm_slots m1 ! idx))
           in case fork_children (ls_slot_id parent) pos now_ms free (m1, [], []) of
                None \<Rightarrow> (Panic, m1)
              | Some (m2, leases, events) \<Rightarrow>
                  (case word_of_nat_opt children of
                     None \<Rightarrow> (Panic, m2)
                   | Some n \<Rightarrow>
                       (let p = sm_slots m2 ! idx;
                            p = p\<lparr>se_live_children := saturating_add (se_live_children p) n\<rparr>
                        in (Ok leases,
                            publish (events @ [info_of p (ls_slot_id parent)])
                              (m2\<lparr>sm_slots := (sm_slots m2)[idx := p]\<rparr>))))))"

definition mark_running :: "Lease \<Rightarrow> u64 \<Rightarrow> SlotManager \<Rightarrow> (unit, SlotError) res \<times> SlotManager" where
  "mark_running lease now_ms m = commit (ls_slot_id lease)
     (res_bind (slot_at m (ls_slot_id lease)) (\<lambda>e.
      res_bind (validate_entry e lease now_ms) (\<lambda>_.
      res_bind (map_err State (ensure_write_path (se_state e) ''Run'')) (\<lambda>_.
      res_bind (map_err State (transition (se_state e) Running)) (\<lambda>s.
        Ok (e\<lparr>se_state := s\<rparr>)))))) m"

definition mark_paused :: "Lease \<Rightarrow> u64 \<Rightarrow> SlotManager \<Rightarrow> (unit, SlotError) res \<times> SlotManager" where
  "mark_paused lease now_ms m = commit (ls_slot_id lease)
     (res_bind (slot_at m (ls_slot_id lease)) (\<lambda>e.
      res_bind (validate_entry e lease now_ms) (\<lambda>_.
      res_bind (map_err State (transition (se_state e) Paused)) (\<lambda>s.
        Ok (e\<lparr>se_state := s\<rparr>))))) m"

text \<open>
  The position is written before the crossing is checked: a refused crossing leaves the new
  position behind.
\<close>

definition mark_paused_at_position ::
  "Lease \<Rightarrow> u64 \<Rightarrow> byte list option \<Rightarrow> u64 \<Rightarrow> SlotManager \<Rightarrow> (unit, SlotError) res \<times> SlotManager" where
  "mark_paused_at_position lease icount base now_ms m =
     (case res_bind (slot_at m (ls_slot_id lease)) (\<lambda>e.
           res_bind (validate_entry e lease now_ms) (\<lambda>_. Ok e)) of
        Ok e \<Rightarrow>
          (let e = e\<lparr>se_icount := icount, se_base_snapshot_id := base\<rparr>
           in commit (ls_slot_id lease)
                (res_bind (map_err State (transition (se_state e) Paused)) (\<lambda>s. Ok (e\<lparr>se_state := s\<rparr>)))
                (set_slot (ls_slot_id lease) e m))
      | Err x \<Rightarrow> (Err x, m)
      | Panic \<Rightarrow> (Panic, m))"

definition set_position ::
  "Lease \<Rightarrow> u64 \<Rightarrow> byte list option \<Rightarrow> u64 \<Rightarrow> SlotManager \<Rightarrow> (unit, SlotError) res \<times> SlotManager" where
  "set_position lease icount base now_ms m =
     (case res_bind (slot_at m (ls_slot_id lease)) (\<lambda>e.
           res_bind (validate_entry e lease now_ms) (\<lambda>_. Ok e)) of
        Ok e \<Rightarrow> (Ok (), set_slot (ls_slot_id lease) (e\<lparr>se_icount := icount, se_base_snapshot_id := base\<rparr>) m)
      | Err x \<Rightarrow> (Err x, m)
      | Panic \<Rightarrow> (Panic, m))"

definition mark_faulted :: "u64 \<Rightarrow> SlotManager \<Rightarrow> (unit, SlotError) res \<times> SlotManager" where
  "mark_faulted slot_id m = commit slot_id
     (res_bind (slot_at m slot_id) (\<lambda>e.
      res_bind (map_err State (transition (se_state e) Faulted)) (\<lambda>s.
        Ok (e\<lparr>se_state := s\<rparr>)))) m"

section \<open>Release, destroy and expiry\<close>

text \<open>
  \<open>release\<close> resets the entry and, when it was the last child, thaws the parent.
\<close>

definition release :: "nat \<Rightarrow> SlotEntry list \<times> SlotInfo list \<Rightarrow> SlotEntry list \<times> SlotInfo list" where
  "release idx = (\<lambda>(slots, events).
     let parent = se_parent (slots ! idx);
         slots = slots[idx := entry_empty];
         events = events @ [info_of entry_empty (of_nat idx)]
     in case parent of
          None \<Rightarrow> (slots, events)
        | Some pid \<Rightarrow>
            if unat pid < length slots then
              (let p = slots ! unat pid;
                   p = p\<lparr>se_live_children := (if se_live_children p = 0 then 0 else se_live_children p - 1)\<rparr>
               in if se_live_children p = 0 \<and> se_state p = Frozen
                  then (let p = p\<lparr>se_state := Paused\<rparr> in (slots[unat pid := p], events @ [info_of p pid]))
                  else (slots[unat pid := p], events))
            else (slots, events))"

definition check_destroy_entry :: "SlotEntry \<Rightarrow> Lease \<Rightarrow> u64 \<Rightarrow> (unit, SlotError) res" where
  "check_destroy_entry e lease now_ms =
     res_bind (validate_entry e lease now_ms) (\<lambda>_.
     if se_live_children e > 0 then Err (LiveChildren (ls_slot_id lease) (se_live_children e))
     else res_bind (map_err State (transition (se_state e) Empty)) (\<lambda>_. Ok ()))"

definition check_destroy :: "Lease \<Rightarrow> u64 \<Rightarrow> SlotManager \<Rightarrow> (unit, SlotError) res" where
  "check_destroy lease now_ms m =
     res_bind (slot_at m (ls_slot_id lease)) (\<lambda>e. check_destroy_entry e lease now_ms)"

definition destroy :: "Lease \<Rightarrow> u64 \<Rightarrow> SlotManager \<Rightarrow> (unit, SlotError) res \<times> SlotManager" where
  "destroy lease now_ms m =
     (case res_bind (slot_at m (ls_slot_id lease)) (\<lambda>e. check_destroy_entry e lease now_ms) of
        Ok _ \<Rightarrow>
          (case release (unat (ls_slot_id lease)) (sm_slots m, []) of
             (slots, events) \<Rightarrow> (Ok (), publish events (m\<lparr>sm_slots := slots\<rparr>)))
      | Err x \<Rightarrow> (Err x, m)
      | Panic \<Rightarrow> (Panic, m))"

text \<open>One iteration of the cascade: a live child of \<open>slot_id\<close> faults where it can and is orphaned.\<close>

definition orphan_step :: "u64 \<Rightarrow> nat \<Rightarrow> SlotEntry list \<times> SlotInfo list \<Rightarrow> SlotEntry list \<times> SlotInfo list" where
  "orphan_step slot_id i = (\<lambda>(slots, events).
     let e = slots ! i in
     if se_parent e = Some slot_id \<and> se_state e \<noteq> Empty then
       (if can_transition (se_state e) Faulted
        then (let e = e\<lparr>se_state := Faulted\<rparr>
              in (slots[i := e\<lparr>se_parent := None\<rparr>], events @ [info_of e (of_nat i)]))
        else (slots[i := e\<lparr>se_parent := None\<rparr>], events))
     else (slots, events))"

definition force_destroy :: "u64 \<Rightarrow> SlotManager \<Rightarrow> (unit, SlotError) res \<times> SlotManager" where
  "force_destroy slot_id m =
     (case res_bind (slot_at m slot_id) (\<lambda>e. map_err State (transition (se_state e) Empty)) of
        Ok _ \<Rightarrow>
          (let acc = (if se_live_children (sm_slots m ! unat slot_id) > 0
                      then fold (orphan_step slot_id) [0..<length (sm_slots m)] (sm_slots m, [])
                      else (sm_slots m, []))
           in case release (unat slot_id) acc of
                (slots, events) \<Rightarrow> (Ok (), publish events (m\<lparr>sm_slots := slots\<rparr>)))
      | Err x \<Rightarrow> (Err x, m)
      | Panic \<Rightarrow> (Panic, m))"

text \<open>The sweep record of one slot: whether its lease has expired, and its state.\<close>

definition lease_expired :: "u64 \<Rightarrow> SlotEntry \<Rightarrow> bool" where
  "lease_expired now_ms e = (case se_lease e of Some (_, Some at) \<Rightarrow> now_ms \<ge> at | _ \<Rightarrow> False)"

definition reclaim_step ::
  "(bool \<times> SlotState) list \<Rightarrow> nat \<Rightarrow> (SlotEntry list \<times> SlotInfo list) \<times> u64 list
   \<Rightarrow> (SlotEntry list \<times> SlotInfo list) \<times> u64 list" where
  "reclaim_step sweep idx = (\<lambda>((slots, events), reclaimed).
     case sweep ! idx of (expired, state) \<Rightarrow>
       if \<not> expired then ((slots, events), reclaimed)
       else if (state = Paused \<or> state = Faulted) \<and> se_live_children (slots ! idx) = 0
         then (release idx (slots, events), reclaimed @ [of_nat idx])
       else if state = Running
         then (let e = (slots ! idx)\<lparr>se_state := Faulted\<rparr>
               in ((slots[idx := e], events @ [info_of e (of_nat idx)]), reclaimed))
       else ((slots, events), reclaimed))"

definition reclaim_expired :: "u64 \<Rightarrow> SlotManager \<Rightarrow> u64 list \<times> SlotManager" where
  "reclaim_expired now_ms m =
     (let sweep = map (\<lambda>e. (lease_expired now_ms e, se_state e)) (sm_slots m)
      in case fold (reclaim_step sweep) [0..<length (sm_slots m)] ((sm_slots m, []), []) of
           ((slots, events), reclaimed) \<Rightarrow> (reclaimed, publish events (m\<lparr>sm_slots := slots\<rparr>)))"

section \<open>Introspection\<close>

definition slot_info :: "u64 \<Rightarrow> SlotManager \<Rightarrow> (SlotInfo, SlotError) res" where
  "slot_info slot_id m = res_bind (slot_at m slot_id) (\<lambda>e. Ok (info_of e slot_id))"

definition list_slots :: "SlotManager \<Rightarrow> SlotInfo list" where
  "list_slots m = map (\<lambda>i. info_of (sm_slots m ! i) (of_nat i)) [0..<length (sm_slots m)]"

end
