(* ===== verification/Slot_Invariant.thy ===== *)
theory Slot_Invariant
  imports Slot_Manager
begin

text \<open>
  Correctness of the slot table: fork accounting, the frozen-parent guard, leases and the expiry
  reaper, for every sequence of calls.
\<close>

section \<open>The table invariant\<close>

text \<open>The number of live copy-on-write children of slot \<open>i\<close>.\<close>

definition kids :: "SlotEntry list \<Rightarrow> nat \<Rightarrow> nat" where
  "kids ss i = length (filter (\<lambda>e. se_parent e = Some (of_nat i)) ss)"

text \<open>
  What holds of one entry. With \<open>r9\<close> set it also says that a slot with live children is frozen.
\<close>

definition entry_ok :: "bool \<Rightarrow> SlotEntry \<Rightarrow> bool" where
  "entry_ok r9 e \<longleftrightarrow>
     (se_state e = Empty \<longrightarrow> e = entry_empty)
   \<and> (se_state e \<noteq> Empty \<longrightarrow> se_lease e \<noteq> None)
   \<and> (se_parent e \<noteq> None \<longrightarrow> se_ram_is_cow e)
   \<and> (se_ram_is_cow e \<longrightarrow> se_live_children e = 0)
   \<and> (se_state e = Frozen \<longrightarrow> se_live_children e \<noteq> 0)
   \<and> (r9 \<longrightarrow> se_live_children e \<noteq> 0 \<longrightarrow> se_state e = Frozen)"

definition slot_ok :: "bool \<Rightarrow> SlotEntry list \<Rightarrow> nat \<Rightarrow> bool" where
  "slot_ok r9 ss j \<longleftrightarrow> entry_ok r9 (ss ! j) \<and> unat (se_live_children (ss ! j)) = kids ss j"

definition links_ok :: "SlotEntry list \<Rightarrow> bool" where
  "links_ok ss \<longleftrightarrow> length ss \<le> 2 ^ 32 \<and> (\<forall>j<length ss. \<forall>p. se_parent (ss ! j) = Some p \<longrightarrow> unat p < length ss)"

definition tab_inv :: "bool \<Rightarrow> SlotEntry list \<Rightarrow> bool" where
  "tab_inv r9 ss \<longleftrightarrow> links_ok ss \<and> (\<forall>j<length ss. slot_ok r9 ss j)"

text \<open>The invariant with one slot exempt, the one that is being changed.\<close>

definition tab_inv_ex :: "bool \<Rightarrow> nat \<Rightarrow> SlotEntry list \<Rightarrow> bool" where
  "tab_inv_ex r9 k ss \<longleftrightarrow> links_ok ss \<and> (\<forall>j<length ss. j \<noteq> k \<longrightarrow> slot_ok r9 ss j)"

lemma length_filter_update:
  "i < length xs \<Longrightarrow>
     length (filter P (xs[i := y])) + (if P (xs ! i) then 1 else 0)
       = length (filter P xs) + (if P y then 1 else 0)"
proof (induction xs arbitrary: i)
  case (Cons x xs)
  then show ?case by (cases i) auto
qed simp

lemma kids_update:
  "k < length ss \<Longrightarrow>
     kids (ss[k := e]) i + (if se_parent (ss ! k) = Some (of_nat i) then 1 else 0)
       = kids ss i + (if se_parent e = Some (of_nat i) then 1 else 0)"
  unfolding kids_def by (rule length_filter_update)

lemma kids_update_same:
  "k < length ss \<Longrightarrow> se_parent e = se_parent (ss ! k) \<Longrightarrow> kids (ss[k := e]) i = kids ss i"
  using kids_update [of k ss e i] by (simp split: if_splits)

lemma slot_index: "links_ok ss \<Longrightarrow> i < length ss \<Longrightarrow> unat (of_nat i :: u64) = i"
  by (rule unat_of_nat_fits) (simp add: links_ok_def)

lemma slot_index_eq:
  "links_ok ss \<Longrightarrow> i < length ss \<Longrightarrow> j < length ss \<Longrightarrow> (of_nat i :: u64) = of_nat j \<longleftrightarrow> i = j"
  by (metis slot_index)

lemma slot_index_unat: "links_ok ss \<Longrightarrow> unat p < length ss \<Longrightarrow> p = of_nat i \<longleftrightarrow> unat p = i \<or> p = (of_nat i :: u64)"
  by auto

lemma kids_pos: "j < length ss \<Longrightarrow> se_parent (ss ! j) = Some (of_nat i) \<Longrightarrow> 0 < kids ss i"
  by (auto simp: kids_def filter_empty_conv intro!: Nat.gr0I)

lemma kids_zero: "kids ss i = 0 \<Longrightarrow> j < length ss \<Longrightarrow> se_parent (ss ! j) \<noteq> Some (of_nat i)"
  using kids_pos by (metis less_numeral_extra(3))

lemma tab_inv_exI: "tab_inv r9 ss \<Longrightarrow> tab_inv_ex r9 k ss"
  by (simp add: tab_inv_def tab_inv_ex_def)

lemma tab_inv_slot: "tab_inv r9 ss \<Longrightarrow> j < length ss \<Longrightarrow> entry_ok r9 (ss ! j) \<and> unat (se_live_children (ss ! j)) = kids ss j"
  by (simp add: tab_inv_def slot_ok_def)

text \<open>The exempt slot is filled in: the parent link stays, the child count is exact.\<close>

lemma tab_inv_fill:
  assumes "tab_inv_ex r9 k ss" "k < length ss" "se_parent e = se_parent (ss ! k)"
    "entry_ok r9 e" "unat (se_live_children e) = kids ss k"
  shows "tab_inv r9 (ss[k := e])"
proof -
  have "links_ok (ss[k := e])"
    using assms by (auto simp: tab_inv_ex_def links_ok_def nth_list_update)
  moreover have "slot_ok r9 (ss[k := e]) j" if "j < length ss" for j
    using assms that by (cases "j = k") (auto simp: tab_inv_ex_def slot_ok_def kids_update_same)
  ultimately show ?thesis
    by (simp add: tab_inv_def)
qed

text \<open>A change that keeps the links and the child count of one entry.\<close>

lemma tab_inv_local:
  assumes "tab_inv r9 ss" "k < length ss" "se_parent e = se_parent (ss ! k)"
    "se_live_children e = se_live_children (ss ! k)" "entry_ok r9 e"
  shows "tab_inv r9 (ss[k := e])"
  using assms by (intro tab_inv_fill) (auto simp: tab_inv_exI tab_inv_slot)

section \<open>Release\<close>

text \<open>What \<open>release\<close> may do to another slot: one child less, and a thaw.\<close>

definition thaw :: "SlotEntry \<Rightarrow> SlotEntry \<Rightarrow> bool" where
  "thaw e e' \<longleftrightarrow> se_parent e' = se_parent e \<and> se_lease e' = se_lease e
     \<and> se_live_children e' \<le> se_live_children e
     \<and> (se_state e' = se_state e \<or> se_state e = Frozen \<and> se_state e' = Paused)
     \<and> (e = entry_empty \<longrightarrow> e' = e)"

lemma thaw_refl [simp]: "thaw e e"
  by (simp add: thaw_def)

text \<open>The parent entry after one of its children is gone.\<close>

definition drop_child :: "SlotEntry \<Rightarrow> SlotEntry" where
  "drop_child p =
     (let p = p\<lparr>se_live_children := (if se_live_children p = 0 then 0 else se_live_children p - 1)\<rparr>
      in if se_live_children p = 0 \<and> se_state p = Frozen then p\<lparr>se_state := Paused\<rparr> else p)"

lemma unat_dec: "w \<noteq> 0 \<Longrightarrow> unat (w - 1) = unat w - 1" for w :: "'a::len word"
  by (simp add: unat_minus_one)

lemma release_slots:
  "fst (release idx (ss, ev)) = (case se_parent (ss ! idx) of
       None \<Rightarrow> ss[idx := entry_empty]
     | Some p \<Rightarrow> if unat p < length ss
         then ss[idx := entry_empty, unat p := drop_child (ss[idx := entry_empty] ! unat p)]
         else ss[idx := entry_empty])"
  by (simp add: release_def Let_def drop_child_def split: option.split)

lemma drop_child_ok:
  assumes "entry_ok r9 p" "se_live_children p \<noteq> 0"
  shows "entry_ok r9 (drop_child p)" "thaw p (drop_child p)"
    "se_parent (drop_child p) = se_parent p"
    "unat (se_live_children (drop_child p)) = unat (se_live_children p) - 1"
proof -
  let ?n = "se_live_children p - 1"
  have le: "?n \<le> se_live_children p"
    using assms(2) by (simp add: word_le_nat_alt unat_dec)
  show "entry_ok r9 (drop_child p)"
    using assms by (auto simp: drop_child_def Let_def entry_ok_def entry_empty_def)
  show "thaw p (drop_child p)"
    using assms le by (auto simp: drop_child_def Let_def thaw_def entry_empty_def)
  show "se_parent (drop_child p) = se_parent p"
    by (simp add: drop_child_def Let_def)
  show "unat (se_live_children (drop_child p)) = unat (se_live_children p) - 1"
    using assms(2) by (simp add: drop_child_def Let_def unat_dec)
qed

lemma entry_ok_empty [simp]: "entry_ok r9 entry_empty"
  by (simp add: entry_ok_def entry_empty_def)

lemma entry_empty_simps [simp]:
  "se_state entry_empty = Empty" "se_lease entry_empty = None" "se_live_children entry_empty = 0"
  "se_parent entry_empty = None" "se_ram_is_cow entry_empty = False"
  by (simp_all add: entry_empty_def)

text \<open>
  Releasing a childless slot keeps the invariant, empties that slot and at most thaws others.
\<close>

lemma release_ok:
  fixes ev :: "SlotInfo list"
  assumes inv: "tab_inv_ex r9 k ss" and k: "k < length ss" and none: "kids ss k = 0"
  defines "ss' \<equiv> fst (release k (ss, ev))"
  shows "tab_inv r9 ss'" "length ss' = length ss" "ss' ! k = entry_empty"
    "\<And>j. j < length ss \<Longrightarrow> j \<noteq> k \<Longrightarrow> thaw (ss ! j) (ss' ! j)"
proof -
  have links: "links_ok ss" using inv by (simp add: tab_inv_ex_def)
  let ?s0 = "ss[k := entry_empty]"
  have kids0: "kids ?s0 i = kids ss i - (if se_parent (ss ! k) = Some (of_nat i) then 1 else 0)" for i
    using kids_update [OF k, of entry_empty i] by (simp split: if_splits)
  have "tab_inv r9 ss' \<and> length ss' = length ss \<and> ss' ! k = entry_empty
    \<and> (\<forall>j<length ss. j \<noteq> k \<longrightarrow> thaw (ss ! j) (ss' ! j))"
  proof (cases "se_parent (ss ! k)")
    case None
    have "tab_inv r9 ?s0"
      using inv k None none by (intro tab_inv_fill) simp_all
    with None k show ?thesis by (simp add: ss'_def release_slots)
  next
    case (Some p)
    define q where "q = unat p"
    have p: "p = of_nat q" by (simp add: q_def)
    have q: "q < length ss" using links k Some by (auto simp: links_ok_def q_def)
    have qk: "q \<noteq> k"
      using kids_zero [OF none k] Some p by auto
    have okq: "entry_ok r9 (ss ! q)" "unat (se_live_children (ss ! q)) = kids ss q"
      using inv q qk by (auto simp: tab_inv_ex_def slot_ok_def)
    have live: "se_live_children (ss ! q) \<noteq> 0"
      using kids_pos [OF k, of q] Some p okq(2) by auto
    note dc = drop_child_ok [OF okq(1) live]
    have ss': "ss' = ?s0[q := drop_child (ss ! q)]"
      using Some q qk by (simp add: ss'_def release_slots q_def [symmetric])
    have kids': "kids ss' i = kids ss i - (if i = q then 1 else 0)" if "i < length ss" for i
      using kids_update_same [of q ?s0 "drop_child (ss ! q)" i] kids0 [of i] q qk dc(3) Some p
        slot_index_eq [OF links that q]
      by (auto simp: ss')
    have "slot_ok r9 ss' j" if j: "j < length ss" for j
    proof -
      consider "j = k" | "j = q" | "j \<noteq> k" "j \<noteq> q" by blast
      then show ?thesis
      proof cases
        case 1
        with qk k none kids' [OF k] show ?thesis by (simp add: slot_ok_def ss')
      next
        case 2
        with q dc okq kids' [OF q] show ?thesis by (simp add: slot_ok_def ss')
      next
        case 3
        with j inv kids' [OF j] show ?thesis by (auto simp: slot_ok_def ss' tab_inv_ex_def)
      qed
    qed
    moreover have "links_ok ss'"
      using links dc(3) q k by (auto simp: links_ok_def ss' nth_list_update split: if_splits)
    ultimately have "tab_inv r9 ss'" by (simp add: tab_inv_def ss')
    moreover have "thaw (ss ! j) (ss' ! j)" if "j < length ss" "j \<noteq> k" for j
      using that dc(2) q by (auto simp: ss' nth_list_update)
    ultimately show ?thesis using qk k by (simp add: ss')
  qed
  then show "tab_inv r9 ss'" "length ss' = length ss" "ss' ! k = entry_empty"
    "\<And>j. j < length ss \<Longrightarrow> j \<noteq> k \<Longrightarrow> thaw (ss ! j) (ss' ! j)" by auto
qed

lemma release_childless:
  assumes "tab_inv r9 ss" "k < length ss" "se_live_children (ss ! k) = 0"
  shows "tab_inv_ex r9 k ss" "kids ss k = 0"
  using assms tab_inv_slot [OF assms(1,2)] by (simp_all add: tab_inv_exI)

section \<open>Single-slot crossings\<close>

definition sm_inv :: "bool \<Rightarrow> SlotManager \<Rightarrow> bool" where
  "sm_inv r9 m \<longleftrightarrow> tab_inv r9 (sm_slots m) \<and> distinct (sm_cores m) \<and> length (sm_slots m) \<le> length (sm_cores m)"

lemma publish_simps [simp]:
  "sm_slots (publish evs m) = sm_slots m" "sm_cores (publish evs m) = sm_cores m"
  "sm_policy (publish evs m) = sm_policy m"
  by (simp_all add: publish_def)

lemma sm_inv_publish [simp]: "sm_inv r9 (publish evs m) = sm_inv r9 m"
  by (simp add: sm_inv_def)

lemma sm_inv_slots:
  "sm_inv r9 m \<Longrightarrow> tab_inv r9 ss \<Longrightarrow> length ss = length (sm_slots m) \<Longrightarrow> sm_inv r9 (m\<lparr>sm_slots := ss\<rparr>)"
  by (simp add: sm_inv_def)

lemma slot_at_Ok: "slot_at m i = Ok e \<longleftrightarrow> unat i < length (sm_slots m) \<and> e = sm_slots m ! unat i"
  by (auto simp: slot_at_def)

lemma slot_at_not_Panic [simp]: "slot_at m i \<noteq> Panic"
  by (simp add: slot_at_def)

lemma validate_entry_not_Panic [simp]: "validate_entry e lease now \<noteq> Panic"
  by (simp add: validate_entry_def split: option.split)

lemma validate_entry_lease: "validate_entry e lease now = Ok u \<Longrightarrow> se_lease e \<noteq> None"
  by (auto simp: validate_entry_def split: option.splits)

text \<open>
  A crossing that rewrites one entry: the links and the child count stay, and the new entry is
  well-formed wherever the old one was.
\<close>

definition entry_step :: "bool \<Rightarrow> SlotEntry \<Rightarrow> SlotEntry \<Rightarrow> bool" where
  "entry_step r9 e e' \<longleftrightarrow> se_parent e' = se_parent e \<and> se_live_children e' = se_live_children e
     \<and> (entry_ok r9 e \<longrightarrow> entry_ok r9 e')"

lemma set_slot_inv:
  assumes "sm_inv r9 m" "unat i < length (sm_slots m)" "entry_step r9 (sm_slots m ! unat i) e"
  shows "sm_inv r9 (set_slot i e m)"
  using assms tab_inv_slot [of r9 "sm_slots m" "unat i"]
  by (auto simp: sm_inv_def set_slot_def entry_step_def intro!: tab_inv_local)

lemma commit_inv:
  assumes "sm_inv r9 m"
    and "\<And>e. r = Ok e \<Longrightarrow> unat i < length (sm_slots m) \<and> entry_step r9 (sm_slots m ! unat i) e"
  shows "sm_inv r9 (snd (commit i r m))"
  using assms set_slot_inv [of r9 m i] by (cases r) (auto simp: commit_def)

text \<open>The state changes the crossings make, and the position update.\<close>

lemma entry_step_state:
  assumes "se_state e \<noteq> Empty \<or> se_lease e \<noteq> None" "s \<noteq> Empty" "s \<noteq> Frozen"
    "r9 \<longrightarrow> se_state e \<noteq> Frozen"
  shows "entry_step r9 e (e\<lparr>se_state := s\<rparr>)"
  using assms by (auto simp: entry_step_def entry_ok_def entry_empty_def)

lemma entry_step_position:
  "se_lease e \<noteq> None \<Longrightarrow> entry_step r9 e (e\<lparr>se_icount := n, se_base_snapshot_id := b\<rparr>)"
  by (auto simp: entry_step_def entry_ok_def entry_empty_def)

lemma entry_step_lease:
  "se_lease e \<noteq> None \<Longrightarrow> entry_step r9 e (e\<lparr>se_lease := Some l\<rparr>)"
  by (auto simp: entry_step_def entry_ok_def entry_empty_def)

lemma mark_running_inv: "sm_inv r9 m \<Longrightarrow> sm_inv r9 (snd (mark_running lease now m))"
  unfolding mark_running_def
  by (rule commit_inv)
     (auto simp: slot_at_Ok can_transition_to dest: validate_entry_lease intro!: entry_step_state)

lemma mark_faulted_inv: "sm_inv r9 m \<Longrightarrow> sm_inv r9 (snd (mark_faulted i m))"
  unfolding mark_faulted_def
  by (rule commit_inv) (auto simp: slot_at_Ok can_transition_to intro!: entry_step_state)

lemma mark_paused_inv:
  "sm_inv r9 m \<Longrightarrow> (\<And>e. r9 \<Longrightarrow> slot_at m (ls_slot_id lease) = Ok e \<Longrightarrow> se_state e \<noteq> Frozen)
     \<Longrightarrow> sm_inv r9 (snd (mark_paused lease now m))"
  unfolding mark_paused_def
  by (rule commit_inv)
     (auto simp: slot_at_Ok can_transition_to dest: validate_entry_lease intro!: entry_step_state)

lemma set_position_inv: "sm_inv r9 m \<Longrightarrow> sm_inv r9 (snd (set_position lease n b now m))"
  by (auto simp: set_position_def slot_at_Ok dest: validate_entry_lease
      intro!: set_slot_inv entry_step_position split: res.split)

lemma renew_inv: "sm_inv r9 m \<Longrightarrow> sm_inv r9 (snd (renew lease now m))"
  by (auto simp: renew_def slot_at_Ok dest: validate_entry_lease
      intro!: set_slot_inv entry_step_lease split: res.split option.split)

lemma mark_paused_at_position_inv:
  assumes "sm_inv r9 m"
    and "\<And>e. r9 \<Longrightarrow> slot_at m (ls_slot_id lease) = Ok e \<Longrightarrow> se_state e \<noteq> Frozen"
  shows "sm_inv r9 (snd (mark_paused_at_position lease n b now m))"
proof (cases "res_bind (slot_at m (ls_slot_id lease)) (\<lambda>e. res_bind (validate_entry e lease now) (\<lambda>_. Ok e))")
  case (Ok e)
  let ?i = "ls_slot_id lease"
  let ?e = "e\<lparr>se_icount := n, se_base_snapshot_id := b\<rparr>"
  have i: "unat ?i < length (sm_slots m)" and e: "e = sm_slots m ! unat ?i" and l: "se_lease e \<noteq> None"
    using Ok by (auto simp: slot_at_Ok dest: validate_entry_lease)
  have "sm_inv r9 (set_slot ?i ?e m)"
    using assms(1) i l unfolding e by (intro set_slot_inv entry_step_position)
  then have "sm_inv r9 (snd (commit ?i (res_bind (map_err State (transition (se_state ?e) Paused))
      (\<lambda>s. Ok (?e\<lparr>se_state := s\<rparr>))) (set_slot ?i ?e m)))"
    by (rule commit_inv)
       (use i e l assms(2) in \<open>auto simp: set_slot_def slot_at_Ok can_transition_to intro!: entry_step_state\<close>)
  with Ok show ?thesis by (simp add: mark_paused_at_position_def Let_def)
qed (use assms(1) in \<open>simp_all add: mark_paused_at_position_def\<close>)

section \<open>Allocation and fork\<close>

lemma position_Some: "position P xs = Some i \<Longrightarrow> i < length xs \<and> P (xs ! i)"
  by (induction P xs arbitrary: i rule: position.induct) (auto split: if_splits)

lemma position_None: "position P xs = None \<longleftrightarrow> (\<forall>x\<in>set xs. \<not> P x)"
  by (induction P xs rule: position.induct) auto

lemma lease_into_eq:
  "lease_into e i now m =
     ((e\<lparr>se_lease := Some (sm_tokens m (sm_minted m), map_option (saturating_add now) (ttl_ms (sm_policy m)))\<rparr>,
       \<lparr>ls_slot_id = i, ls_token = sm_tokens m (sm_minted m)\<rparr>), m\<lparr>sm_minted := Suc (sm_minted m)\<rparr>)"
  by (simp add: lease_into_def mint_def)

lemma sm_inv_minted [simp]: "sm_inv r9 (m\<lparr>sm_minted := k\<rparr>) = sm_inv r9 m"
  by (simp add: sm_inv_def)

lemma sm_links: "sm_inv r9 m \<Longrightarrow> links_ok (sm_slots m)"
  by (simp add: sm_inv_def tab_inv_def)

text \<open>An empty entry that is paused with a fresh lease, and possibly linked to a parent.\<close>

definition claimed :: "SlotEntry \<Rightarrow> bool" where
  "claimed e \<longleftrightarrow> se_state e = Paused \<and> se_lease e \<noteq> None \<and> se_live_children e = 0
     \<and> (se_parent e \<noteq> None \<longrightarrow> se_ram_is_cow e)"

lemma claimed_ok: "claimed e \<Longrightarrow> entry_ok r9 e"
  by (simp add: claimed_def entry_ok_def)

lemma entry_ok_Empty: "entry_ok r9 e \<Longrightarrow> se_state e = Empty \<Longrightarrow> e = entry_empty"
  by (simp add: entry_ok_def)

lemma allocate_inv:
  assumes "sm_inv r9 m"
  shows "sm_inv r9 (snd (allocate now m))"
proof (cases "position (\<lambda>e. se_state e = Empty) (sm_slots m)")
  case None
  with assms show ?thesis by (simp add: allocate_def)
next
  case (Some i)
  then have i: "i < length (sm_slots m)" "se_state (sm_slots m ! i) = Empty"
    using position_Some by fastforce+
  have u: "unat (of_nat i :: u64) = i" using sm_links [OF assms] i(1) by (rule slot_index)
  have "sm_slots m ! i = entry_empty"
    using assms i tab_inv_slot entry_ok_Empty by (fastforce simp: sm_inv_def)
  moreover have "entry_step r9 (sm_slots m ! i) (entry_empty\<lparr>se_state := Paused, se_lease := Some l\<rparr>)" for l
    using calculation by (simp add: entry_step_def entry_ok_def)
  ultimately show ?thesis
    using Some i u assms set_slot_inv [of r9 "m\<lparr>sm_minted := Suc (sm_minted m)\<rparr>" "of_nat i"]
    by (simp add: allocate_def transition_def can_transition_to lease_into_eq)
qed

lemma kids_claim:
  assumes "k < length ss" "links_ok ss" "i < length ss" "j < length ss" "ss ! k = entry_empty"
    "se_parent e = Some (of_nat i)"
  shows "kids (ss[k := e]) j = kids ss j + (if j = i then 1 else 0)"
  using kids_update [OF assms(1), of e j] assms slot_index_eq [of ss i j] by (auto split: if_splits)

text \<open>One child slot claimed for the exempt parent \<open>k\<close>.\<close>

lemma claim_child:
  assumes inv: "tab_inv_ex r9 k ss" and k: "k < length ss" and i: "i < length ss" "i \<noteq> k"
    and free: "ss ! i = entry_empty" and e: "claimed e" "se_parent e = Some (of_nat k)"
  shows "tab_inv_ex r9 k (ss[i := e])" "kids (ss[i := e]) k = Suc (kids ss k)"
proof -
  have links: "links_ok ss" using inv by (simp add: tab_inv_ex_def)
  note kc = kids_claim [OF i(1) links k _ free e(2)]
  show "kids (ss[i := e]) k = Suc (kids ss k)" using kc [OF k] by simp
  have "slot_ok r9 (ss[i := e]) j" if "j < length ss" "j \<noteq> k" for j
  proof (cases "j = i")
    case True
    have "unat (se_live_children (ss ! i)) = kids ss i"
      using inv i by (auto simp: tab_inv_ex_def slot_ok_def)
    with True kc [OF i(1)] i e(1) claimed_ok [OF e(1)] free show ?thesis
      by (auto simp: slot_ok_def claimed_def)
  next
    case False
    with that kc [OF that(1)] inv show ?thesis by (auto simp: slot_ok_def tab_inv_ex_def)
  qed
  moreover have "links_ok (ss[i := e])"
    using links i e(2) k slot_index [OF links k] by (auto simp: links_ok_def nth_list_update)
  ultimately show "tab_inv_ex r9 k (ss[i := e])" by (simp add: tab_inv_ex_def)
qed

lemma fork_children_ok:
  assumes "tab_inv_ex r9 k (sm_slots m)" "k < length (sm_slots m)" "distinct free"
    "\<forall>i\<in>set free. i < length (sm_slots m) \<and> i \<noteq> k \<and> sm_slots m ! i = entry_empty"
  shows "\<exists>m' ls ev'. fork_children (of_nat k) pos now free (m, leases, ev) = Some (m', leases @ ls, ev')
     \<and> tab_inv_ex r9 k (sm_slots m') \<and> kids (sm_slots m') k = kids (sm_slots m) k + length free
     \<and> length (sm_slots m') = length (sm_slots m) \<and> sm_slots m' ! k = sm_slots m ! k
     \<and> sm_cores m' = sm_cores m \<and> length ls = length free"
  using assms
proof (induction free arbitrary: m leases ev)
  case (Cons i free)
  let ?e = "entry_empty\<lparr>se_state := Paused, se_parent := Some (of_nat k), se_ram_is_cow := True,
      se_icount := fst pos, se_base_snapshot_id := snd pos,
      se_lease := Some (sm_tokens m (sm_minted m), map_option (saturating_add now) (ttl_ms (sm_policy m)))\<rparr>"
  let ?l = "\<lparr>ls_slot_id = of_nat i, ls_token = sm_tokens m (sm_minted m)\<rparr>"
  let ?m = "set_slot (of_nat i) ?e (m\<lparr>sm_minted := Suc (sm_minted m)\<rparr>)"
  have i: "i < length (sm_slots m)" "i \<noteq> k" "sm_slots m ! i = entry_empty" using Cons.prems by auto
  have u: "unat (of_nat i :: u64) = i"
    using Cons.prems(1) i(1) by (intro slot_index) (simp_all add: tab_inv_ex_def)
  have sl: "sm_slots ?m = (sm_slots m)[i := ?e]" by (simp add: set_slot_def u)
  have cl: "claimed ?e" by (simp add: claimed_def)
  note cc = claim_child [OF Cons.prems(1,2) i cl]
  have step: "fork_children (of_nat k) pos now (i # free) (m, leases, ev)
      = fork_children (of_nat k) pos now free (?m, leases @ [?l], ev @ [info_of ?e (of_nat i)])"
    using i(3) by (simp add: transition_def can_transition_to lease_into_eq)
  have "\<exists>m' ls ev'. fork_children (of_nat k) pos now free (?m, leases @ [?l], ev @ [info_of ?e (of_nat i)])
        = Some (m', (leases @ [?l]) @ ls, ev')
     \<and> tab_inv_ex r9 k (sm_slots m') \<and> kids (sm_slots m') k = kids (sm_slots ?m) k + length free
     \<and> length (sm_slots m') = length (sm_slots ?m) \<and> sm_slots m' ! k = sm_slots ?m ! k
     \<and> sm_cores m' = sm_cores ?m \<and> length ls = length free"
    by (rule Cons.IH) (use Cons.prems cc i in \<open>auto simp: sl nth_list_update\<close>)
  then obtain m' ls ev' where r: "fork_children (of_nat k) pos now (i # free) (m, leases, ev)
        = Some (m', leases @ (?l # ls), ev')" "tab_inv_ex r9 k (sm_slots m')"
     "kids (sm_slots m') k = kids (sm_slots ?m) k + length free"
     "length (sm_slots m') = length (sm_slots ?m)" "sm_slots m' ! k = sm_slots ?m ! k"
     "sm_cores m' = sm_cores ?m" "length ls = length free"
    unfolding step by (auto simp del: fork_children.simps)
  then show ?case
    using cc(2) i by (intro exI [of _ m'] exI [of _ "?l # ls"] exI [of _ ev']) (auto simp: set_slot_def u simp del: fork_children.simps)
qed simp

lemma free_slots_props:
  "distinct (free_slots ss n)" "i \<in> set (free_slots ss n) \<Longrightarrow> i < length ss \<and> se_state (ss ! i) = Empty"
  "length (free_slots ss n) \<le> n"
  by (auto simp: free_slots_def dest: in_set_takeD)

lemma check_fork_Ok:
  "check_fork_entries ss parent children now = Ok (idx, frozen, free) \<Longrightarrow>
     idx = unat (ls_slot_id parent) \<and> idx < length ss \<and> 0 < children \<and> \<not> se_ram_is_cow (ss ! idx)
   \<and> se_state (ss ! idx) = Paused \<and> frozen = Frozen \<and> free = free_slots ss children \<and> length free = children
   \<and> se_lease (ss ! idx) \<noteq> None"
  using free_slots_props(3) [of ss children]
  by (auto simp: check_fork_entries_def Let_def can_transition_to dest: validate_entry_lease split: if_splits)

lemma check_fork_not_Panic: "check_fork_entries ss parent children now \<noteq> Panic"
  by (auto simp: check_fork_entries_def Let_def res_bind_eq_Panic split: if_splits)

lemma kids_le: "kids ss i \<le> length ss"
  by (simp add: kids_def)

lemma kids_lt: "j < length ss \<Longrightarrow> se_parent (ss ! j) = None \<Longrightarrow> kids ss i < length ss"
  unfolding kids_def by (rule length_filter_less [of "ss ! j"]) simp_all

text \<open>
  Fork never panics and keeps the invariant. The child count fits 32 bits because the slot table
  is no longer than the list of distinct 32-bit core ids, and the parent is not its own child.
\<close>

lemma fork_ok:
  assumes inv: "sm_inv r9 m"
  shows "sm_inv r9 (snd (fork parent children now m))" "fst (fork parent children now m) \<noteq> Panic"
proof -
  have "sm_inv r9 (snd (fork parent children now m)) \<and> fst (fork parent children now m) \<noteq> Panic"
  proof (cases "check_fork_entries (sm_slots m) parent children now")
    case (Ok r)
    obtain k frozen free where r: "r = (k, frozen, free)" by (cases r)
    note cf = check_fork_Ok [OF Ok [unfolded r]]
    have tab: "tab_inv r9 (sm_slots m)" and links: "links_ok (sm_slots m)"
      using inv by (simp_all add: sm_inv_def tab_inv_def)
    have k: "k < length (sm_slots m)" and id: "ls_slot_id parent = of_nat k" using cf by auto
    let ?e = "(sm_slots m ! k)\<lparr>se_state := Frozen\<rparr>"
    let ?m1 = "m\<lparr>sm_slots := (sm_slots m)[k := ?e]\<rparr>"
    have okk: "entry_ok r9 (sm_slots m ! k)" "unat (se_live_children (sm_slots m ! k)) = kids (sm_slots m) k"
      using tab_inv_slot [OF tab k] by auto
    have np: "se_parent (sm_slots m ! k) = None" using okk(1) cf by (auto simp: entry_ok_def)
    have km1: "kids (sm_slots ?m1) i = kids (sm_slots m) i" for i using k by (simp add: kids_update_same)
    have ex: "tab_inv_ex r9 k (sm_slots ?m1)"
      using tab k links km1 np by (auto simp: tab_inv_def tab_inv_ex_def slot_ok_def links_ok_def nth_list_update)
    have fr: "\<forall>i\<in>set free. i < length (sm_slots ?m1) \<and> i \<noteq> k \<and> sm_slots ?m1 ! i = entry_empty"
      using cf free_slots_props(2) [of _ "sm_slots m" children] tab_inv_slot [OF tab] entry_ok_Empty
      by (fastforce simp: nth_list_update)
    have dist: "distinct free" using cf free_slots_props(1) by blast
    obtain m' ls ev' where fc:
      "fork_children (of_nat k) (se_icount (sm_slots ?m1 ! k), se_base_snapshot_id (sm_slots ?m1 ! k))
         now free (?m1, [], []) = Some (m', ls, ev')"
      "tab_inv_ex r9 k (sm_slots m')" "kids (sm_slots m') k = kids (sm_slots m) k + children"
      "length (sm_slots m') = length (sm_slots m)" "sm_slots m' ! k = ?e" "sm_cores m' = sm_cores m"
      using fork_children_ok [OF ex _ dist fr, of "(se_icount (sm_slots ?m1 ! k), se_base_snapshot_id (sm_slots ?m1 ! k))"
          now "[]" "[]"] k km1 [of k] cf
      by (auto simp: nth_list_update)
    have "kids (sm_slots m') k < length (sm_slots m')"
      using fc np k by (intro kids_lt [of k]) simp_all
    then have small: "kids (sm_slots m) k + children < 2 ^ 32"
      using fc(3,4) links by (simp add: links_ok_def)
    then have n: "word_of_nat_opt children = Some (of_nat children :: u32)"
      by (simp add: word_of_nat_opt_def)
    let ?p = "?e\<lparr>se_live_children := saturating_add (se_live_children ?e) (of_nat children)\<rparr>"
    have u: "unat (of_nat children :: u32) = children"
      using small by (intro unat_of_nat_fits) simp
    have live: "unat (se_live_children ?p) = kids (sm_slots m) k + children"
      using small okk(2) u by (simp add: saturating_add_def unat_word_ariths)
    have "entry_ok r9 ?p"
    proof -
      have "se_live_children ?p \<noteq> 0" using live cf by (metis add_is_0 less_numeral_extra(3) unat_0)
      then show ?thesis using okk(1) cf np by (auto simp: entry_ok_def)
    qed
    then have "tab_inv r9 ((sm_slots m')[k := ?p])"
      using fc live k by (intro tab_inv_fill) simp_all
    then have "sm_inv r9 (m'\<lparr>sm_slots := (sm_slots m')[k := ?p]\<rparr>)"
      using inv fc by (simp add: sm_inv_def)
    moreover have "frozen = Frozen" using cf by blast
    ultimately show ?thesis
      using id fc n k unfolding fork_def Ok r by (simp add: Let_def)
  qed (use inv check_fork_not_Panic in \<open>auto simp: fork_def\<close>)
  then show "sm_inv r9 (snd (fork parent children now m))" "fst (fork parent children now m) \<noteq> Panic" by auto
qed

section \<open>Destroy\<close>

lemma sm_release:
  assumes "sm_inv r9 m" "tab_inv_ex r9 k ss" "k < length ss" "kids ss k = 0" "length ss = length (sm_slots m)"
  shows "sm_inv r9 (m\<lparr>sm_slots := fst (release k (ss, ev))\<rparr>)"
  using release_ok(1,2) [OF assms(2-4), of ev] assms(1,5) by (intro sm_inv_slots) simp_all

lemma destroy_inv:
  assumes "sm_inv r9 m"
  shows "sm_inv r9 (snd (destroy lease now m))"
proof (cases "res_bind (slot_at m (ls_slot_id lease)) (\<lambda>e. check_destroy_entry e lease now)")
  case (Ok u)
  let ?k = "unat (ls_slot_id lease)"
  have k: "?k < length (sm_slots m)" "se_live_children (sm_slots m ! ?k) = 0"
    using Ok by (auto simp: slot_at_Ok check_destroy_entry_def word_gt_0 split: if_splits)
  have tab: "tab_inv r9 (sm_slots m)" using assms by (simp add: sm_inv_def)
  show ?thesis
    using sm_release [OF assms release_childless(1) [OF tab k] k(1) release_childless(2) [OF tab k] refl, of "[]"]
    unfolding destroy_def Ok by (simp add: case_prod_beta)
qed (use assms in \<open>simp_all add: destroy_def\<close>)

text \<open>The cascade of a forced destroy, slot by slot.\<close>

definition orphaned :: "u64 \<Rightarrow> SlotEntry \<Rightarrow> SlotEntry" where
  "orphaned k e =
     (if se_parent e = Some k \<and> se_state e \<noteq> Empty
      then (if can_transition (se_state e) Faulted then e\<lparr>se_state := Faulted, se_parent := None\<rparr>
            else e\<lparr>se_parent := None\<rparr>)
      else e)"

lemma orphan_step_slots: "fst (orphan_step k i (ss, ev)) = ss[i := orphaned k (ss ! i)]"
  by (simp add: orphan_step_def orphaned_def Let_def)

lemma orphan_fold:
  "n \<le> length ss \<Longrightarrow> fst (fold (orphan_step k) [0..<n] (ss, ev)) = map (orphaned k) (take n ss) @ drop n ss"
proof (induction n)
  case (Suc n)
  obtain ss' ev' where f: "fold (orphan_step k) [0..<n] (ss, ev) = (ss', ev')" by force
  with Suc have "ss' = map (orphaned k) (take n ss) @ drop n ss" by auto
  with Suc.prems f orphan_step_slots [of k n ss' ev'] show ?case
    by (simp add: nth_append list_update_append take_Suc_conv_app_nth Cons_nth_drop_Suc [symmetric] min_def)
qed simp

lemma kids_orphaned:
  assumes "links_ok ss" "\<forall>e\<in>set ss. se_state e = Empty \<longrightarrow> se_parent e = None" "k < length ss" "i < length ss"
  shows "kids (map (orphaned (of_nat k)) ss) i = (if i = k then 0 else kids ss i)"
proof -
  have "se_parent (orphaned (of_nat k) e) = Some (of_nat i) \<longleftrightarrow> i \<noteq> k \<and> se_parent e = Some (of_nat i)"
    if "e \<in> set ss" for e
    using assms that slot_index_eq [OF assms(1,4,3)] by (auto simp: orphaned_def)
  then have "filter ((\<lambda>e. se_parent e = Some (of_nat i)) \<circ> orphaned (of_nat k)) ss
      = filter (\<lambda>e. i \<noteq> k \<and> se_parent e = Some (of_nat i)) ss"
    by (intro filter_cong) auto
  then show ?thesis by (simp add: kids_def filter_map)
qed

lemma orphaned_ok: "entry_ok r9 e \<Longrightarrow> entry_ok r9 (orphaned k e)"
  "se_live_children (orphaned k e) = se_live_children e" "se_parent (orphaned k e) \<noteq> None \<Longrightarrow> se_parent (orphaned k e) = se_parent e"
  by (auto simp: orphaned_def entry_ok_def can_transition_to split: if_splits)

lemma orphan_table:
  assumes "tab_inv r9 ss" "k < length ss"
  shows "tab_inv_ex r9 k (map (orphaned (of_nat k)) ss)" "kids (map (orphaned (of_nat k)) ss) k = 0"
proof -
  have links: "links_ok ss" using assms by (simp add: tab_inv_def)
  have E: "\<forall>e\<in>set ss. se_state e = Empty \<longrightarrow> se_parent e = None"
    using tab_inv_slot [OF assms(1)] entry_ok_Empty by (metis in_set_conv_nth entry_empty_simps(4))
  note ko = kids_orphaned [OF links E assms(2)]
  show "kids (map (orphaned (of_nat k)) ss) k = 0" using ko [OF assms(2)] by simp
  have "links_ok (map (orphaned (of_nat k)) ss)"
    unfolding links_ok_def
  proof (intro conjI allI impI)
    fix j p assume j: "j < length (map (orphaned (of_nat k)) ss)"
      and "se_parent (map (orphaned (of_nat k)) ss ! j) = Some p"
    then have "se_parent (ss ! j) = Some p"
      using orphaned_ok(3) [of "of_nat k" "ss ! j"] by simp
    with links j show "unat p < length (map (orphaned (of_nat k)) ss)" by (auto simp: links_ok_def)
  qed (use links in \<open>simp add: links_ok_def\<close>)
  then show "tab_inv_ex r9 k (map (orphaned (of_nat k)) ss)"
    using tab_inv_slot [OF assms(1)] ko by (auto simp: tab_inv_ex_def slot_ok_def orphaned_ok)
qed

lemma force_destroy_inv:
  assumes "sm_inv r9 m"
  shows "sm_inv r9 (snd (force_destroy i m))"
proof (cases "res_bind (slot_at m i) (\<lambda>e. map_err State (transition (se_state e) Empty))")
  case (Ok s)
  let ?k = "unat i"
  have k: "?k < length (sm_slots m)" using Ok by (auto simp: slot_at_Ok)
  have tab: "tab_inv r9 (sm_slots m)" using assms by (simp add: sm_inv_def)
  show ?thesis
  proof (cases "se_live_children (sm_slots m ! ?k) = 0")
    case True
    show ?thesis
      using True sm_release [OF assms release_childless(1) [OF tab k True] k release_childless(2) [OF tab k True] refl, of "[]"]
      unfolding force_destroy_def Ok by (simp add: case_prod_beta Let_def)
  next
    case False
    obtain ev where f: "fold (orphan_step i) [0..<length (sm_slots m)] (sm_slots m, [])
        = (map (orphaned (of_nat ?k)) (sm_slots m), ev)"
      using orphan_fold [of "length (sm_slots m)" "sm_slots m" i "[]"]
      by (cases "fold (orphan_step i) [0..<length (sm_slots m)] (sm_slots m, [])") simp
    show ?thesis
      using False f sm_release [OF assms orphan_table(1) [OF tab k] _ orphan_table(2) [OF tab k], of ev] k
      unfolding force_destroy_def Ok by (simp add: word_gt_0 case_prod_beta Let_def)
  qed
qed (use assms in \<open>simp_all add: force_destroy_def\<close>)

section \<open>The expiry sweep\<close>

definition kept :: "SlotEntry \<Rightarrow> SlotEntry \<Rightarrow> bool" where
  "kept e e' \<longleftrightarrow> se_parent e' = se_parent e \<and> se_lease e' = se_lease e
     \<and> (se_state e' = se_state e \<or> se_state e = Frozen \<and> se_state e' = Paused
        \<or> se_state e = Running \<and> se_state e' = Faulted)"

text \<open>What one sweep does to a slot.\<close>

definition swept :: "u64 \<Rightarrow> SlotEntry \<Rightarrow> SlotEntry \<Rightarrow> bool" where
  "swept now e e' \<longleftrightarrow> (e' = entry_empty \<or> kept e e')
     \<and> (lease_expired now e \<longrightarrow> se_state e = Paused \<or> se_state e = Faulted \<longrightarrow> se_live_children e = 0
          \<longrightarrow> e' = entry_empty)
     \<and> (lease_expired now e \<longrightarrow> se_state e = Running \<longrightarrow> se_state e' = Faulted)"

lemma thaw_trans: "thaw e x \<Longrightarrow> thaw x y \<Longrightarrow> thaw e y"
  unfolding thaw_def by (metis order_trans)

lemma swept_thaw: "swept now e x \<Longrightarrow> thaw x y \<Longrightarrow> swept now e y"
  by (auto simp: swept_def thaw_def kept_def)

lemma thaw_swept:
  assumes "thaw e x" "\<not> lease_expired now e \<or> se_state e = Empty \<or> se_state e = Frozen
     \<or> (se_state e = Paused \<or> se_state e = Faulted) \<and> se_live_children x \<noteq> 0"
  shows "swept now e x"
proof -
  have "se_live_children e \<noteq> 0" if "se_live_children x \<noteq> 0"
    using assms(1) that by (auto simp: thaw_def)
  with assms show ?thesis by (auto simp: swept_def thaw_def kept_def)
qed

lemma reclaim_step_slots:
  "fst (fst (reclaim_step sweep k ((ss, ev), r))) =
     (if \<not> fst (sweep ! k) then ss
      else if (snd (sweep ! k) = Paused \<or> snd (sweep ! k) = Faulted) \<and> se_live_children (ss ! k) = 0
        then fst (release k (ss, ev))
      else if snd (sweep ! k) = Running then ss[k := (ss ! k)\<lparr>se_state := Faulted\<rparr>]
      else ss)"
  by (simp add: reclaim_step_def Let_def case_prod_beta)

lemma reclaim_fold:
  fixes S :: "SlotEntry list" and now :: u64 and ev :: "SlotInfo list" and r :: "u64 list"
  defines "sweep \<equiv> map (\<lambda>e. (lease_expired now e, se_state e)) S"
  assumes tab: "tab_inv r9 S" and k: "k \<le> length S"
  defines "ss \<equiv> fst (fst (fold (reclaim_step sweep) [0..<k] ((S, ev), r)))"
  shows "tab_inv r9 ss \<and> length ss = length S
     \<and> (\<forall>j<k. swept now (S ! j) (ss ! j)) \<and> (\<forall>j<length S. k \<le> j \<longrightarrow> thaw (S ! j) (ss ! j))"
  using k unfolding ss_def
proof (induction k)
  case 0
  with tab show ?case by simp
next
  case (Suc k)
  obtain s1 ev1 r1 where f: "fold (reclaim_step sweep) [0..<k] ((S, ev), r) = ((s1, ev1), r1)"
    by (metis prod.exhaust)
  have IH: "tab_inv r9 s1" "length s1 = length S" "\<And>j. j < k \<Longrightarrow> swept now (S ! j) (s1 ! j)"
    "\<And>j. k \<le> j \<Longrightarrow> j < length S \<Longrightarrow> thaw (S ! j) (s1 ! j)"
    using Suc f by auto
  have k: "k < length S" "k < length s1" using Suc.prems IH(2) by auto
  have th: "thaw (S ! k) (s1 ! k)" using IH(4) k by blast
  have sw: "fst (sweep ! k) = lease_expired now (S ! k)" "snd (sweep ! k) = se_state (S ! k)"
    using k by (simp_all add: sweep_def)
  let ?s2 = "fst (fst (reclaim_step sweep k ((s1, ev1), r1)))"
  have "tab_inv r9 ?s2 \<and> length ?s2 = length s1 \<and> swept now (S ! k) (?s2 ! k)
      \<and> (\<forall>j<length s1. j \<noteq> k \<longrightarrow> thaw (s1 ! j) (?s2 ! j))"
  proof (cases "lease_expired now (S ! k) \<and> (se_state (S ! k) = Paused \<or> se_state (S ! k) = Faulted)
      \<and> se_live_children (s1 ! k) = 0")
    case True
    note rc = release_childless [OF IH(1) k(2)]
    have s2: "?s2 = fst (release k (s1, ev1))" using True sw by (simp add: reclaim_step_slots)
    have "swept now (S ! k) entry_empty" using True by (auto simp: swept_def)
    then show ?thesis
      unfolding s2 using release_ok [OF rc(1) k(2) rc(2), where ev = ev1] True by simp
  next
    case nrel: False
    show ?thesis
    proof (cases "lease_expired now (S ! k) \<and> se_state (S ! k) = Running")
      case True
      then have run: "se_state (s1 ! k) = Running" using th by (auto simp: thaw_def)
      have s2: "?s2 = s1[k := (s1 ! k)\<lparr>se_state := Faulted\<rparr>]" using True sw by (simp add: reclaim_step_slots)
      have "tab_inv r9 ?s2"
        unfolding s2 using IH(1) k(2) tab_inv_slot [OF IH(1) k(2)] run entry_step_state [of "s1 ! k" Faulted r9]
        by (intro tab_inv_local) (auto simp: entry_step_def)
      moreover have "swept now (S ! k) ((s1 ! k)\<lparr>se_state := Faulted\<rparr>)"
        using th True by (auto simp: swept_def thaw_def kept_def)
      ultimately show ?thesis using k by (simp add: s2)
    next
      case False
      have s2: "?s2 = s1" using nrel False sw by (auto simp: reclaim_step_slots)
      have "swept now (S ! k) (s1 ! k)"
        using nrel False by (intro thaw_swept [OF th]) (cases "se_state (S ! k)"; auto)
      with IH s2 show ?thesis by simp
    qed
  qed
  then have s2: "tab_inv r9 ?s2" "length ?s2 = length S" "swept now (S ! k) (?s2 ! k)"
    "\<And>j. j < length S \<Longrightarrow> j \<noteq> k \<Longrightarrow> thaw (s1 ! j) (?s2 ! j)"
    using IH(2) by auto
  have "swept now (S ! j) (?s2 ! j)" if "j < Suc k" for j
  proof (cases "j = k")
    case False
    with that k(1) show ?thesis by (intro swept_thaw [OF IH(3) s2(4)]) simp_all
  qed (use s2(3) in simp)
  moreover have "thaw (S ! j) (?s2 ! j)" if "j < length S" "Suc k \<le> j" for j
    using that by (intro thaw_trans [OF IH(4) s2(4)]) simp_all
  moreover have "fst (fst (fold (reclaim_step sweep) [0..<Suc k] ((S, ev), r))) = ?s2"
    using f by simp
  ultimately show ?case
    using s2(1,2) by simp
qed

lemma reclaim_sweep:
  fixes now :: u64
  assumes "sm_inv r9 m"
  defines "m' \<equiv> snd (reclaim_expired now m)"
  shows "sm_inv r9 m'" "length (sm_slots m') = length (sm_slots m)"
    "\<And>j. j < length (sm_slots m) \<Longrightarrow> swept now (sm_slots m ! j) (sm_slots m' ! j)"
proof -
  have tab: "tab_inv r9 (sm_slots m)" using assms(1) by (simp add: sm_inv_def)
  have "sm_slots m' = fst (fst (fold (reclaim_step (map (\<lambda>e. (lease_expired now e, se_state e)) (sm_slots m)))
      [0..<length (sm_slots m)] ((sm_slots m, []), [])))" "sm_cores m' = sm_cores m"
    by (simp_all add: m'_def reclaim_expired_def Let_def case_prod_beta)
  with reclaim_fold [OF tab order.refl, of now "[]" "[]"] assms(1)
  show "sm_inv r9 m'" "length (sm_slots m') = length (sm_slots m)"
    "\<And>j. j < length (sm_slots m) \<Longrightarrow> swept now (sm_slots m ! j) (sm_slots m' ! j)"
    by (auto simp: sm_inv_def)
qed

section \<open>Every sequence of calls\<close>

text \<open>
  One call on the manager. With \<open>r9\<close> set the callers pause only slots that are not frozen, which
  is how the worker uses it (a pause follows a run of the same slot).
\<close>

inductive sm_step :: "bool \<Rightarrow> SlotManager \<Rightarrow> SlotManager \<Rightarrow> bool" for r9 where
  st_allocate: "sm_step r9 m (snd (allocate now m))"
| st_fork: "sm_step r9 m (snd (fork lease children now m))"
| st_renew: "sm_step r9 m (snd (renew lease now m))"
| st_running: "sm_step r9 m (snd (mark_running lease now m))"
| st_paused: "(\<And>e. r9 \<Longrightarrow> slot_at m (ls_slot_id lease) = Ok e \<Longrightarrow> se_state e \<noteq> Frozen)
    \<Longrightarrow> sm_step r9 m (snd (mark_paused lease now m))"
| st_paused_at: "(\<And>e. r9 \<Longrightarrow> slot_at m (ls_slot_id lease) = Ok e \<Longrightarrow> se_state e \<noteq> Frozen)
    \<Longrightarrow> sm_step r9 m (snd (mark_paused_at_position lease icount base now m))"
| st_position: "sm_step r9 m (snd (set_position lease icount base now m))"
| st_faulted: "sm_step r9 m (snd (mark_faulted i m))"
| st_destroy: "sm_step r9 m (snd (destroy lease now m))"
| st_force: "sm_step r9 m (snd (force_destroy i m))"
| st_reclaim: "sm_step r9 m (snd (reclaim_expired now m))"

inductive sm_reach :: "bool \<Rightarrow> SlotManager \<Rightarrow> bool" for r9 where
  sm_new: "with_token_source n cores policy tokens = Ok m \<Longrightarrow> sm_reach r9 m"
| sm_call: "sm_reach r9 m \<Longrightarrow> sm_step r9 m m' \<Longrightarrow> sm_reach r9 m'"

lemma first_dup_None: "first_dup seen cs = None \<longleftrightarrow> distinct cs \<and> set cs \<inter> set seen = {}"
  by (induction seen cs rule: first_dup.induct) auto

lemma distinct_u32_length: "distinct cs \<Longrightarrow> length cs \<le> 2 ^ 32" for cs :: "u32 list"
  using card_mono [of UNIV "set cs"] by (simp add: distinct_card card_word)

lemma with_token_source_inv:
  assumes "with_token_source n cores policy tokens = Ok m"
  shows "sm_inv r9 m"
proof -
  have d: "distinct cores" "n \<le> length cores" and m: "sm_slots m = replicate n entry_empty" "sm_cores m = cores"
    using assms by (auto simp: with_token_source_def first_dup_None split: option.splits if_splits)
  have "n \<le> 2 ^ 32" using distinct_u32_length [OF d(1)] d(2) by simp
  then show ?thesis
    using d m by (auto simp: sm_inv_def tab_inv_def links_ok_def slot_ok_def kids_def)
qed

lemma sm_step_inv: "sm_step r9 m m' \<Longrightarrow> sm_inv r9 m \<Longrightarrow> sm_inv r9 m'"
  by (induction rule: sm_step.induct)
     (auto intro: allocate_inv fork_ok renew_inv mark_running_inv mark_paused_inv mark_paused_at_position_inv
        set_position_inv mark_faulted_inv destroy_inv force_destroy_inv reclaim_sweep)

lemma sm_reach_inv: "sm_reach r9 m \<Longrightarrow> sm_inv r9 m"
  by (induction rule: sm_reach.induct) (auto intro: with_token_source_inv sm_step_inv)

section \<open>Properties\<close>

lemma kids_card: "kids ss i = card {j. j < length ss \<and> se_parent (ss ! j) = Some (of_nat i)}"
  by (simp add: kids_def length_filter_conv_card)

lemma sm_slot_facts:
  assumes "sm_reach r9 m" "i < length (sm_slots m)"
  shows "entry_ok r9 (sm_slots m ! i)" "unat (se_live_children (sm_slots m ! i)) = kids (sm_slots m) i"
  using sm_reach_inv [OF assms(1)] assms(2) tab_inv_slot by (auto simp: sm_inv_def)

text \<open>
  C30. Fork accounting and the frozen-parent guard, after any sequence of calls on the slot
  manager: the child count of a slot is the number of slots whose memory is a copy of it, a free
  slot is a pristine entry, a copy-on-write child is never itself a parent. If callers pause only
  slots that are not frozen, a slot is frozen exactly while it has live children, so no lease can
  check out the write path of a slot whose memory backs a child.
\<close>

theorem slot_fork_accounting:
  assumes "sm_reach r9 m" and "i < slot_count m"
  shows "unat (se_live_children (sm_slots m ! i))
           = card {j. j < slot_count m \<and> se_parent (sm_slots m ! j) = Some (of_nat i)}
    \<and> (se_state (sm_slots m ! i) = Empty \<longrightarrow> sm_slots m ! i = entry_empty)
    \<and> (se_parent (sm_slots m ! i) \<noteq> None \<longrightarrow> se_live_children (sm_slots m ! i) = 0)
    \<and> (r9 \<longrightarrow> (se_state (sm_slots m ! i) = Frozen \<longleftrightarrow> se_live_children (sm_slots m ! i) \<noteq> 0))
    \<and> (r9 \<longrightarrow> checkout_write lease api now m = Ok () \<longrightarrow>
        (\<forall>j < slot_count m. se_parent (sm_slots m ! j) \<noteq> Some (ls_slot_id lease)))"
proof -
  have n: "slot_count m = length (sm_slots m)" by (simp add: slot_count_def)
  note facts = sm_slot_facts [OF assms(1)]
  have ok: "entry_ok r9 (sm_slots m ! i)" and cnt: "unat (se_live_children (sm_slots m ! i)) = kids (sm_slots m) i"
    using facts assms(2) by (simp_all add: n)
  have guard: "se_parent (sm_slots m ! j) \<noteq> Some (ls_slot_id lease)"
    if "r9" "checkout_write lease api now m = Ok ()" "j < length (sm_slots m)" for j
  proof -
    let ?k = "unat (ls_slot_id lease)"
    have k: "?k < length (sm_slots m)" and st: "se_state (sm_slots m ! ?k) \<noteq> Frozen"
      using that(2) by (auto simp: checkout_write_def slot_at_Ok ensure_write_path_Ok)
    then have "kids (sm_slots m) ?k = 0"
      using facts [OF k] that(1) by (auto simp: entry_ok_def)
    from kids_zero [OF this that(3)] show ?thesis by simp
  qed
  show ?thesis
    using ok cnt guard by (auto simp: n kids_card entry_ok_def)
qed

lemma lease_expired_mono: "lease_expired now e \<Longrightarrow> now \<le> now' \<Longrightarrow> lease_expired now' e"
  by (auto simp: lease_expired_def split: option.splits)

definition all_expired :: "u64 \<Rightarrow> SlotManager \<Rightarrow> bool" where
  "all_expired now m \<longleftrightarrow> (\<forall>e\<in>set (sm_slots m). se_state e \<noteq> Empty \<longrightarrow> lease_expired now e)"

lemma all_expired_sweep:
  assumes "sm_inv r9 m" "all_expired now m" "now \<le> now'"
  shows "all_expired now' (snd (reclaim_expired now m))"
  unfolding all_expired_def
proof (intro ballI impI)
  fix e assume "e \<in> set (sm_slots (snd (reclaim_expired now m)))" and ne: "se_state e \<noteq> Empty"
  then obtain j where j: "j < length (sm_slots m)" "e = sm_slots (snd (reclaim_expired now m)) ! j"
    using reclaim_sweep(2) [OF assms(1)] by (auto simp: in_set_conv_nth)
  then have "kept (sm_slots m ! j) e"
    using reclaim_sweep(3) [OF assms(1) j(1), of now] ne by (auto simp: swept_def)
  then have "se_lease e = se_lease (sm_slots m ! j)" "se_state (sm_slots m ! j) \<noteq> Empty"
    using ne by (auto simp: kept_def)
  moreover have "lease_expired now (sm_slots m ! j)"
    using assms(2) j(1) calculation(2) by (auto simp: all_expired_def)
  ultimately show "lease_expired now' e"
    using lease_expired_mono [OF _ assms(3)] by (simp add: lease_expired_def)
qed

lemma sweep_stops_running:
  assumes "sm_inv r9 m" "all_expired now m" "j < length (sm_slots m)"
  shows "se_state (sm_slots (snd (reclaim_expired now m)) ! j) \<noteq> Running"
  using reclaim_sweep(3) [OF assms(1,3), of now] assms(2,3)
  by (auto simp: swept_def kept_def all_expired_def)

lemma sweep_frees_children:
  assumes inv: "sm_inv r9 m" and ex: "all_expired now m" and j: "j < length (sm_slots m)"
    and nr: "se_state (sm_slots m ! j) \<noteq> Running"
  shows "se_parent (sm_slots (snd (reclaim_expired now m)) ! j) = None"
proof (rule ccontr)
  let ?e = "sm_slots m ! j" and ?e' = "sm_slots (snd (reclaim_expired now m)) ! j"
  assume p: "se_parent ?e' \<noteq> None"
  have sw: "swept now ?e ?e'" using inv j by (rule reclaim_sweep)
  then have par: "se_parent ?e \<noteq> None" and ne': "?e' \<noteq> entry_empty" using p by (auto simp: swept_def kept_def)
  have ok: "entry_ok r9 ?e" using inv j tab_inv_slot by (auto simp: sm_inv_def)
  have st: "se_state ?e = Paused \<or> se_state ?e = Faulted" and ch: "se_live_children ?e = 0"
    using ok par nr by (cases "se_state ?e"; auto simp: entry_ok_def)+
  moreover have "lease_expired now ?e" using ex j st by (auto simp: all_expired_def)
  ultimately show False using sw ne' by (auto simp: swept_def)
qed

lemma sweep_frees_rest:
  assumes inv: "sm_inv r9 m" and ex: "all_expired now m"
    and nr: "\<And>j. j < length (sm_slots m) \<Longrightarrow> se_state (sm_slots m ! j) \<noteq> Running \<and> se_parent (sm_slots m ! j) = None"
    and j: "j < length (sm_slots m)"
  shows "sm_slots (snd (reclaim_expired now m)) ! j = entry_empty"
proof -
  let ?e = "sm_slots m ! j" and ?e' = "sm_slots (snd (reclaim_expired now m)) ! j"
  have sw: "swept now ?e ?e'" using inv j by (rule reclaim_sweep)
  have ok: "entry_ok r9 ?e" "entry_ok r9 ?e'" and cnt: "unat (se_live_children ?e) = kids (sm_slots m) j"
    using inv j tab_inv_slot reclaim_sweep(1,2) [OF inv, of now] by (auto simp: sm_inv_def)
  have "kids (sm_slots m) j = 0" using nr by (auto simp: kids_def filter_empty_conv in_set_conv_nth)
  then have ch: "se_live_children ?e = 0" using cnt by (simp add: unat_eq_0)
  show ?thesis
  proof (cases "se_state ?e = Empty")
    case True
    then show ?thesis using sw entry_ok_Empty [OF ok(2)] by (auto simp: swept_def kept_def)
  next
    case False
    then have "lease_expired now ?e" using ex j by (auto simp: all_expired_def)
    moreover have "se_state ?e = Paused \<or> se_state ?e = Faulted"
      using False nr [OF j] ok(1) ch by (cases "se_state ?e") (auto simp: entry_ok_def)
    ultimately show ?thesis using sw ch by (auto simp: swept_def)
  qed
qed

text \<open>
  C31. The expiry reaper drains the table: if every lease has expired, three sweeps at
  non-decreasing times return every slot to the free state, whatever was running, faulted, frozen
  or forked. (The first sweep faults the running slots, the second frees the last children and
  thaws their parents, the third frees those.)
\<close>

theorem reclaim_drains_table:
  assumes "sm_reach r9 m" and "all_expired t1 m" and "t1 \<le> t2" and "t2 \<le> t3"
  shows "sm_slots (snd (reclaim_expired t3 (snd (reclaim_expired t2 (snd (reclaim_expired t1 m))))))
     = replicate (slot_count m) entry_empty"
proof -
  let ?m1 = "snd (reclaim_expired t1 m)" let ?m2 = "snd (reclaim_expired t2 ?m1)"
  have i0: "sm_inv r9 m" using assms(1) by (rule sm_reach_inv)
  have i1: "sm_inv r9 ?m1" and l1: "length (sm_slots ?m1) = length (sm_slots m)" using reclaim_sweep(1,2) [OF i0, of t1] by simp_all
  have i2: "sm_inv r9 ?m2" and l2: "length (sm_slots ?m2) = length (sm_slots m)"
    using reclaim_sweep(1,2) [OF i1, of t2] l1 by simp_all
  have e1: "all_expired t2 ?m1" using i0 assms(2,3) by (rule all_expired_sweep)
  have e2: "all_expired t3 ?m2" using i1 e1 assms(4) by (rule all_expired_sweep)
  have r1: "se_state (sm_slots ?m1 ! j) \<noteq> Running" if "j < length (sm_slots m)" for j
    using i0 assms(2) that by (rule sweep_stops_running)
  have "se_state (sm_slots ?m2 ! j) \<noteq> Running \<and> se_parent (sm_slots ?m2 ! j) = None"
    if "j < length (sm_slots ?m2)" for j
    using that sweep_stops_running [OF i1 e1] sweep_frees_children [OF i1 e1] r1 l1 l2 by simp
  then have "sm_slots (snd (reclaim_expired t3 ?m2)) ! j = entry_empty" if "j < length (sm_slots m)" for j
    using sweep_frees_rest [OF i2 e2] that l2 by simp
  moreover have "length (sm_slots (snd (reclaim_expired t3 ?m2))) = length (sm_slots m)"
    using reclaim_sweep(2) [OF i2, of t3] l2 by simp
  ultimately show ?thesis by (auto intro: nth_equalityI simp: slot_count_def)
qed

section \<open>A concrete table\<close>

text \<open>Three slots on cores 2, 3 and 4 with a lease time of 10 ms; slot 0 is forked into 1 and 2, and slot 1 runs.\<close>

definition ex_tokens :: "nat \<Rightarrow> LeaseToken" where
  "ex_tokens k = replicate 16 (of_nat k)"

definition ex_new :: SlotManager where
  "ex_new = \<lparr>sm_slots = replicate 3 entry_empty, sm_cores = [2, 3, 4], sm_policy = with_ttl 10,
     sm_tokens = ex_tokens, sm_minted = 0, sm_events = []\<rparr>"

definition ex_lease :: "nat \<Rightarrow> Lease" where
  "ex_lease k = \<lparr>ls_slot_id = of_nat k, ls_token = ex_tokens k\<rparr>"

definition ex_forked :: SlotManager where
  "ex_forked = snd (mark_running (ex_lease 1) 1 (snd (fork (ex_lease 0) 2 0 (snd (allocate 0 ex_new)))))"

lemma ex_lease_sel: "ls_slot_id (ex_lease k) = of_nat k" "ls_token (ex_lease k) = ex_tokens k"
  by (simp_all add: ex_lease_def)

lemma ex_new_ok: "with_token_source 3 [2, 3, 4] (with_ttl 10) ex_tokens = Ok ex_new"
  by (simp add: with_token_source_def ex_new_def)

lemma ex_forked_reach: "sm_reach r9 ex_forked"
  unfolding ex_forked_def by (intro sm_call [OF _ st_running] sm_call [OF _ st_fork] sm_call [OF _ st_allocate] sm_new [OF ex_new_ok])

text \<open>The entries of the example, in closed form.\<close>

definition ex_entry :: "SlotState \<Rightarrow> nat \<Rightarrow> u32 \<Rightarrow> u64 option \<Rightarrow> SlotEntry" where
  "ex_entry s k n p = \<lparr>se_state = s, se_lease = Some (ex_tokens k, Some 10), se_live_children = n,
     se_parent = p, se_ram_is_cow = (p \<noteq> None), se_icount = 0, se_base_snapshot_id = None\<rparr>"

lemma sat_eval: "saturating_add (0 :: u64) 10 = 10" "saturating_add (0 :: u32) 2 = 2" "word_of_nat_opt 2 = Some (2 :: u32)"
  by (simp_all add: saturating_add_def word_of_nat_opt_def)

lemmas ex_simps = transition_def can_transition_to lease_into_eq set_slot_def ex_entry_def entry_empty_def with_ttl_def
  sat_eval slot_at_def validate_entry_def ex_lease_sel

lemma ex_allocated:
  "sm_slots (snd (allocate 0 ex_new)) = [ex_entry Paused 0 0 None, entry_empty, entry_empty]"
  "sm_minted (snd (allocate 0 ex_new)) = 1" "sm_tokens (snd (allocate 0 ex_new)) = ex_tokens"
  "sm_policy (snd (allocate 0 ex_new)) = with_ttl 10"
  by (simp_all add: allocate_def ex_new_def numeral_3_eq_3 publish_def ex_simps)

lemma ex_fork_children:
  assumes "sm_slots m = [p, entry_empty, entry_empty]" "sm_minted m = 1" "sm_tokens m = ex_tokens"
    "sm_policy m = with_ttl 10"
  shows "\<exists>m' ls ev. fork_children 0 (0, None) 0 [Suc 0, 2] (m, [], []) = Some (m', ls, ev)
     \<and> sm_slots m' = [p, ex_entry Paused 1 0 (Some 0), ex_entry Paused 2 0 (Some 0)]"
  using assms by (simp add: ex_simps) (simp add: numeral_2_eq_2)

lemma ex_fork_slots:
  "sm_slots (snd (fork (ex_lease 0) 2 0 (snd (allocate 0 ex_new))))
     = [ex_entry Frozen 0 2 None, ex_entry Paused 1 0 (Some 0), ex_entry Paused 2 0 (Some 0)]"
proof -
  let ?m = "snd (allocate 0 ex_new)"
  let ?m1 = "?m\<lparr>sm_slots := [ex_entry Frozen 0 0 None, entry_empty, entry_empty]\<rparr>"
  have c: "check_fork_entries (sm_slots ?m) (ex_lease 0) 2 0 = Ok (0, Frozen, [Suc 0, 2])"
    by (simp add: ex_allocated check_fork_entries_def free_slots_def upt_rec ex_simps)
  obtain m' ls ev where f: "fork_children 0 (0, None) 0 [Suc 0, 2] (?m1, [], []) = Some (m', ls, ev)"
     "sm_slots m' = [ex_entry Frozen 0 0 None, ex_entry Paused 1 0 (Some 0), ex_entry Paused 2 0 (Some 0)]"
    using ex_fork_children [of ?m1 "ex_entry Frozen 0 0 None"] ex_allocated by auto
  have "(sm_slots ?m)[0 := (sm_slots ?m ! 0)\<lparr>se_state := Frozen\<rparr>] = [ex_entry Frozen 0 0 None, entry_empty, entry_empty]"
    by (simp add: ex_allocated ex_entry_def)
  moreover have "ls_slot_id (ex_lease 0) = 0" "se_icount (ex_entry Frozen 0 0 None) = 0"
    "se_base_snapshot_id (ex_entry Frozen 0 0 None) = None" "se_live_children (ex_entry Frozen 0 0 None) = 0"
    by (simp_all add: ex_lease_sel ex_entry_def)
  ultimately show ?thesis
    unfolding fork_def c by (simp add: f sat_eval Let_def del: fork_children.simps) (simp add: ex_entry_def)
qed

lemma ex_forked_slots:
  "sm_slots ex_forked = [ex_entry Frozen 0 2 None, ex_entry Running 1 0 (Some 0), ex_entry Paused 2 0 (Some 0)]"
  by (simp add: ex_forked_def mark_running_def commit_def slot_at_def ex_fork_slots validate_entry_def ex_lease_sel
      ex_entry_def ensure_write_path_def transition_def can_transition_to set_slot_def word_le_nat_alt)

theorem slot_fork_accounting_witness:
  "sm_reach True ex_forked \<and> 0 < slot_count ex_forked \<and> se_state (sm_slots ex_forked ! 0) = Frozen
   \<and> card {j. j < slot_count ex_forked \<and> se_parent (sm_slots ex_forked ! j) = Some (of_nat 0)} = 2"
proof -
  have n: "0 < slot_count ex_forked" and st: "se_state (sm_slots ex_forked ! 0) = Frozen"
    and c: "unat (se_live_children (sm_slots ex_forked ! 0)) = 2"
    by (simp_all add: slot_count_def ex_forked_slots ex_entry_def)
  show ?thesis
    using slot_fork_accounting [OF ex_forked_reach n, of True] n st c ex_forked_reach by simp
qed

theorem reclaim_drains_table_witness:
  "all_expired 10 ex_forked \<and>
   sm_slots (snd (reclaim_expired 12 (snd (reclaim_expired 11 (snd (reclaim_expired 10 ex_forked)))))) = replicate 3 entry_empty"
proof -
  have ex: "all_expired 10 ex_forked"
    by (simp add: all_expired_def ex_forked_slots ex_entry_def lease_expired_def)
  have "slot_count ex_forked = 3" by (simp add: slot_count_def ex_forked_slots)
  with reclaim_drains_table [OF ex_forked_reach ex, of 11 12] ex show ?thesis by simp
qed

text \<open>
  Without the callers' restriction the guard does not hold: \<open>mark_paused\<close> accepts a frozen parent
  (\<open>Frozen -> Paused\<close> is an edge of the transition relation) and leaves it writable while its
  children still read its memory.
\<close>

lemma pause_opens_frozen_parent:
  "\<exists>m lease. sm_reach False m \<and> checkout_write lease ''Run'' 2 m = Ok ()
     \<and> (\<exists>j < slot_count m. se_parent (sm_slots m ! j) = Some (ls_slot_id lease) \<and> se_state (sm_slots m ! j) = Running)"
proof -
  let ?m = "snd (mark_paused (ex_lease 0) 2 ex_forked)"
  have r: "sm_reach False ?m" by (rule sm_call [OF ex_forked_reach], rule st_paused) simp
  have s: "sm_slots ?m = [ex_entry Paused 0 2 None, ex_entry Running 1 0 (Some 0), ex_entry Paused 2 0 (Some 0)]"
    by (simp add: mark_paused_def commit_def slot_at_def ex_forked_slots validate_entry_def ex_lease_sel
        ex_entry_def transition_def can_transition_to set_slot_def word_le_nat_alt)
  have "checkout_write (ex_lease 0) ''Run'' 2 ?m = Ok ()"
    by (simp add: checkout_write_def slot_at_def s validate_entry_def ex_lease_sel ex_entry_def ensure_write_path_def word_le_nat_alt)
  moreover have "se_parent (sm_slots ?m ! 1) = Some (ls_slot_id (ex_lease 0)) \<and> se_state (sm_slots ?m ! 1) = Running"
    "1 < slot_count ?m"
    by (simp_all add: s ex_entry_def ex_lease_sel slot_count_def)
  ultimately show ?thesis using r by blast
qed

end
