(* ===== verification/Msr_Policy.thy ===== *)
theory Msr_Policy
  imports Dh_Prelude
begin

text \<open>
  The MSR policy of \<open>crates/dh-vmm/src/msr.rs\<close>: the allowed ranges of the default-deny filter and
  the deterministic answer to every denied access. The filter ioctl itself is KVM's.
\<close>

abbreviation MSR_SPEC_CTRL :: u32 where "MSR_SPEC_CTRL \<equiv> 0x48"
abbreviation MSR_IA32_TSC :: u32 where "MSR_IA32_TSC \<equiv> 0x10"
abbreviation MSR_IA32_PLATFORM_ID :: u32 where "MSR_IA32_PLATFORM_ID \<equiv> 0x17"
abbreviation MSR_SMI_COUNT :: u32 where "MSR_SMI_COUNT \<equiv> 0x34"
abbreviation MSR_IA32_FEATURE_CONTROL :: u32 where "MSR_IA32_FEATURE_CONTROL \<equiv> 0x3A"
abbreviation MSR_IA32_APIC_BASE :: u32 where "MSR_IA32_APIC_BASE \<equiv> 0x1B"
abbreviation MSR_IA32_BIOS_SIGN_ID :: u32 where "MSR_IA32_BIOS_SIGN_ID \<equiv> 0x8B"
abbreviation MSR_IA32_PLATFORM_INFO :: u32 where "MSR_IA32_PLATFORM_INFO \<equiv> 0xCE"
abbreviation MSR_IA32_ARCH_CAPABILITIES :: u32 where "MSR_IA32_ARCH_CAPABILITIES \<equiv> 0x10A"
abbreviation MSR_IA32_MISC_FEATURES_ENABLES :: u32 where "MSR_IA32_MISC_FEATURES_ENABLES \<equiv> 0x140"
abbreviation MSR_SYSENTER_CS :: u32 where "MSR_SYSENTER_CS \<equiv> 0x174"
abbreviation MSR_PAT :: u32 where "MSR_PAT \<equiv> 0x277"
abbreviation MSR_IA32_MISC_ENABLE :: u32 where "MSR_IA32_MISC_ENABLE \<equiv> 0x1A0"
abbreviation MSR_PPERF :: u32 where "MSR_PPERF \<equiv> 0x64E"
abbreviation MSR_X2APIC_BASE :: u32 where "MSR_X2APIC_BASE \<equiv> 0x800"
abbreviation MSR_X2APIC_END :: u32 where "MSR_X2APIC_END \<equiv> 0x8FF"
abbreviation MSR_EFER :: u32 where "MSR_EFER \<equiv> 0xC0000080"
abbreviation MSR_FS_BASE :: u32 where "MSR_FS_BASE \<equiv> 0xC0000100"

definition ALLOW_RANGES :: "(u32 \<times> u32) list" where
  "ALLOW_RANGES = [(MSR_SPEC_CTRL, 1), (MSR_SYSENTER_CS, 3), (MSR_PAT, 1), (MSR_EFER, 5), (MSR_FS_BASE, 4)]"

datatype MsrAction = SupplyValue u64 | AckWrite | InjectGp

datatype DeniedMsrClass = LinuxCpuCompat | LapicRequired | Unclassified

definition is_lapic_msr :: "u32 \<Rightarrow> bool" where
  "is_lapic_msr index \<longleftrightarrow> index = MSR_IA32_APIC_BASE \<or> MSR_X2APIC_BASE \<le> index \<and> index \<le> MSR_X2APIC_END"

definition denied_msr_class :: "u32 \<Rightarrow> bool \<Rightarrow> DeniedMsrClass" where
  "denied_msr_class index write =
     (if is_lapic_msr index then LapicRequired
      else if (index, write) \<in> set [(MSR_IA32_PLATFORM_ID, False), (MSR_SMI_COUNT, False),
          (MSR_IA32_FEATURE_CONTROL, False), (MSR_IA32_FEATURE_CONTROL, True),
          (MSR_IA32_BIOS_SIGN_ID, False), (MSR_IA32_BIOS_SIGN_ID, True),
          (MSR_IA32_PLATFORM_INFO, False), (MSR_IA32_ARCH_CAPABILITIES, False),
          (MSR_IA32_MISC_FEATURES_ENABLES, False), (MSR_IA32_MISC_FEATURES_ENABLES, True),
          (MSR_IA32_MISC_ENABLE, False), (MSR_PPERF, False)]
        then LinuxCpuCompat
      else Unclassified)"

definition on_denied_rdmsr :: "u32 \<Rightarrow> MsrAction" where
  "on_denied_rdmsr index = SupplyValue 0"

definition on_denied_wrmsr :: "u32 \<Rightarrow> MsrAction" where
  "on_denied_wrmsr index = (if index = MSR_IA32_BIOS_SIGN_ID then AckWrite else InjectGp)"

text \<open>
  The ranges \<open>apply_default_deny_filter\<close> hands to the kernel, each with an all-ones bitmap, and
  what the default-deny filter lets through: an index inside one of them whose bit is set.
\<close>

definition default_deny_ranges :: "(u32 \<times> u32 \<times> byte list) list" where
  "default_deny_ranges =
     map (\<lambda>(base, count). (base, count, replicate ((unat count + 7) div 8) 0xFF)) ALLOW_RANGES"

definition msr_allowed :: "u32 \<Rightarrow> bool" where
  "msr_allowed index \<longleftrightarrow> list_ex (\<lambda>(base, nmsrs, bitmap). base \<le> index \<and> unat index < unat base + unat nmsrs
     \<and> bit (bitmap ! ((unat index - unat base) div 8)) ((unat index - unat base) mod 8)) default_deny_ranges"

text \<open>Every index of a range has its bit: the bitmaps are long enough and all ones.\<close>

lemma bitmap_full: "n < c \<Longrightarrow> bit (replicate ((c + 7) div 8) (0xFF :: byte) ! (n div 8)) (n mod 8)"
proof -
  assume n: "n < c"
  then have "n div 8 < (c + 7) div 8" by linarith
  moreover have "(0xFF :: byte) = - 1" by simp
  ultimately show ?thesis by (simp only: nth_replicate) simp
qed

lemma msr_allowed_ranges:
  "msr_allowed index \<longleftrightarrow> (\<exists>(base, count)\<in>set ALLOW_RANGES. base \<le> index \<and> unat index < unat base + unat count)"
proof -
  have full: "bit (replicate ((unat count + 7) div 8) (0xFF :: byte) ! ((unat index - unat base) div 8)) ((unat index - unat base) mod 8)"
    if "base \<le> index" "unat index < unat base + unat count" for base count :: u32
    using that by (intro bitmap_full) (auto simp: word_le_nat_alt)
  show ?thesis
    unfolding msr_allowed_def default_deny_ranges_def list_ex_iff set_map bex_simps
    by (intro bex_cong refl) (use full in \<open>simp only: split_beta fst_conv snd_conv, blast\<close>)
qed

text \<open>The host time-stamp counter and the local APIC are never passed through.\<close>

lemma host_clock_denied: "\<not> msr_allowed MSR_IA32_TSC" "is_lapic_msr i \<Longrightarrow> \<not> msr_allowed i"
  by (auto simp: msr_allowed_ranges ALLOW_RANGES_def is_lapic_msr_def word_le_nat_alt)

end
