(* ===== verification/Lapic.thy ===== *)
theory Lapic
  imports Snap_Sections Msr_Policy
begin

text \<open>
  The local APIC model of \<open>crates/dh-vmm/src/lapic.rs\<close>: its registers, the MMIO and MSR surface,
  interrupt acceptance, delivery and end-of-interrupt, and the crossing to the \<open>LAPC\<close> snapshot
  section. The register arrays \<open>[u32; 8]\<close> are lists whose length is part of the invariant.
\<close>

section \<open>Constants and state\<close>

abbreviation XAPIC_MMIO_BASE :: u64 where "XAPIC_MMIO_BASE \<equiv> 0xfee00000"
abbreviation XAPIC_MMIO_LEN :: u64 where "XAPIC_MMIO_LEN \<equiv> 0x1000"
abbreviation APIC_BASE_BSP :: u64 where "APIC_BASE_BSP \<equiv> 0x100"
abbreviation APIC_BASE_X2APIC :: u64 where "APIC_BASE_X2APIC \<equiv> 0x400"
abbreviation APIC_BASE_ENABLE :: u64 where "APIC_BASE_ENABLE \<equiv> 0x800"
abbreviation APIC_BASE_ADDR_MASK :: u64 where "APIC_BASE_ADDR_MASK \<equiv> 0x000ffffffffff000"
abbreviation RESET_APIC_BASE_MSR :: u64 where
  "RESET_APIC_BASE_MSR \<equiv> XAPIC_MMIO_BASE OR APIC_BASE_BSP OR APIC_BASE_ENABLE"

abbreviation REG_ID :: u64 where "REG_ID \<equiv> 0x020"
abbreviation REG_VERSION :: u64 where "REG_VERSION \<equiv> 0x030"
abbreviation REG_TPR :: u64 where "REG_TPR \<equiv> 0x080"
abbreviation REG_APR :: u64 where "REG_APR \<equiv> 0x090"
abbreviation REG_PPR :: u64 where "REG_PPR \<equiv> 0x0a0"
abbreviation REG_EOI :: u64 where "REG_EOI \<equiv> 0x0b0"
abbreviation REG_LDR :: u64 where "REG_LDR \<equiv> 0x0d0"
abbreviation REG_DFR :: u64 where "REG_DFR \<equiv> 0x0e0"
abbreviation REG_SVR :: u64 where "REG_SVR \<equiv> 0x0f0"
abbreviation REG_ISR_BASE :: u64 where "REG_ISR_BASE \<equiv> 0x100"
abbreviation REG_ISR_END :: u64 where "REG_ISR_END \<equiv> 0x170"
abbreviation REG_TMR_BASE :: u64 where "REG_TMR_BASE \<equiv> 0x180"
abbreviation REG_TMR_END :: u64 where "REG_TMR_END \<equiv> 0x1f0"
abbreviation REG_IRR_BASE :: u64 where "REG_IRR_BASE \<equiv> 0x200"
abbreviation REG_IRR_END :: u64 where "REG_IRR_END \<equiv> 0x270"
abbreviation REG_ESR :: u64 where "REG_ESR \<equiv> 0x280"
abbreviation REG_ICR_LOW :: u64 where "REG_ICR_LOW \<equiv> 0x300"
abbreviation REG_ICR_HIGH :: u64 where "REG_ICR_HIGH \<equiv> 0x310"
abbreviation REG_LVT_TIMER :: u64 where "REG_LVT_TIMER \<equiv> 0x320"
abbreviation REG_LVT_THERMAL :: u64 where "REG_LVT_THERMAL \<equiv> 0x330"
abbreviation REG_LVT_PERF :: u64 where "REG_LVT_PERF \<equiv> 0x340"
abbreviation REG_LVT_LINT0 :: u64 where "REG_LVT_LINT0 \<equiv> 0x350"
abbreviation REG_LVT_LINT1 :: u64 where "REG_LVT_LINT1 \<equiv> 0x360"
abbreviation REG_LVT_ERROR :: u64 where "REG_LVT_ERROR \<equiv> 0x370"
abbreviation REG_TIMER_INITIAL :: u64 where "REG_TIMER_INITIAL \<equiv> 0x380"
abbreviation REG_TIMER_CURRENT :: u64 where "REG_TIMER_CURRENT \<equiv> 0x390"
abbreviation REG_TIMER_DIVIDE :: u64 where "REG_TIMER_DIVIDE \<equiv> 0x3e0"

abbreviation APIC_VERSION :: u32 where "APIC_VERSION \<equiv> push_bit 16 5 OR 0x14"
abbreviation SVR_SOFTWARE_ENABLE :: u32 where "SVR_SOFTWARE_ENABLE \<equiv> 0x100"
abbreviation LVT_MASKED :: u32 where "LVT_MASKED \<equiv> 0x10000"

record LocalApic =
  la_apic_base_msr :: u64
  la_id :: u8
  la_tpr :: u8
  la_ldr :: u32
  la_dfr :: u32
  la_svr :: u32
  la_isr :: "u32 list"
  la_tmr :: "u32 list"
  la_irr :: "u32 list"
  la_esr :: u32
  la_icr_low :: u32
  la_icr_high :: u32
  la_lvt_timer :: u32
  la_lvt_thermal :: u32
  la_lvt_perf :: u32
  la_lvt_lint0 :: u32
  la_lvt_lint1 :: u32
  la_lvt_error :: u32
  la_timer_initial :: u32
  la_timer_divide :: u32

definition lapic_new :: LocalApic where
  "lapic_new = \<lparr>la_apic_base_msr = RESET_APIC_BASE_MSR, la_id = 0, la_tpr = 0, la_ldr = 0,
     la_dfr = 0xffffffff, la_svr = 0xff, la_isr = replicate 8 0, la_tmr = replicate 8 0,
     la_irr = replicate 8 0, la_esr = 0, la_icr_low = 0, la_icr_high = 0, la_lvt_timer = LVT_MASKED,
     la_lvt_thermal = LVT_MASKED, la_lvt_perf = LVT_MASKED, la_lvt_lint0 = LVT_MASKED,
     la_lvt_lint1 = LVT_MASKED, la_lvt_error = LVT_MASKED, la_timer_initial = 0, la_timer_divide = 0\<rparr>"

datatype LapicError =
    LaBadAccess u64 nat
  | X2ApicUnsupported
  | UnsupportedApicBase u64
  | UnsupportedTimer u64 u32
  | UnsupportedIcr u64 u32
  | MalformedSnapshot string
  | InterruptsDisabled
  | BadVector u8

section \<open>Vector bitmaps\<close>

definition vector_word :: "u8 \<Rightarrow> nat \<times> u32" where
  "vector_word vector = (unat (vector div 32), push_bit (unat (vector mod 32)) 1)"

definition set_vector :: "u32 list \<Rightarrow> u8 \<Rightarrow> u32 list" where
  "set_vector words vector = (case vector_word vector of (i, m) \<Rightarrow> words[i := words ! i OR m])"

definition clear_vector :: "u32 list \<Rightarrow> u8 \<Rightarrow> u32 list" where
  "clear_vector words vector = (case vector_word vector of (i, m) \<Rightarrow> words[i := words ! i AND NOT m])"

definition vector_is_set :: "u32 list \<Rightarrow> u8 \<Rightarrow> bool" where
  "vector_is_set words vector = (case vector_word vector of (i, m) \<Rightarrow> words ! i AND m \<noteq> 0)"

section \<open>The MSR and MMIO surface\<close>

definition lapic_is_lapic_msr :: "u32 \<Rightarrow> bool" where
  "lapic_is_lapic_msr index \<longleftrightarrow>
     index = MSR_IA32_APIC_BASE \<or> MSR_X2APIC_BASE \<le> index \<and> index \<le> MSR_X2APIC_END"

definition contains_mmio :: "u64 \<Rightarrow> bool" where
  "contains_mmio gpa \<longleftrightarrow> XAPIC_MMIO_BASE \<le> gpa \<and> gpa < XAPIC_MMIO_BASE + XAPIC_MMIO_LEN"

definition lapic_read_msr :: "u32 \<Rightarrow> LocalApic \<Rightarrow> (u64, LapicError) res" where
  "lapic_read_msr index l =
     (if index = MSR_IA32_APIC_BASE then Ok (la_apic_base_msr l)
      else if MSR_X2APIC_BASE \<le> index \<and> index \<le> MSR_X2APIC_END then Err X2ApicUnsupported
      else Err (LaBadAccess (ucast index) 8))"

definition write_apic_base_msr :: "u64 \<Rightarrow> LocalApic \<Rightarrow> (unit, LapicError) res \<times> LocalApic" where
  "write_apic_base_msr value l =
     (if value AND APIC_BASE_X2APIC \<noteq> 0 then (Err X2ApicUnsupported, l)
      else let base = value AND APIC_BASE_ADDR_MASK in
        if base \<noteq> XAPIC_MMIO_BASE then (Err (UnsupportedApicBase value), l)
        else (Ok (), l\<lparr>la_apic_base_msr := base OR APIC_BASE_BSP OR (value AND APIC_BASE_ENABLE)\<rparr>))"

definition lapic_write_msr :: "u32 \<Rightarrow> u64 \<Rightarrow> LocalApic \<Rightarrow> (unit, LapicError) res \<times> LocalApic" where
  "lapic_write_msr index value l =
     (if index = MSR_IA32_APIC_BASE then write_apic_base_msr value l
      else if MSR_X2APIC_BASE \<le> index \<and> index \<le> MSR_X2APIC_END then (Err X2ApicUnsupported, l)
      else (Err (LaBadAccess (ucast index) 8), l))"

definition checked_mmio_offset :: "u64 \<Rightarrow> nat \<Rightarrow> (u64, LapicError) res" where
  "checked_mmio_offset gpa len =
     (if \<not> (len = 4 \<or> len = 8) \<or> \<not> contains_mmio gpa
      then Err (LaBadAccess (if gpa < XAPIC_MMIO_BASE then 0 else gpa - XAPIC_MMIO_BASE) len)
      else let off = gpa - XAPIC_MMIO_BASE in
        if off mod of_nat len \<noteq> 0 \<or> off + of_nat len > XAPIC_MMIO_LEN then Err (LaBadAccess off len)
        else Ok off)"

definition read_le32 :: "byte list \<Rightarrow> (u32, LapicError) res" where
  "read_le32 data = rd_u32 data 0"

text \<open>\<open>write_le\<close> into a buffer of \<open>n\<close> bytes; fewer than four bytes is the slice panic.\<close>

definition write_le :: "nat \<Rightarrow> u32 \<Rightarrow> (byte list, LapicError) res" where
  "write_le n value = (if n < 4 then Panic else Ok (overwrite (zeros n) 0 (to_le value)))"

definition read_reg32 :: "LocalApic \<Rightarrow> u64 \<Rightarrow> u32" where
  "read_reg32 l off =
     (if off = REG_ID then push_bit 24 (ucast (la_id l))
      else if off = REG_VERSION then APIC_VERSION
      else if off = REG_TPR then ucast (la_tpr l)
      else if off = REG_APR \<or> off = REG_PPR then 0
      else if off = REG_LDR then la_ldr l
      else if off = REG_DFR then la_dfr l
      else if off = REG_SVR then la_svr l
      else if REG_ISR_BASE \<le> off \<and> off \<le> REG_ISR_END then la_isr l ! unat ((off - REG_ISR_BASE) div 0x10)
      else if REG_TMR_BASE \<le> off \<and> off \<le> REG_TMR_END then la_tmr l ! unat ((off - REG_TMR_BASE) div 0x10)
      else if REG_IRR_BASE \<le> off \<and> off \<le> REG_IRR_END then la_irr l ! unat ((off - REG_IRR_BASE) div 0x10)
      else if off = REG_ESR then la_esr l
      else if off = REG_ICR_LOW then la_icr_low l
      else if off = REG_ICR_HIGH then la_icr_high l
      else if off = REG_LVT_TIMER then la_lvt_timer l
      else if off = REG_LVT_THERMAL then la_lvt_thermal l
      else if off = REG_LVT_PERF then la_lvt_perf l
      else if off = REG_LVT_LINT0 then la_lvt_lint0 l
      else if off = REG_LVT_LINT1 then la_lvt_lint1 l
      else if off = REG_LVT_ERROR then la_lvt_error l
      else if off = REG_TIMER_INITIAL \<or> off = REG_TIMER_CURRENT then 0
      else if off = REG_TIMER_DIVIDE then la_timer_divide l
      else 0)"

definition lapic_read_mmio :: "u64 \<Rightarrow> nat \<Rightarrow> LocalApic \<Rightarrow> (byte list, LapicError) res" where
  "lapic_read_mmio gpa n l =
     res_bind (checked_mmio_offset gpa n) (\<lambda>off.
       write_le n (if off mod 0x10 = 0 then read_reg32 l off else 0))"

text \<open>The vectors 255 down to 32, in the order the delivery and end-of-interrupt loops visit them.\<close>

definition vectors_desc :: "u8 list" where
  "vectors_desc = map of_nat (rev [32..<256])"

fun eoi_loop :: "u8 list \<Rightarrow> LocalApic \<Rightarrow> LocalApic" where
  "eoi_loop [] l = l"
| "eoi_loop (v # vs) l =
     (if vector_is_set (la_isr l) v then l\<lparr>la_isr := clear_vector (la_isr l) v\<rparr> else eoi_loop vs l)"

definition eoi :: "LocalApic \<Rightarrow> LocalApic" where
  "eoi l = eoi_loop vectors_desc l"

definition write_reg32 :: "u64 \<Rightarrow> u32 \<Rightarrow> LocalApic \<Rightarrow> (unit, LapicError) res \<times> LocalApic" where
  "write_reg32 off value l =
     (if off = REG_ID \<or> off = REG_VERSION \<or> off = REG_APR \<or> off = REG_PPR \<or> off = REG_TIMER_CURRENT then (Ok (), l)
      else if off = REG_TPR then (Ok (), l\<lparr>la_tpr := ucast (value AND 0xff)\<rparr>)
      else if off = REG_EOI then (Ok (), eoi l)
      else if off = REG_LDR then (Ok (), l\<lparr>la_ldr := value\<rparr>)
      else if off = REG_DFR then (Ok (), l\<lparr>la_dfr := value\<rparr>)
      else if off = REG_SVR then (Ok (), l\<lparr>la_svr := value\<rparr>)
      else if off = REG_ESR then (Ok (), l\<lparr>la_esr := 0\<rparr>)
      else if off = REG_ICR_LOW \<or> off = REG_ICR_HIGH then
        (if value \<noteq> 0 then (Err (UnsupportedIcr off value), l)
         else if off = REG_ICR_LOW then (Ok (), l\<lparr>la_icr_low := 0\<rparr>)
         else (Ok (), l\<lparr>la_icr_high := 0\<rparr>))
      else if off = REG_LVT_TIMER then (Ok (), l\<lparr>la_lvt_timer := value OR LVT_MASKED\<rparr>)
      else if off = REG_LVT_THERMAL then (Ok (), l\<lparr>la_lvt_thermal := value\<rparr>)
      else if off = REG_LVT_PERF then (Ok (), l\<lparr>la_lvt_perf := value\<rparr>)
      else if off = REG_LVT_LINT0 then (Ok (), l\<lparr>la_lvt_lint0 := value\<rparr>)
      else if off = REG_LVT_LINT1 then (Ok (), l\<lparr>la_lvt_lint1 := value\<rparr>)
      else if off = REG_LVT_ERROR then (Ok (), l\<lparr>la_lvt_error := value\<rparr>)
      else if off = REG_TIMER_INITIAL then (Ok (), l\<lparr>la_timer_initial := 0\<rparr>)
      else if off = REG_TIMER_DIVIDE then (Ok (), l\<lparr>la_timer_divide := value\<rparr>)
      else (Ok (), l))"

definition lapic_write_mmio :: "u64 \<Rightarrow> byte list \<Rightarrow> LocalApic \<Rightarrow> (unit, LapicError) res \<times> LocalApic" where
  "lapic_write_mmio gpa data l = (case checked_mmio_offset gpa (length data) of
     Err e \<Rightarrow> (Err e, l)
   | Panic \<Rightarrow> (Panic, l)
   | Ok off \<Rightarrow>
       if off mod 0x10 \<noteq> 0 then (Ok (), l)
       else (case read_le32 data of
               Ok value \<Rightarrow> write_reg32 off value l
             | Err e \<Rightarrow> (Err e, l)
             | Panic \<Rightarrow> (Panic, l)))"

section \<open>Interrupts\<close>

definition accept_interrupt :: "u8 \<Rightarrow> LocalApic \<Rightarrow> (unit, LapicError) res \<times> LocalApic" where
  "accept_interrupt vector l =
     (if vector < 32 then (Err (BadVector vector), l)
      else if la_apic_base_msr l AND APIC_BASE_ENABLE = 0 \<or> la_svr l AND SVR_SOFTWARE_ENABLE = 0
        then (Err InterruptsDisabled, l)
      else (Ok (), l\<lparr>la_irr := set_vector (la_irr l) vector\<rparr>))"

definition is_reset :: "LocalApic \<Rightarrow> bool" where
  "is_reset l \<longleftrightarrow> l = lapic_new"

fun pending_loop :: "u8 \<Rightarrow> u8 list \<Rightarrow> LocalApic \<Rightarrow> u8 option \<times> LocalApic" where
  "pending_loop min_priority [] l = (None, l)"
| "pending_loop min_priority (v # vs) l =
     (if v AND 0xf0 \<le> min_priority then pending_loop min_priority vs l
      else if vector_is_set (la_irr l) v
        then (Some v, l\<lparr>la_irr := clear_vector (la_irr l) v, la_isr := set_vector (la_isr l) v\<rparr>)
      else pending_loop min_priority vs l)"

definition next_pending_interrupt :: "LocalApic \<Rightarrow> u8 option \<times> LocalApic" where
  "next_pending_interrupt l = pending_loop (la_tpr l AND 0xf0) vectors_desc l"

section \<open>The snapshot section\<close>

definition to_lapc_section :: "LocalApic \<Rightarrow> LapcSection" where
  "to_lapc_section l = \<lparr>lp_apic_base_msr = la_apic_base_msr l, lp_id = la_id l, lp_tpr = la_tpr l,
     lp_ldr = la_ldr l, lp_dfr = la_dfr l, lp_svr = la_svr l, lp_isr = la_isr l, lp_tmr = la_tmr l,
     lp_irr = la_irr l, lp_esr = la_esr l, lp_icr_low = la_icr_low l, lp_icr_high = la_icr_high l,
     lp_lvt_timer = la_lvt_timer l, lp_lvt_thermal = la_lvt_thermal l, lp_lvt_perf = la_lvt_perf l,
     lp_lvt_lint0 = la_lvt_lint0 l, lp_lvt_lint1 = la_lvt_lint1 l, lp_lvt_error = la_lvt_error l,
     lp_timer_initial = la_timer_initial l, lp_timer_divide = la_timer_divide l\<rparr>"

definition from_lapc_section :: "LapcSection \<Rightarrow> (LocalApic, LapicError) res" where
  "from_lapc_section s =
     (let apic_base = lp_apic_base_msr s in
      if apic_base AND APIC_BASE_X2APIC \<noteq> 0 then Err (MalformedSnapshot ''x2APIC mode is not persisted'')
      else if apic_base AND APIC_BASE_ADDR_MASK \<noteq> XAPIC_MMIO_BASE
        then Err (MalformedSnapshot ''APIC base address is not xAPIC'')
      else if apic_base AND NOT (APIC_BASE_ADDR_MASK OR APIC_BASE_BSP OR APIC_BASE_ENABLE) \<noteq> 0
        then Err (MalformedSnapshot ''APIC base has unsupported bits'')
      else if apic_base AND APIC_BASE_BSP = 0 then Err (MalformedSnapshot ''BSP bit must remain set'')
      else if lp_lvt_timer s AND LVT_MASKED = 0 then Err (MalformedSnapshot ''unmasked lAPIC timer'')
      else if lp_timer_initial s \<noteq> 0 then Err (MalformedSnapshot ''armed lAPIC timer'')
      else if lp_icr_low s \<noteq> 0 \<or> lp_icr_high s \<noteq> 0 then Err (MalformedSnapshot ''pending ICR delivery'')
      else Ok \<lparr>la_apic_base_msr = lp_apic_base_msr s, la_id = lp_id s, la_tpr = lp_tpr s,
         la_ldr = lp_ldr s, la_dfr = lp_dfr s, la_svr = lp_svr s, la_isr = lp_isr s, la_tmr = lp_tmr s,
         la_irr = lp_irr s, la_esr = lp_esr s, la_icr_low = lp_icr_low s, la_icr_high = lp_icr_high s,
         la_lvt_timer = lp_lvt_timer s, la_lvt_thermal = lp_lvt_thermal s, la_lvt_perf = lp_lvt_perf s,
         la_lvt_lint0 = lp_lvt_lint0 s, la_lvt_lint1 = lp_lvt_lint1 s, la_lvt_error = lp_lvt_error s,
         la_timer_initial = lp_timer_initial s, la_timer_divide = lp_timer_divide s\<rparr>)"

section \<open>The laws of a vector bitmap\<close>

text \<open>
  What delivery and end-of-interrupt rely on: a bitmap stores a set of vectors.
\<close>

locale vector_store =
  fixes ok :: "'w \<Rightarrow> bool" and ins del :: "'w \<Rightarrow> u8 \<Rightarrow> 'w" and mem :: "'w \<Rightarrow> u8 \<Rightarrow> bool"
  assumes ok_ins: "ok w \<Longrightarrow> ok (ins w v)" and ok_del: "ok w \<Longrightarrow> ok (del w v)"
    and mem_ins: "ok w \<Longrightarrow> mem (ins w v) u \<longleftrightarrow> u = v \<or> mem w u"
    and mem_del: "ok w \<Longrightarrow> mem (del w v) u \<longleftrightarrow> u \<noteq> v \<and> mem w u"
begin

definition members :: "'w \<Rightarrow> u8 set" where
  "members w = {v. mem w v}"

lemma members_ins: "ok w \<Longrightarrow> members (ins w v) = insert v (members w)"
  by (auto simp: members_def mem_ins)

lemma members_del: "ok w \<Longrightarrow> members (del w v) = members w - {v}"
  by (auto simp: members_def mem_del)

text \<open>Moving a vector from one bitmap to another loses and duplicates none.\<close>

lemma move_members:
  "ok w \<Longrightarrow> ok x \<Longrightarrow> mem w v \<Longrightarrow> members (del w v) \<union> members (ins x v) = members w \<union> members x"
  by (auto simp: members_def mem_ins mem_del)

end

lemma vec_index: "unat (v div 32 :: u8) < 8" "unat (v mod 32 :: u8) < 32"
proof -
  have "unat v < 256" using unsigned_less [of v] by simp
  then show "unat (v div 32) < 8" "unat (v mod 32) < 32" by (simp_all add: unat_div unat_mod)
qed

lemma vec_index_eq:
  assumes "unat (u div 32 :: u8) = unat (v div 32)" "unat (u mod 32) = unat (v mod 32)"
  shows "u = v"
proof -
  have "unat u div 32 = unat v div 32" "unat u mod 32 = unat v mod 32"
    using assms by (simp_all add: unat_div unat_mod)
  then have "unat u = unat v" by (metis div_mult_mod_eq)
  then show ?thesis by (simp add: word_unat_eq_iff)
qed

lemma and_exp: "w AND 2 ^ n = (if bit w n then 2 ^ n else 0)" for w :: "'a::len word"
  by (rule bit_word_eqI) (auto simp: bit_and_iff bit_exp_iff)

lemma and_exp_bit: "(w AND 2 ^ n \<noteq> 0) = bit w n" if "n < LENGTH('a)" for w :: "'a::len word"
  using that by (simp add: and_exp)

lemma vector_is_set_bit: "vector_is_set ws v = bit (ws ! unat (v div 32)) (unat (v mod 32))"
  using vec_index(2) [of v] by (simp add: vector_is_set_def vector_word_def and_exp_bit)

interpretation vec: vector_store "\<lambda>ws. length ws = 8" set_vector clear_vector vector_is_set
proof unfold_locales
  fix ws :: "u32 list" and u v :: u8
  assume l: "length ws = 8"
  show "length (set_vector ws v) = 8" "length (clear_vector ws v) = 8"
    using l by (simp_all add: set_vector_def clear_vector_def vector_word_def)
  have b: "bit (2 ^ unat (v mod 32) :: u32) (unat (u mod 32)) \<longleftrightarrow> unat (u mod 32) = unat (v mod 32)"
    using vec_index(2) [of u] vec_index(2) [of v] by (auto simp: bit_exp_iff)
  have nb: "bit (NOT (2 ^ unat (v mod 32)) :: u32) (unat (u mod 32)) \<longleftrightarrow> unat (u mod 32) \<noteq> unat (v mod 32)"
    using b vec_index(2) [of u] by (simp add: bit_not_iff)
  show "vector_is_set (set_vector ws v) u \<longleftrightarrow> u = v \<or> vector_is_set ws u"
    using l vec_index(1) [of v] vec_index_eq [of u v]
    by (auto simp: vector_is_set_bit set_vector_def vector_word_def nth_list_update bit_or_iff b)
  show "vector_is_set (clear_vector ws v) u \<longleftrightarrow> u \<noteq> v \<and> vector_is_set ws u"
    using l vec_index(1) [of v] vec_index_eq [of u v]
    by (auto simp: vector_is_set_bit clear_vector_def vector_word_def nth_list_update bit_and_iff nb)
qed

section \<open>Delivery order\<close>

lemma words_desc:
  assumes "b \<le> 2 ^ LENGTH('a::len)"
  shows "set (map of_nat (rev [a..<b])) = {v :: 'a word. a \<le> unat v \<and> unat v < b}"
    "sorted_wrt (>) (map (of_nat :: nat \<Rightarrow> 'a word) (rev [a..<b]))"
proof -
  have u: "unat (of_nat x :: 'a word) = x" if "x < b" for x
    using that assms by (intro unat_of_nat_fits) simp
  show "set (map of_nat (rev [a..<b])) = {v :: 'a word. a \<le> unat v \<and> unat v < b}"
    using u by (auto intro!: image_eqI [of _ _ "unat v" for v])
  have "sorted_wrt (\<lambda>x y. (of_nat x :: 'a word) < of_nat y) [a..<b]"
    by (rule sorted_wrt_mono_rel [OF _ sorted_wrt_upt]) (auto simp: word_less_nat_alt u)
  then show "sorted_wrt (>) (map (of_nat :: nat \<Rightarrow> 'a word) (rev [a..<b]))"
    by (simp add: sorted_wrt_map sorted_wrt_rev)
qed

lemma set_vectors_desc: "set vectors_desc = {v. 32 \<le> v}"
  and vectors_desc_sorted: "sorted_wrt (>) vectors_desc"
proof -
  have b: "unat v < 256" for v :: u8 using unsigned_less [of v] by simp
  have "set vectors_desc = {v. 32 \<le> unat v \<and> unat v < 256}"
    unfolding vectors_desc_def by (rule words_desc) simp
  then show "set vectors_desc = {v. 32 \<le> v}"
    using b by (auto simp: word_le_nat_alt)
  show "sorted_wrt (>) vectors_desc"
    unfolding vectors_desc_def by (rule words_desc) simp
qed

text \<open>The first hit of a scan in descending order is the greatest.\<close>

lemma find_desc:
  "sorted_wrt (>) xs \<Longrightarrow> find P xs = Some v \<longleftrightarrow> v \<in> set xs \<and> P v \<and> (\<forall>w\<in>set xs. P w \<longrightarrow> w \<le> v)"
  for xs :: "'a::linorder list"
  by (induction xs) (auto split: if_splits)

lemma pending_loop_find:
  "pending_loop m vs l = (case find (\<lambda>v. \<not> v AND 0xf0 \<le> m \<and> vector_is_set (la_irr l) v) vs of
     Some v \<Rightarrow> (Some v, l\<lparr>la_irr := clear_vector (la_irr l) v, la_isr := set_vector (la_isr l) v\<rparr>)
   | None \<Rightarrow> (None, l))"
  by (induction m vs l rule: pending_loop.induct) auto

lemma eoi_loop_find:
  "eoi_loop vs l = (case find (vector_is_set (la_isr l)) vs of
     Some v \<Rightarrow> l\<lparr>la_isr := clear_vector (la_isr l) v\<rparr> | None \<Rightarrow> l)"
  by (induction vs l rule: eoi_loop.induct) auto

text \<open>The external vectors that are requested and above the task priority class.\<close>

definition deliverable :: "LocalApic \<Rightarrow> u8 set" where
  "deliverable l = {v. 32 \<le> v \<and> la_tpr l AND 0xf0 < v AND 0xf0 \<and> vector_is_set (la_irr l) v}"

definition in_service :: "LocalApic \<Rightarrow> u8 set" where
  "in_service l = {v. 32 \<le> v \<and> vector_is_set (la_isr l) v}"

lemma next_pending_cases:
  "next_pending_interrupt l = (if deliverable l = {} then (None, l)
     else let v = Max (deliverable l) in
       (Some v, l\<lparr>la_irr := clear_vector (la_irr l) v, la_isr := set_vector (la_isr l) v\<rparr>))"
proof -
  let ?P = "\<lambda>v. \<not> v AND 0xf0 \<le> la_tpr l AND 0xf0 \<and> vector_is_set (la_irr l) v"
  have d: "deliverable l = {v \<in> set vectors_desc. ?P v}"
    by (auto simp: deliverable_def set_vectors_desc)
  show ?thesis
  proof (cases "deliverable l = {}")
    case True
    then have "find ?P vectors_desc = None" unfolding d by (auto simp: find_None_iff)
    with True show ?thesis by (simp add: next_pending_interrupt_def pending_loop_find)
  next
    case False
    have "Max (deliverable l) \<in> deliverable l" "\<And>w. w \<in> deliverable l \<Longrightarrow> w \<le> Max (deliverable l)"
      using False by simp_all
    then have "find ?P vectors_desc = Some (Max (deliverable l))"
      unfolding find_desc [OF vectors_desc_sorted] d by auto
    with False show ?thesis by (simp add: next_pending_interrupt_def pending_loop_find Let_def)
  qed
qed

lemma eoi_cases:
  "eoi l = (if in_service l = {} then l else l\<lparr>la_isr := clear_vector (la_isr l) (Max (in_service l))\<rparr>)"
proof -
  have d: "in_service l = {v \<in> set vectors_desc. vector_is_set (la_isr l) v}"
    by (auto simp: in_service_def set_vectors_desc)
  show ?thesis
  proof (cases "in_service l = {}")
    case True
    then have "find (vector_is_set (la_isr l)) vectors_desc = None" unfolding d by (auto simp: find_None_iff)
    with True show ?thesis by (simp add: eoi_def eoi_loop_find)
  next
    case False
    have "Max (in_service l) \<in> in_service l" "\<And>w. w \<in> in_service l \<Longrightarrow> w \<le> Max (in_service l)"
      using False by simp_all
    then have "find (vector_is_set (la_isr l)) vectors_desc = Some (Max (in_service l))"
      unfolding find_desc [OF vectors_desc_sorted] d by auto
    with False show ?thesis by (simp add: eoi_def eoi_loop_find)
  qed
qed

section \<open>The invariant\<close>

definition lapic_inv :: "LocalApic \<Rightarrow> bool" where
  "lapic_inv l \<longleftrightarrow> length (la_isr l) = 8 \<and> length (la_tmr l) = 8 \<and> length (la_irr l) = 8
     \<and> la_apic_base_msr l \<in> {0xfee00100, 0xfee00900}
     \<and> la_lvt_timer l AND LVT_MASKED \<noteq> 0 \<and> la_timer_initial l = 0 \<and> la_icr_low l = 0 \<and> la_icr_high l = 0"

lemma and_ENABLE: "w AND 0x800 = 0 \<or> w AND 0x800 = 0x800" for w :: u64
  using and_exp [of w 11] by (simp split: if_splits)

lemma or_and_mask: "(w OR m) AND m = m" for w m :: "'a::len word"
  by (rule bit_word_eqI) (auto simp: bit_and_iff bit_or_iff)

lemma lapic_new_inv: "lapic_inv lapic_new"
  by (simp add: lapic_inv_def lapic_new_def)

lemma write_msr_inv: "lapic_inv l \<Longrightarrow> lapic_inv (snd (lapic_write_msr i v l))"
  using and_ENABLE [of v] by (auto simp: lapic_write_msr_def write_apic_base_msr_def Let_def lapic_inv_def)

lemma eoi_inv: "lapic_inv l \<Longrightarrow> lapic_inv (eoi l)"
  by (simp add: eoi_cases lapic_inv_def vec.ok_del)

lemma write_reg32_inv: "lapic_inv l \<Longrightarrow> lapic_inv (snd (write_reg32 off v l))"
  by (simp add: write_reg32_def eoi_inv) (simp add: lapic_inv_def or_and_mask)

lemma write_mmio_inv: "lapic_inv l \<Longrightarrow> lapic_inv (snd (lapic_write_mmio gpa data l))"
  by (simp add: lapic_write_mmio_def write_reg32_inv split: res.split)

lemma accept_inv: "lapic_inv l \<Longrightarrow> lapic_inv (snd (accept_interrupt v l))"
  by (simp add: accept_interrupt_def lapic_inv_def vec.ok_ins)

lemma next_pending_inv: "lapic_inv l \<Longrightarrow> lapic_inv (snd (next_pending_interrupt l))"
  by (simp add: next_pending_cases Let_def lapic_inv_def vec.ok_ins vec.ok_del)

text \<open>Every guest and host operation on the APIC.\<close>

inductive lapic_step :: "LocalApic \<Rightarrow> LocalApic \<Rightarrow> bool" where
  la_msr: "lapic_step l (snd (lapic_write_msr i v l))"
| la_mmio: "lapic_step l (snd (lapic_write_mmio gpa data l))"
| la_accept: "lapic_step l (snd (accept_interrupt v l))"
| la_deliver: "lapic_step l (snd (next_pending_interrupt l))"

inductive lapic_reach :: "LocalApic \<Rightarrow> bool" where
  la_new: "lapic_reach lapic_new"
| la_step: "lapic_reach l \<Longrightarrow> lapic_step l l' \<Longrightarrow> lapic_reach l'"

lemma lapic_step_inv: "lapic_step l l' \<Longrightarrow> lapic_inv l \<Longrightarrow> lapic_inv l'"
  by (induction rule: lapic_step.induct) (auto intro: write_msr_inv write_mmio_inv accept_inv next_pending_inv)

lemma lapic_reach_inv: "lapic_reach l \<Longrightarrow> lapic_inv l"
  by (induction rule: lapic_reach.induct) (auto intro: lapic_new_inv lapic_step_inv)

text \<open>The checks of the restore path accept exactly the states the invariant describes.\<close>

lemma apic_base_checks:
  "(b AND 0x400 = 0 \<and> b AND 0x000ffffffffff000 = 0xfee00000 \<and> b AND NOT (0x000ffffffffff000 OR 0x100 OR 0x800) = 0
     \<and> b AND 0x100 \<noteq> 0) \<longleftrightarrow> b \<in> {0xfee00100, 0xfee00900}" for b :: u64
proof
  assume a: "b AND 0x400 = 0 \<and> b AND 0x000ffffffffff000 = 0xfee00000
    \<and> b AND NOT (0x000ffffffffff000 OR 0x100 OR 0x800) = 0 \<and> b AND 0x100 \<noteq> 0"
  note e8 = and_exp [of b 8]
  have "b = (b AND (0x000ffffffffff000 OR 0x100 OR 0x800)) OR (b AND NOT (0x000ffffffffff000 OR 0x100 OR 0x800))"
    by (metis (no_types) bit.conj_disj_distrib bit.disj_cancel_right bit.conj_one_right)
  also have "\<dots> = (b AND 0x000ffffffffff000) OR (b AND 0x100) OR (b AND 0x800)"
    using a by (simp only: bit.conj_disj_distrib bit.disj_zero_right)
  finally show "b \<in> {0xfee00100, 0xfee00900}"
    using a e8 and_ENABLE [of b] by (auto split: if_splits)
qed auto

lemma from_lapc_iff: "from_lapc_section s = Ok l \<and> lapc_wf s \<longleftrightarrow> s = to_lapc_section l \<and> lapic_inv l"
proof
  assume "from_lapc_section s = Ok l \<and> lapc_wf s"
  then show "s = to_lapc_section l \<and> lapic_inv l"
    using apic_base_checks [of "lp_apic_base_msr s"]
    by (auto simp: from_lapc_section_def Let_def to_lapc_section_def lapic_inv_def lapc_wf_def split: if_splits)
next
  assume "s = to_lapc_section l \<and> lapic_inv l"
  then show "from_lapc_section s = Ok l \<and> lapc_wf s"
    using apic_base_checks [of "la_apic_base_msr l"]
    by (auto simp: from_lapc_section_def Let_def to_lapc_section_def lapic_inv_def lapc_wf_def)
qed

section \<open>Properties\<close>

text \<open>
  C32. The local APIC survives a snapshot: whatever the guest and the host did to it since reset,
  its \<open>LAPC\<close> section is found in the parsed container, decodes, passes every check of the restore
  path and gives back the same APIC. Restoring is canonical: a section that is accepted is the
  section of the APIC it restores.
\<close>

theorem lapic_survives_snapshot:
  assumes "lapic_reach l" and "push_sections ss container_writer_new = (Ok (), w)"
    and "\<lparr>sec_tag = tag_LAPC, sec_version = LAPC_VERSION, sec_contents = lapc_encode (to_lapc_section l)\<rparr> \<in> set ss"
  shows "(\<exists>sec s. container_parse (container_finish w) = Ok ss \<and> container_get tag_LAPC ss = Some sec
      \<and> lapc_decode_compat (sec_contents sec) (sec_version sec) = Ok s \<and> from_lapc_section s = Ok l)
    \<and> (from_lapc_section s' = Ok l' \<longrightarrow> to_lapc_section l' = s')"
proof
  have ok: "from_lapc_section (to_lapc_section l) = Ok l" "lapc_wf (to_lapc_section l)"
    using lapic_reach_inv [OF assms(1)] from_lapc_iff [of "to_lapc_section l" l] by auto
  have "cw_holds w ss"
    using push_sections_result [OF cw_holds_new, of ss] assms(2) by simp
  from lapc_sec.through_container [OF this ok(2) assms(3)] ok(1)
  show "\<exists>sec s. container_parse (container_finish w) = Ok ss \<and> container_get tag_LAPC ss = Some sec
      \<and> lapc_decode_compat (sec_contents sec) (sec_version sec) = Ok s \<and> from_lapc_section s = Ok l"
    using lapc_sec.decode_iff by (fastforce simp: lapc_decode_compat_def)
  show "from_lapc_section s' = Ok l' \<longrightarrow> to_lapc_section l' = s'"
    by (auto simp: from_lapc_section_def Let_def to_lapc_section_def split: if_splits)
qed

definition ex_lapic :: LocalApic where
  "ex_lapic = snd (accept_interrupt 0x31 (snd (lapic_write_mmio (XAPIC_MMIO_BASE + REG_SVR) [0xff, 1, 0, 0] lapic_new)))"

lemma ex_lapic_reach: "lapic_reach ex_lapic"
  unfolding ex_lapic_def by (intro la_step [OF _ la_accept] la_step [OF _ la_mmio] la_new)

theorem lapic_survives_snapshot_witness:
  "\<exists>w sec s. push_sections [\<lparr>sec_tag = tag_LAPC, sec_version = LAPC_VERSION, sec_contents = lapc_encode (to_lapc_section ex_lapic)\<rparr>]
       container_writer_new = (Ok (), w)
     \<and> container_parse (container_finish w) = Ok [sec] \<and> lapc_decode_compat (sec_contents sec) (sec_version sec) = Ok s
     \<and> from_lapc_section s = Ok ex_lapic"
proof -
  let ?s = "\<lparr>sec_tag = tag_LAPC, sec_version = LAPC_VERSION, sec_contents = lapc_encode (to_lapc_section ex_lapic)\<rparr>"
  have "lapc_wf (to_lapc_section ex_lapic)"
    using lapic_reach_inv [OF ex_lapic_reach] from_lapc_iff [of "to_lapc_section ex_lapic" ex_lapic] by auto
  then have "length (lapc_encode (to_lapc_section ex_lapic)) = 168"
    by (rule lapc_sec.encode_length)
  then obtain w where w: "push_sections [?s] container_writer_new = (Ok (), w)"
    by (simp add: push_section_def KNOWN_TAGS_def container_writer_new_def word_of_nat_opt_def)
  from lapic_survives_snapshot [OF ex_lapic_reach w] w show ?thesis
    by (auto simp: container_get_def)
qed

text \<open>Delivering takes the greatest deliverable vector out and leaves the others.\<close>

lemma deliverable_next:
  assumes "lapic_inv l" "deliverable l \<noteq> {}"
  shows "fst (next_pending_interrupt l) = Some (Max (deliverable l))"
    "deliverable (snd (next_pending_interrupt l)) = deliverable l - {Max (deliverable l)}"
  using assms by (auto simp: next_pending_cases Let_def deliverable_def lapic_inv_def vec.mem_del)

lemma deliver_rank:
  assumes "lapic_inv l" "v \<in> deliverable l" "k = card {u \<in> deliverable l. v < u}"
  shows "fst (next_pending_interrupt (((\<lambda>l. snd (next_pending_interrupt l)) ^^ k) l)) = Some v"
  using assms
proof (induction k arbitrary: l)
  case 0
  then have "{u \<in> deliverable l. v < u} = {}" by simp
  then have "\<forall>u\<in>deliverable l. u \<le> v" by (auto simp: not_less)
  then have "Max (deliverable l) = v" using 0 by (intro Max_eqI) auto
  with 0 show ?case using deliverable_next(1) [of l] by auto
next
  case (Suc k)
  let ?l = "snd (next_pending_interrupt l)" and ?M = "Max (deliverable l)"
  have ne: "deliverable l \<noteq> {}" using Suc.prems by auto
  have "{u \<in> deliverable l. v < u} \<noteq> {}" using Suc.prems(3) by (metis card.empty nat.distinct(1))
  then obtain u where "u \<in> deliverable l" "v < u" by blast
  then have M: "?M \<in> deliverable l" "v < ?M" using ne by (auto intro: less_le_trans)
  have d: "deliverable ?l = deliverable l - {?M}" using Suc.prems ne by (intro deliverable_next)
  have "{u \<in> deliverable ?l. v < u} = {u \<in> deliverable l. v < u} - {?M}" using d by auto
  then have "card {u \<in> deliverable ?l. v < u} = k" using M Suc.prems(3) by simp
  then have "fst (next_pending_interrupt (((\<lambda>l. snd (next_pending_interrupt l)) ^^ k) ?l)) = Some v"
    using Suc.prems M d next_pending_inv by (intro Suc.IH) auto
  then show ?case by (simp add: funpow_Suc_right del: funpow.simps)
qed

text \<open>
  C33. Interrupts are delivered, in priority order and exactly once. An external vector offered to
  an enabled APIC becomes requested; if its priority class is above the task priority it is
  delivered after exactly as many deliveries as there are higher deliverable vectors. A delivery
  moves one vector from requested to in service, and nothing is delivered only when nothing is
  deliverable. An end of interrupt retires the highest vector in service.
\<close>

theorem lapic_delivers:
  assumes "lapic_reach l"
  shows "(v \<in> deliverable l \<longrightarrow>
        fst (next_pending_interrupt (((\<lambda>l. snd (next_pending_interrupt l)) ^^ card {u \<in> deliverable l. v < u}) l)) = Some v)
    \<and> (fst (next_pending_interrupt l) = None \<longleftrightarrow> deliverable l = {})
    \<and> (next_pending_interrupt l = (Some u, l') \<longrightarrow>
        (\<forall>x. vector_is_set (la_irr l') x \<longleftrightarrow> x \<noteq> u \<and> vector_is_set (la_irr l) x)
      \<and> (\<forall>x. vector_is_set (la_isr l') x \<longleftrightarrow> x = u \<or> vector_is_set (la_isr l) x))
    \<and> (32 \<le> v \<longrightarrow> la_apic_base_msr l AND APIC_BASE_ENABLE \<noteq> 0 \<longrightarrow> la_svr l AND SVR_SOFTWARE_ENABLE \<noteq> 0 \<longrightarrow>
        fst (accept_interrupt v l) = Ok ()
      \<and> (\<forall>x. vector_is_set (la_irr (snd (accept_interrupt v l))) x \<longleftrightarrow> x = v \<or> vector_is_set (la_irr l) x))
    \<and> in_service (eoi l) = (if in_service l = {} then {} else in_service l - {Max (in_service l)})"
proof (intro conjI)
  have inv: "lapic_inv l" using assms by (rule lapic_reach_inv)
  then have len: "length (la_irr l) = 8" "length (la_isr l) = 8" by (simp_all add: lapic_inv_def)
  show "v \<in> deliverable l \<longrightarrow>
      fst (next_pending_interrupt (((\<lambda>l. snd (next_pending_interrupt l)) ^^ card {u \<in> deliverable l. v < u}) l)) = Some v"
    using deliver_rank [OF inv] by blast
  show "fst (next_pending_interrupt l) = None \<longleftrightarrow> deliverable l = {}"
    by (simp add: next_pending_cases Let_def)
  show "next_pending_interrupt l = (Some u, l') \<longrightarrow>
        (\<forall>x. vector_is_set (la_irr l') x \<longleftrightarrow> x \<noteq> u \<and> vector_is_set (la_irr l) x)
      \<and> (\<forall>x. vector_is_set (la_isr l') x \<longleftrightarrow> x = u \<or> vector_is_set (la_isr l) x)"
    using len by (auto simp: next_pending_cases Let_def vec.mem_del vec.mem_ins split: if_splits)
  show "32 \<le> v \<longrightarrow> la_apic_base_msr l AND APIC_BASE_ENABLE \<noteq> 0 \<longrightarrow> la_svr l AND SVR_SOFTWARE_ENABLE \<noteq> 0 \<longrightarrow>
        fst (accept_interrupt v l) = Ok ()
      \<and> (\<forall>x. vector_is_set (la_irr (snd (accept_interrupt v l))) x \<longleftrightarrow> x = v \<or> vector_is_set (la_irr l) x)"
    using len by (auto simp: accept_interrupt_def vec.mem_ins not_less)
  show "in_service (eoi l) = (if in_service l = {} then {} else in_service l - {Max (in_service l)})"
    using len by (auto simp: eoi_cases in_service_def vec.mem_del)
qed

lemma ex_write: "lapic_write_mmio (XAPIC_MMIO_BASE + REG_SVR) [0xff, 1, 0, 0] lapic_new = (Ok (), lapic_new\<lparr>la_svr := 0x1ff\<rparr>)"
proof -
  have "checked_mmio_offset (XAPIC_MMIO_BASE + REG_SVR) (length [0xff, 1, 0, 0 :: byte]) = Ok REG_SVR"
    by (simp add: checked_mmio_offset_def contains_mmio_def)
  moreover have "read_le32 [0xff, 1, 0, 0] = Ok 0x1ff"
    by (simp add: read_le32_def rd_u32_def bslice_all from_le_def)
  ultimately show ?thesis by (simp add: lapic_write_mmio_def write_reg32_def)
qed

lemma ex_lapic_eq: "ex_lapic = lapic_new\<lparr>la_svr := 0x1ff, la_irr := [0, 0x20000, 0, 0, 0, 0, 0, 0]\<rparr>"
proof -
  have "vector_word 0x31 = (1, 0x20000)" by (simp add: vector_word_def)
  moreover have "replicate 8 (0 :: u32) = [0, 0, 0, 0, 0, 0, 0, 0]" by (simp add: numeral_eq_Suc)
  ultimately show ?thesis
    unfolding ex_lapic_def ex_write by (simp add: accept_interrupt_def lapic_new_def set_vector_def)
qed

theorem lapic_delivers_witness:
  "lapic_reach ex_lapic \<and> 0x31 \<in> deliverable ex_lapic \<and> fst (next_pending_interrupt ex_lapic) \<noteq> None"
proof -
  have "0x31 \<in> deliverable ex_lapic"
    by (simp add: deliverable_def ex_lapic_eq lapic_new_def vector_is_set_def vector_word_def)
  with lapic_delivers [OF ex_lapic_reach] ex_lapic_reach show ?thesis by auto
qed

end
