(* ===== verification/Bisection_Index.thy ===== *)
theory Bisection_Index
  imports Log_Roundtrip
begin

text \<open>
  The checkpoint index of \<open>crates/dh-worker/src/bisection_index.rs\<close>: collecting epoch hashes and
  checkpoint candidates from a parsed log, the cross-record checks, and the selection of the
  checkpoint that brackets a divergence. The log is the one of \<open>Log_Reader\<close>; error texts are not
  modelled.
\<close>

section \<open>Data\<close>

datatype RecordPosition = RecordPosition (rp_icount: u64) (rp_seq: u32)

text \<open>The derived order: by icount, then by sequence number.\<close>

instantiation RecordPosition :: linorder
begin

definition less_eq_RecordPosition :: "RecordPosition \<Rightarrow> RecordPosition \<Rightarrow> bool" where
  "less_eq_RecordPosition p q \<longleftrightarrow> rp_icount p < rp_icount q \<or> rp_icount p = rp_icount q \<and> rp_seq p \<le> rp_seq q"

definition less_RecordPosition :: "RecordPosition \<Rightarrow> RecordPosition \<Rightarrow> bool" where
  "less_RecordPosition p q \<longleftrightarrow> rp_icount p < rp_icount q \<or> rp_icount p = rp_icount q \<and> rp_seq p < rp_seq q"

instance
  by intro_classes (auto simp: less_eq_RecordPosition_def less_RecordPosition_def RecordPosition.expand)

end

record IndexedEpochHash =
  ieh_epoch_index :: u64
  ieh_position :: RecordPosition

record IndexedBisectionCheckpoint =
  ibc_position :: RecordPosition
  ibc_checkpoint_icount :: u64
  ibc_checkpoint_vns :: u64
  ibc_checkpoint_snapshot_ref :: "byte list"
  ibc_max_covered_gap :: u32
  ibc_preceding_epoch_hash :: IndexedEpochHash

text \<open>\<open>saturating_sub\<close> of the coverage width.\<close>

definition coverage_icount_lo :: "IndexedBisectionCheckpoint \<Rightarrow> u64" where
  "coverage_icount_lo c =
     (if ucast (ibc_max_covered_gap c) \<le> ibc_checkpoint_icount c
      then ibc_checkpoint_icount c - ucast (ibc_max_covered_gap c) else 0)"

definition coverage_icount_hi :: "IndexedBisectionCheckpoint \<Rightarrow> u64" where
  "coverage_icount_hi c = ibc_checkpoint_icount c"

datatype BisectionDivergenceSite = EpochHashSite u64 RecordPosition | TerminalSite RecordPosition

datatype BisectionSelectionTarget = EpochHashTarget u64 u64 | TerminalEndState u64

record SelectedBisectionCheckpoint =
  sel_checkpoint :: IndexedBisectionCheckpoint
  sel_divergence :: BisectionDivergenceSite
  sel_coverage_icount_lo :: u64
  sel_coverage_icount_hi :: u64

record BisectionCheckpointIndex =
  bi_checkpoints :: "IndexedBisectionCheckpoint list"
  bi_epoch_hashes :: "IndexedEpochHash list"
  bi_end_position :: "RecordPosition option"

datatype BisectionCheckpointIndexError =
    BiUnsupportedFormatVersion u32 u16
  | BiInvalidFlags u32 u16
  | BiIcountMismatch u32 u64 u64
  | MissingPrecedingEpochHash RecordPosition
  | CheckpointDoesNotFollowEpochHash RecordPosition RecordPosition
  | CheckpointSeparatedFromEpochHash RecordPosition RecordPosition RecordPosition
  | InconsistentSequenceOrdering RecordPosition RecordPosition
  | GapTooNarrow u32 u64 "u64 option" u32 u64
  | UnusableSnapshotRef u32 "byte list" string

record EpochHashContext =
  ehc_epoch_hash :: IndexedEpochHash
  ehc_intervening_canonical :: "RecordPosition option"

record BisectionCheckpointCandidate =
  cd_position :: RecordPosition
  cd_format_version :: u16
  cd_flags :: u16
  cd_max_covered_gap :: u32
  cd_checkpoint_snapshot_ref :: "byte list"
  cd_checkpoint_icount :: u64
  cd_checkpoint_vns :: u64
  cd_preceding_epoch_hash :: "IndexedEpochHash option"
  cd_intervening_canonical :: "RecordPosition option"

section \<open>Collecting the records\<close>

record IndexScan =
  ix_by_icount :: "u64 \<rightharpoonup> EpochHashContext"
  ix_epoch_hashes :: "IndexedEpochHash list"
  ix_candidates :: "BisectionCheckpointCandidate list"
  ix_end_position :: "RecordPosition option"

definition rec_position :: "Rec \<Rightarrow> RecordPosition" where
  "rec_position r = RecordPosition (rec_icount r) (rec_seq r)"

text \<open>One iteration of the record loop of \<open>from_reader\<close>.\<close>

definition index_step :: "Rec \<Rightarrow> RecordBody \<Rightarrow> IndexScan \<Rightarrow> IndexScan" where
  "index_step r body s = (let position = rec_position r in
     case body of
       EpochHash epoch_index _ \<Rightarrow>
         (let epoch_hash = \<lparr>ieh_epoch_index = epoch_index, ieh_position = position\<rparr>
          in s\<lparr>ix_by_icount := (ix_by_icount s)(rp_icount position \<mapsto>
                 \<lparr>ehc_epoch_hash = epoch_hash, ehc_intervening_canonical = None\<rparr>),
               ix_epoch_hashes := ix_epoch_hashes s @ [epoch_hash]\<rparr>)
     | BisectionCheckpoint format_version flags gap snapshot_ref icount vns \<Rightarrow>
         (let context = ix_by_icount s (rp_icount position)
          in s\<lparr>ix_candidates := ix_candidates s @ [\<lparr>cd_position = position, cd_format_version = format_version,
                 cd_flags = flags, cd_max_covered_gap = gap, cd_checkpoint_snapshot_ref = snapshot_ref,
                 cd_checkpoint_icount = icount, cd_checkpoint_vns = vns,
                 cd_preceding_epoch_hash = map_option ehc_epoch_hash context,
                 cd_intervening_canonical = Option.bind context ehc_intervening_canonical\<rparr>]\<rparr>)
     | End _ _ \<Rightarrow> s\<lparr>ix_end_position := Some position\<rparr>
     | _ \<Rightarrow>
         if \<not> is_aux r then
           (case ix_by_icount s (rp_icount position) of
              Some context \<Rightarrow>
                if ieh_position (ehc_epoch_hash context) < position \<and> ehc_intervening_canonical context = None
                then s\<lparr>ix_by_icount := (ix_by_icount s)(rp_icount position \<mapsto>
                       context\<lparr>ehc_intervening_canonical := Some position\<rparr>)\<rparr>
                else s
            | None \<Rightarrow> s)
         else s)"

fun index_loop :: "Rec list \<Rightarrow> IndexScan \<Rightarrow> (IndexScan, BisectionCheckpointIndexError) res" where
  "index_loop [] s = Ok s"
| "index_loop (r # rs) s = res_bind (rec_body r) (\<lambda>body. index_loop rs (index_step r body s))"

text \<open>The checks of \<open>from_candidates\<close> on one candidate, given the previous checkpoint.\<close>

definition check_candidate ::
  "RecordPosition option \<Rightarrow> u64 option \<Rightarrow> BisectionCheckpointCandidate
   \<Rightarrow> (IndexedBisectionCheckpoint, BisectionCheckpointIndexError) res" where
  "check_candidate previous_position previous_icount c =
     (if cd_format_version c \<noteq> BISECTION_CHECKPOINT_FORMAT_VERSION
        then Err (BiUnsupportedFormatVersion (rp_seq (cd_position c)) (cd_format_version c))
      else if cd_flags c \<noteq> BISECTION_CHECKPOINT_FLAGS
        then Err (BiInvalidFlags (rp_seq (cd_position c)) (cd_flags c))
      else if rp_icount (cd_position c) \<noteq> cd_checkpoint_icount c
        then Err (BiIcountMismatch (rp_seq (cd_position c)) (rp_icount (cd_position c)) (cd_checkpoint_icount c))
      else res_bind (case previous_position of
             Some previous \<Rightarrow> if cd_position c \<le> previous
               then Err (InconsistentSequenceOrdering previous (cd_position c)) else Ok ()
           | None \<Rightarrow> Ok ()) (\<lambda>_.
      res_bind (ok_or (cd_preceding_epoch_hash c) (MissingPrecedingEpochHash (cd_position c))) (\<lambda>epoch_hash.
      if rp_icount (ieh_position epoch_hash) \<noteq> rp_icount (cd_position c) \<or> ieh_position epoch_hash \<ge> cd_position c
        then Err (CheckpointDoesNotFollowEpochHash (cd_position c) (ieh_position epoch_hash))
      else res_bind (case cd_intervening_canonical c of
             Some canonical \<Rightarrow> Err (CheckpointSeparatedFromEpochHash (cd_position c) (ieh_position epoch_hash) canonical)
           | None \<Rightarrow> Ok ()) (\<lambda>_.
      res_bind (case previous_icount of
             Some previous \<Rightarrow>
               if previous \<le> cd_checkpoint_icount c then Ok (cd_checkpoint_icount c - previous)
               else (case previous_position of
                       None \<Rightarrow> Panic
                     | Some p \<Rightarrow> Err (InconsistentSequenceOrdering p (cd_position c)))
           | None \<Rightarrow> Ok (cd_checkpoint_icount c)) (\<lambda>required_gap.
      if ucast (cd_max_covered_gap c) < required_gap
        then Err (GapTooNarrow (rp_seq (cd_position c)) (cd_checkpoint_icount c) previous_icount
               (cd_max_covered_gap c) required_gap)
      else Ok \<lparr>ibc_position = cd_position c, ibc_checkpoint_icount = cd_checkpoint_icount c,
                ibc_checkpoint_vns = cd_checkpoint_vns c,
                ibc_checkpoint_snapshot_ref = cd_checkpoint_snapshot_ref c,
                ibc_max_covered_gap = cd_max_covered_gap c, ibc_preceding_epoch_hash = epoch_hash\<rparr>)))))"

fun candidates_loop ::
  "RecordPosition option \<Rightarrow> u64 option \<Rightarrow> BisectionCheckpointCandidate list
   \<Rightarrow> (IndexedBisectionCheckpoint list, BisectionCheckpointIndexError) res" where
  "candidates_loop previous_position previous_icount [] = Ok []"
| "candidates_loop previous_position previous_icount (c # cs) =
     res_bind (check_candidate previous_position previous_icount c) (\<lambda>checkpoint.
     res_bind (candidates_loop (Some (cd_position c)) (Some (cd_checkpoint_icount c)) cs) (\<lambda>rest.
       Ok (checkpoint # rest)))"

definition from_candidates ::
  "IndexedEpochHash list \<Rightarrow> RecordPosition option \<Rightarrow> BisectionCheckpointCandidate list
   \<Rightarrow> (BisectionCheckpointIndex, BisectionCheckpointIndexError) res" where
  "from_candidates epoch_hashes end_position candidates =
     res_bind (candidates_loop None None candidates) (\<lambda>checkpoints.
       Ok \<lparr>bi_checkpoints = checkpoints, bi_epoch_hashes = epoch_hashes, bi_end_position = end_position\<rparr>)"

definition index_start :: IndexScan where
  "index_start = \<lparr>ix_by_icount = Map.empty, ix_epoch_hashes = [], ix_candidates = [], ix_end_position = None\<rparr>"

definition from_reader :: "LogReader \<Rightarrow> (BisectionCheckpointIndex, BisectionCheckpointIndexError) res" where
  "from_reader reader = (case log_records reader of
     Ok rs \<Rightarrow> res_bind (index_loop rs index_start) (\<lambda>s.
       from_candidates (ix_epoch_hashes s) (ix_end_position s) (ix_candidates s))
   | _ \<Rightarrow> Panic)"

section \<open>Selection\<close>

text \<open>The snapshot validator is a callback; its error is turned into text.\<close>

fun validate_snapshot_refs ::
  "(byte list \<Rightarrow> (unit, string) res) \<Rightarrow> IndexedBisectionCheckpoint list
   \<Rightarrow> (unit, BisectionCheckpointIndexError) res" where
  "validate_snapshot_refs f [] = Ok ()"
| "validate_snapshot_refs f (c # cs) =
     res_bind (map_err (UnusableSnapshotRef (rp_seq (ibc_position c)) (ibc_checkpoint_snapshot_ref c))
       (f (ibc_checkpoint_snapshot_ref c))) (\<lambda>_. validate_snapshot_refs f cs)"

definition covers_epoch_position :: "IndexedBisectionCheckpoint \<Rightarrow> RecordPosition \<Rightarrow> bool" where
  "covers_epoch_position c epoch_position \<longleftrightarrow>
     coverage_icount_lo c \<le> rp_icount epoch_position
   \<and> (rp_icount epoch_position < ibc_checkpoint_icount c
      \<or> rp_icount epoch_position = ibc_checkpoint_icount c \<and> epoch_position < ibc_position c)"

definition select_epoch_hash_divergence ::
  "u64 \<Rightarrow> u64 \<Rightarrow> BisectionCheckpointIndex \<Rightarrow> SelectedBisectionCheckpoint option" where
  "select_epoch_hash_divergence epoch_index at_icount ix =
     Option.bind (find (\<lambda>e. ieh_epoch_index e = epoch_index \<and> rp_icount (ieh_position e) = at_icount) (bi_epoch_hashes ix))
       (\<lambda>epoch_hash.
     map_option (\<lambda>c. \<lparr>sel_checkpoint = c, sel_divergence = EpochHashSite epoch_index (ieh_position epoch_hash),
         sel_coverage_icount_lo = coverage_icount_lo c, sel_coverage_icount_hi = coverage_icount_hi c\<rparr>)
       (find (\<lambda>c. covers_epoch_position c (ieh_position epoch_hash)) (bi_checkpoints ix)))"

definition select_terminal_divergence ::
  "u64 \<Rightarrow> BisectionCheckpointIndex \<Rightarrow> SelectedBisectionCheckpoint option" where
  "select_terminal_divergence end_icount ix =
     Option.bind (bi_end_position ix) (\<lambda>end_position.
     if rp_icount end_position \<noteq> end_icount then None
     else map_option (\<lambda>c. \<lparr>sel_checkpoint = c, sel_divergence = TerminalSite end_position,
            sel_coverage_icount_lo = coverage_icount_lo c, sel_coverage_icount_hi = end_icount\<rparr>)
          (find (\<lambda>c. ibc_position c < end_position \<and> ibc_checkpoint_icount c \<le> end_icount) (rev (bi_checkpoints ix))))"

definition select_for_divergence ::
  "BisectionSelectionTarget \<Rightarrow> BisectionCheckpointIndex \<Rightarrow> SelectedBisectionCheckpoint option" where
  "select_for_divergence target ix = (case target of
     EpochHashTarget epoch_index at_icount \<Rightarrow> select_epoch_hash_divergence epoch_index at_icount ix
   | TerminalEndState end_icount \<Rightarrow> select_terminal_divergence end_icount ix)"

section \<open>The chain of checkpoints\<close>

text \<open>
  What \<open>from_candidates\<close> establishes: positions increase, every checkpoint captures the icount of
  its record, follows its epoch hash, and reaches back at least to the previous checkpoint.
\<close>

fun chained :: "RecordPosition option \<Rightarrow> IndexedBisectionCheckpoint list \<Rightarrow> bool" where
  "chained prev [] \<longleftrightarrow> True"
| "chained prev (c # cs) \<longleftrightarrow>
     (\<forall>p. prev = Some p \<longrightarrow> p < ibc_position c)
   \<and> ibc_checkpoint_icount c = rp_icount (ibc_position c)
   \<and> coverage_icount_lo c \<le> (case prev of None \<Rightarrow> 0 | Some p \<Rightarrow> rp_icount p)
   \<and> rp_icount (ieh_position (ibc_preceding_epoch_hash c)) = rp_icount (ibc_position c)
   \<and> ieh_position (ibc_preceding_epoch_hash c) < ibc_position c
   \<and> chained (Some (ibc_position c)) cs"

lemma unat_gap: "unat (ucast (w :: u32) :: u64) = unat w"
  by (simp add: unsigned_ucast_eq take_bit_nat_eq_self_iff) (use unat_lt_pow [of w] in simp)

lemma unat_coverage_lo:
  "unat (coverage_icount_lo c) = unat (ibc_checkpoint_icount c) - unat (ibc_max_covered_gap c)"
  by (auto simp: coverage_icount_lo_def word_le_nat_alt unat_sub unat_gap)

lemma gap_reaches:
  assumes "\<not> ucast (ibc_max_covered_gap c) < ibc_checkpoint_icount c - p" "p \<le> ibc_checkpoint_icount c"
  shows "coverage_icount_lo c \<le> p"
  using assms by (auto simp: word_le_nat_alt word_less_nat_alt unat_coverage_lo unat_sub unat_gap)

lemma check_candidate_gap:
  assumes "check_candidate pp pi c = Ok k"
  shows "coverage_icount_lo k \<le> (case pi of None \<Rightarrow> 0 | Some p \<Rightarrow> p)"
proof -
  have "ibc_checkpoint_icount k = cd_checkpoint_icount c" "ibc_max_covered_gap k = cd_max_covered_gap c"
    "\<not> ucast (cd_max_covered_gap c) < cd_checkpoint_icount c - (case pi of None \<Rightarrow> 0 | Some p \<Rightarrow> p)"
    "(case pi of None \<Rightarrow> 0 | Some p \<Rightarrow> p) \<le> cd_checkpoint_icount c"
    using assms by (auto simp: check_candidate_def split: if_splits option.splits)
  then show ?thesis by (intro gap_reaches) simp_all
qed

lemma candidates_chained:
  assumes "candidates_loop pp pi cs = Ok cps" "pi = map_option rp_icount pp"
  shows "chained pp cps \<and> map ibc_position cps = map cd_position cs"
  using assms
proof (induction pp pi cs arbitrary: cps rule: candidates_loop.induct)
  case (2 pp pi c cs)
  then obtain k rest where k: "check_candidate pp pi c = Ok k" and rest:
    "candidates_loop (Some (cd_position c)) (Some (cd_checkpoint_icount c)) cs = Ok rest" "cps = k # rest"
    by auto
  have kk: "ibc_position k = cd_position c" "ibc_checkpoint_icount k = cd_checkpoint_icount c"
    "cd_checkpoint_icount c = rp_icount (cd_position c)"
    "rp_icount (ieh_position (ibc_preceding_epoch_hash k)) = rp_icount (cd_position c)"
    "ieh_position (ibc_preceding_epoch_hash k) < cd_position c"
    using k by (auto simp: check_candidate_def split: if_splits option.splits)
  have ord: "p < cd_position c" if "pp = Some p" for p
    using k that by (auto simp: check_candidate_def split: if_splits option.splits)
  have lo: "coverage_icount_lo k \<le> (case pp of None \<Rightarrow> 0 | Some p \<Rightarrow> rp_icount p)"
    using check_candidate_gap [OF k] "2.prems"(2) by (auto split: option.split)
  have "chained (Some (cd_position c)) rest \<and> map ibc_position rest = map cd_position cs"
    using "2.IH" [OF rest(1)] kk(3) by simp
  with kk ord lo rest(2) show ?case by simp
qed simp

text \<open>No holes: a checkpoint covers a position exactly when it is the first one after it.\<close>

lemma chained_covers:
  assumes "chained prev cps" "\<And>p. prev = Some p \<Longrightarrow> p \<le> e"
  shows "find (\<lambda>c. covers_epoch_position c e) cps = find (\<lambda>c. e < ibc_position c) cps"
  using assms
proof (induction cps arbitrary: prev)
  case (Cons c cps)
  show ?case
  proof (cases "e < ibc_position c")
    case True
    have "coverage_icount_lo c \<le> rp_icount e"
    proof (cases prev)
      case (Some p)
      then have "p \<le> e" using Cons.prems(2) by blast
      then have "rp_icount p \<le> rp_icount e" by (auto simp: less_eq_RecordPosition_def)
      with Cons.prems(1) Some show ?thesis by auto
    qed (use Cons.prems(1) in auto)
    with True Cons.prems(1) show ?thesis
      by (auto simp: covers_epoch_position_def less_RecordPosition_def)
  next
    case False
    then have "\<not> covers_epoch_position c e"
      using Cons.prems(1) by (auto simp: covers_epoch_position_def less_RecordPosition_def)
    moreover have "find (\<lambda>c. covers_epoch_position c e) cps = find (\<lambda>c. e < ibc_position c) cps"
      using Cons.prems(1) False by (intro Cons.IH [of "Some (ibc_position c)"]) auto
    ultimately show ?thesis using False by simp
  qed
qed simp

lemma chained_mem:
  "chained prev cps \<Longrightarrow> c \<in> set cps \<Longrightarrow> ibc_checkpoint_icount c = rp_icount (ibc_position c)
     \<and> rp_icount (ieh_position (ibc_preceding_epoch_hash c)) = rp_icount (ibc_position c)
     \<and> ieh_position (ibc_preceding_epoch_hash c) < ibc_position c"
  by (induction cps arbitrary: prev) auto

lemma chained_sorted: "chained prev cps \<Longrightarrow> sorted_wrt (<) (map ibc_position cps) \<and> (\<forall>p. prev = Some p \<longrightarrow> (\<forall>c\<in>set cps. p < ibc_position c))"
proof (induction cps arbitrary: prev)
  case (Cons c cps)
  then have "sorted_wrt (<) (map ibc_position cps)" "\<forall>d\<in>set cps. ibc_position c < ibc_position d"
    using Cons.IH [of "Some (ibc_position c)"] by auto
  with Cons.prems show ?case by (auto intro: less_trans)
qed simp

section \<open>What the scan collects\<close>

lemma index_loop_append:
  "index_loop (rs @ [r]) s = res_bind (index_loop rs s) (\<lambda>s. res_bind (rec_body r) (\<lambda>b. Ok (index_step r b s)))"
proof (induction rs arbitrary: s)
  case (Cons q rs)
  then show ?case by (cases "rec_body q :: (RecordBody, BisectionCheckpointIndexError) res") simp_all
qed simp

lemma index_step_candidates:
  "set (ix_candidates (index_step r b s)) \<subseteq> set (ix_candidates s) \<union> {c. cd_position c = rec_position r}"
  by (auto simp: index_step_def Let_def split: RecordBody.splits option.splits if_splits)

lemma index_loop_candidates:
  "index_loop rs s = Ok s' \<Longrightarrow> cd_position ` set (ix_candidates s') \<subseteq> cd_position ` set (ix_candidates s) \<union> rec_position ` set rs"
proof (induction rs arbitrary: s)
  case (Cons r rs)
  then obtain b where "index_loop rs (index_step r b s) = Ok s'" by auto
  moreover have "cd_position ` set (ix_candidates (index_step r b s)) \<subseteq> insert (rec_position r) (cd_position ` set (ix_candidates s))"
    using index_step_candidates [of r b s] by auto
  ultimately show ?case using Cons.IH [of "index_step r b s"] by (intro subset_trans [OF Cons.IH]) auto
qed simp

text \<open>The epoch hash a record announces, if any.\<close>

definition epoch_of :: "Rec \<Rightarrow> IndexedEpochHash option" where
  "epoch_of r = (case rec_body r :: (RecordBody, BisectionCheckpointIndexError) res of
     Ok (EpochHash n _) \<Rightarrow> Some \<lparr>ieh_epoch_index = n, ieh_position = rec_position r\<rparr> | _ \<Rightarrow> None)"

definition epochs_of :: "Rec list \<Rightarrow> IndexedEpochHash list" where
  "epochs_of rs = List.map_filter epoch_of rs"

lemma epochs_of_snoc: "epochs_of (rs @ [r]) = epochs_of rs @ (case epoch_of r of Some e \<Rightarrow> [e] | None \<Rightarrow> [])"
  by (simp add: epochs_of_def List.map_filter_def split: option.split)

text \<open>Positions of an accepted log increase strictly.\<close>

definition rising :: "Rec list \<Rightarrow> bool" where
  "rising rs \<longleftrightarrow> sorted_wrt (\<lambda>r q. rec_position r < rec_position q) rs"

lemma log_ok_rising:
  assumes "log_ok h rs"
  shows "rising rs"
  unfolding rising_def sorted_wrt_iff_nth_less
proof (intro allI impI)
  fix i j assume ij: "i < j" "j < length rs"
  have "unat (rec_seq (rs ! i)) = i" "unat (rec_seq (rs ! j)) = j" and s: "sorted (map rec_icount rs)"
    using assms ij by (auto simp: log_ok_def)
  then have "rec_seq (rs ! i) < rec_seq (rs ! j)" using ij by (simp add: word_less_nat_alt)
  moreover have "rec_icount (rs ! i) \<le> rec_icount (rs ! j)"
    using s ij by (auto simp: sorted_wrt_iff_nth_less sorted_map)
  ultimately show "rec_position (rs ! i) < rec_position (rs ! j)"
    by (auto simp: rec_position_def less_RecordPosition_def)
qed

text \<open>The epoch hash \<open>e\<close> is one of the log's and no canonical record lies strictly between it and \<open>p\<close>.\<close>

definition adjacent :: "Rec list \<Rightarrow> IndexedEpochHash \<Rightarrow> RecordPosition \<Rightarrow> bool" where
  "adjacent rs e p \<longleftrightarrow> (\<forall>r\<in>set rs. \<not> is_aux r \<longrightarrow> \<not> (ieh_position e < rec_position r \<and> rec_position r < p))"

definition scan_inv :: "Rec list \<Rightarrow> IndexScan \<Rightarrow> bool" where
  "scan_inv rs s \<longleftrightarrow> ix_epoch_hashes s = epochs_of rs
     \<and> (\<forall>i ctx. ix_by_icount s i = Some ctx \<longrightarrow> ehc_epoch_hash ctx \<in> set (epochs_of rs)
          \<and> rp_icount (ieh_position (ehc_epoch_hash ctx)) = i
          \<and> (ehc_intervening_canonical ctx = None \<longrightarrow>
               (\<forall>r\<in>set rs. \<not> is_aux r \<longrightarrow> rec_icount r = i \<longrightarrow> \<not> ieh_position (ehc_epoch_hash ctx) < rec_position r)))
     \<and> (\<forall>c\<in>set (ix_candidates s). cd_position c \<in> rec_position ` set rs)
     \<and> (\<forall>c\<in>set (ix_candidates s). \<forall>e. cd_preceding_epoch_hash c = Some e \<longrightarrow> e \<in> set (epochs_of rs)
          \<and> (cd_intervening_canonical c = None \<longrightarrow> rp_icount (ieh_position e) = rp_icount (cd_position c)
               \<longrightarrow> adjacent rs e (cd_position c)))"

lemma rec_position_sel: "rp_icount (rec_position r) = rec_icount r" "rp_seq (rec_position r) = rec_seq r"
  by (simp_all add: rec_position_def)

lemma rising_snoc: "rising (rs @ [r]) \<longleftrightarrow> rising rs \<and> (\<forall>q\<in>set rs. rec_position q < rec_position r)"
  by (simp add: rising_def sorted_wrt_append)

lemma adjacent_snoc:
  "adjacent (rs @ [r]) e p \<longleftrightarrow> adjacent rs e p
     \<and> (\<not> is_aux r \<longrightarrow> \<not> (ieh_position e < rec_position r \<and> rec_position r < p))"
  by (auto simp: adjacent_def)

lemma adjacentI:
  assumes "\<forall>q\<in>set rs. \<not> is_aux q \<longrightarrow> rec_icount q = i \<longrightarrow> \<not> ieh_position e < rec_position q"
    "rp_icount (ieh_position e) = i" "rp_icount p = i"
  shows "adjacent rs e p"
proof -
  have "rec_icount q = i" if "ieh_position e < rec_position q" "rec_position q < p" for q
    using that assms(2,3) by (auto simp: less_RecordPosition_def rec_position_def)
  with assms(1) show ?thesis unfolding adjacent_def by blast
qed

text \<open>A later record does not disturb the candidates found so far.\<close>

lemma scan_old_candidates:
  assumes "scan_inv rs s" "rising (rs @ [r])" "c \<in> set (ix_candidates s)"
  shows "cd_position c \<in> rec_position ` set (rs @ [r])
    \<and> (\<forall>e. cd_preceding_epoch_hash c = Some e \<longrightarrow> e \<in> set (epochs_of (rs @ [r]))
       \<and> (cd_intervening_canonical c = None \<longrightarrow> rp_icount (ieh_position e) = rp_icount (cd_position c)
            \<longrightarrow> adjacent (rs @ [r]) e (cd_position c)))"
proof -
  obtain q where q: "q \<in> set rs" "cd_position c = rec_position q"
    using assms(1,3) by (auto simp: scan_inv_def)
  then have "cd_position c < rec_position r" using assms(2) by (simp add: rising_snoc)
  with q assms(1,3) show ?thesis
    by (auto simp: scan_inv_def adjacent_snoc epochs_of_snoc)
qed

lemma scan_step_epoch:
  assumes inv: "scan_inv rs s" and up: "rising (rs @ [r])" and b: "rec_body r = (Ok (EpochHash n h) :: (RecordBody, BisectionCheckpointIndexError) res)"
  shows "scan_inv (rs @ [r]) (index_step r (EpochHash n h) s)"
proof -
  let ?e = "\<lparr>ieh_epoch_index = n, ieh_position = rec_position r\<rparr>"
  have e: "epochs_of (rs @ [r]) = epochs_of rs @ [?e]" using b by (simp add: epochs_of_snoc epoch_of_def)
  have new: "\<forall>q\<in>set (rs @ [r]). \<not> rec_position r < rec_position q" using up by (auto simp: rising_snoc dest: less_asym)
  show ?thesis
    using inv new scan_old_candidates [OF inv up]
    unfolding scan_inv_def index_step_def e
    by (auto simp: Let_def rec_position_def)
qed

lemma scan_step_checkpoint:
  assumes inv: "scan_inv rs s" and up: "rising (rs @ [r])" and aux: "is_aux r"
    and b: "rec_body r = (Ok (BisectionCheckpoint f fl g sr i v) :: (RecordBody, BisectionCheckpointIndexError) res)"
  shows "scan_inv (rs @ [r]) (index_step r (BisectionCheckpoint f fl g sr i v) s)"
proof -
  have e: "epochs_of (rs @ [r]) = epochs_of rs" using b by (simp add: epochs_of_snoc epoch_of_def)
  have new: "adjacent (rs @ [r]) (ehc_epoch_hash ctx) (rec_position r)"
    if "ix_by_icount s (rec_icount r) = Some ctx" "ehc_intervening_canonical ctx = None" for ctx
    using inv that aux by (intro adjacentI [of _ "rec_icount r"]) (auto simp: scan_inv_def rec_position_def)
  show ?thesis
    using inv new aux scan_old_candidates [OF inv up]
    unfolding scan_inv_def index_step_def e
    by (auto simp: Let_def rec_position_def)
qed

lemma scan_step_other:
  assumes inv: "scan_inv rs s" and up: "rising (rs @ [r])" and b: "rec_body r = (Ok b :: (RecordBody, BisectionCheckpointIndexError) res)"
    and other: "\<And>n h. b \<noteq> EpochHash n h" "\<And>f fl g sr i v. b \<noteq> BisectionCheckpoint f fl g sr i v" "\<And>k h. b \<noteq> End k h"
  shows "scan_inv (rs @ [r]) (index_step r b s)"
proof -
  have e: "epochs_of (rs @ [r]) = epochs_of rs" using b other(1) by (auto simp: epochs_of_snoc epoch_of_def split: RecordBody.split)
  define s' where "s' = (if \<not> is_aux r then
           (case ix_by_icount s (rec_icount r) of
              Some context \<Rightarrow>
                if ieh_position (ehc_epoch_hash context) < rec_position r \<and> ehc_intervening_canonical context = None
                then s\<lparr>ix_by_icount := (ix_by_icount s)(rec_icount r \<mapsto>
                       context\<lparr>ehc_intervening_canonical := Some (rec_position r)\<rparr>)\<rparr>
                else s
            | None \<Rightarrow> s)
         else s)"
  have s': "index_step r b s = s'"
    using other by (auto simp: index_step_def Let_def s'_def rec_position_sel split: RecordBody.split option.split)
  have c: "ix_candidates s' = ix_candidates s" "ix_epoch_hashes s' = ix_epoch_hashes s"
    by (auto simp: s'_def split: option.split)
  have "ehc_epoch_hash ctx \<in> set (epochs_of rs) \<and> rp_icount (ieh_position (ehc_epoch_hash ctx)) = i
      \<and> (ehc_intervening_canonical ctx = None \<longrightarrow>
         (\<forall>q\<in>set (rs @ [r]). \<not> is_aux q \<longrightarrow> rec_icount q = i \<longrightarrow> \<not> ieh_position (ehc_epoch_hash ctx) < rec_position q))"
    if "ix_by_icount s' i = Some ctx" for i ctx
    using inv that by (auto simp: scan_inv_def s'_def split: if_splits option.splits)
  then show ?thesis
    using inv scan_old_candidates [OF inv up] unfolding s' scan_inv_def e c by simp
qed

lemma rec_wf_checkpoint_aux:
  assumes "rec_wf r" "rec_body r = (Ok (BisectionCheckpoint f fl g sr i v) :: (RecordBody, 'e) res)"
  shows "is_aux r"
  using assms
  by (auto simp: rec_wf_def validate_kind_def kind_class_aux_def rec_body_def Let_def is_aux_def split: if_splits)

lemma rec_wf_not_end:
  assumes "rec_body r = (Ok (End k h) :: (RecordBody, 'e) res)"
  shows "rec_kind r = KIND_END"
  using assms by (auto simp: rec_body_def Let_def split: if_splits)

lemma scan_step:
  assumes "scan_inv rs s" "rising (rs @ [r])" "rec_wf r" "rec_kind r \<noteq> KIND_END"
    "rec_body r = (Ok b :: (RecordBody, BisectionCheckpointIndexError) res)"
  shows "scan_inv (rs @ [r]) (index_step r b s)"
proof -
  have ne: "b \<noteq> End k h" for k h using rec_wf_not_end assms(4,5) by metis
  show ?thesis
  proof (cases b)
    case (EpochHash n h)
    with assms show ?thesis using scan_step_epoch by blast
  next
    case (BisectionCheckpoint f fl g sr i v)
    with assms show ?thesis using scan_step_checkpoint rec_wf_checkpoint_aux by metis
  qed (use assms ne in \<open>auto intro!: scan_step_other\<close>)
qed

lemma scan_inv_start: "scan_inv [] index_start"
  by (simp add: scan_inv_def index_start_def epochs_of_def List.map_filter_def)

lemma index_loop_inv:
  assumes "rising rs" "\<forall>r\<in>set rs. rec_wf r" "\<forall>r\<in>set rs. rec_kind r \<noteq> KIND_END"
  shows "\<exists>s. index_loop rs index_start = Ok s \<and> scan_inv rs s"
  using assms
proof (induction rs rule: rev_induct)
  case Nil
  then show ?case using scan_inv_start by simp
next
  case (snoc r rs)
  then obtain s where s: "index_loop rs index_start = Ok s" "scan_inv rs s" by (auto simp: rising_snoc)
  obtain b where b: "rec_body r = (Ok b :: (RecordBody, BisectionCheckpointIndexError) res)"
    using rec_wf_body snoc.prems(2) by fastforce
  with s snoc.prems show ?case by (auto simp: index_loop_append intro!: scan_step)
qed

text \<open>Scanning an accepted log: the END record fixes the end position and nothing else.\<close>

lemma index_loop_log:
  assumes "log_ok h rs"
  shows "\<exists>s. index_loop rs index_start = Ok s \<and> ix_end_position s = Some (rec_position (last rs))
     \<and> ix_epoch_hashes s = epochs_of rs \<and> (\<forall>c\<in>set (ix_candidates s). cd_position c < rec_position (last rs)
        \<and> (\<forall>e. cd_preceding_epoch_hash c = Some e \<longrightarrow> e \<in> set (epochs_of rs)
          \<and> (cd_intervening_canonical c = None \<longrightarrow> rp_icount (ieh_position e) = rp_icount (cd_position c)
               \<longrightarrow> adjacent rs e (cd_position c))))"
proof -
  have rs: "rs = butlast rs @ [last rs]" using assms by (simp add: log_ok_def)
  have up: "rising (butlast rs @ [last rs])" using log_ok_rising [OF assms] rs by simp
  have wf: "\<forall>r\<in>set (butlast rs). rec_wf r" "\<forall>r\<in>set (butlast rs). rec_kind r \<noteq> KIND_END"
    using assms by (auto simp: log_ok_def dest: in_set_butlastD)
  obtain s where s: "index_loop (butlast rs) index_start = Ok s" "scan_inv (butlast rs) s"
    using index_loop_inv [OF _ wf] up by (auto simp: rising_snoc)
  have "rec_wf (last rs)" "rec_kind (last rs) = KIND_END" "validate_end h (last rs) = Ok ()"
    using assms by (auto simp: log_ok_def)
  note eb = validate_end_body [OF this, where 'e = BisectionCheckpointIndexError]
  let ?s = "index_step (last rs) (End (rec_payload (last rs) ! 0) (hd_end_state_hash h)) s"
  have "index_loop (butlast rs @ [last rs]) index_start = Ok ?s"
    using s eb by (simp add: index_loop_append)
  then have l: "index_loop rs index_start = Ok ?s" using rs by simp
  have e: "epochs_of rs = epochs_of (butlast rs)"
    using eb by (subst rs) (simp add: epochs_of_snoc epoch_of_def)
  have ?thesis if "\<forall>c\<in>set (ix_candidates s). cd_position c < rec_position (last rs)
        \<and> (\<forall>e. cd_preceding_epoch_hash c = Some e \<longrightarrow> e \<in> set (epochs_of rs)
          \<and> (cd_intervening_canonical c = None \<longrightarrow> rp_icount (ieh_position e) = rp_icount (cd_position c)
               \<longrightarrow> adjacent rs e (cd_position c)))"
    using l that s(2) e by (auto simp: index_step_def scan_inv_def)
  moreover have "cd_position c < rec_position (last rs)" if "c \<in> set (ix_candidates s)" for c
    using s(2) that up by (auto simp: scan_inv_def rising_snoc)
  ultimately show ?thesis
    using scan_old_candidates [OF s(2) up] rs by auto
qed

section \<open>Properties\<close>

lemma check_candidate_total:
  "pi = map_option rp_icount pp \<Longrightarrow> check_candidate pp pi c \<noteq> Panic"
  by (auto simp: check_candidate_def res_bind_eq_Panic split: option.splits if_splits)

lemma check_candidate_link:
  assumes "check_candidate pp pi c = Ok k"
  shows "cd_preceding_epoch_hash c = Some (ibc_preceding_epoch_hash k) \<and> cd_intervening_canonical c = None
    \<and> ibc_position k = cd_position c \<and> cd_checkpoint_icount c = rp_icount (cd_position c)"
  using assms by (auto simp: check_candidate_def split: if_splits option.splits)

lemma candidates_total: "pi = map_option rp_icount pp \<Longrightarrow> candidates_loop pp pi cs \<noteq> Panic"
proof (induction pp pi cs rule: candidates_loop.induct)
  case (2 pp pi c cs)
  show ?case
  proof (cases "check_candidate pp pi c")
    case (Ok k)
    then have "candidates_loop (Some (cd_position c)) (Some (cd_checkpoint_icount c)) cs \<noteq> Panic"
      using check_candidate_link [OF Ok] by (intro "2.IH") simp
    with Ok show ?thesis by (simp add: res_bind_eq_Panic)
  qed (use check_candidate_total "2.prems" in auto)
qed simp

lemma candidates_link:
  "candidates_loop pp pi cs = Ok cps \<Longrightarrow> k \<in> set cps \<Longrightarrow> \<exists>c\<in>set cs. cd_preceding_epoch_hash c = Some (ibc_preceding_epoch_hash k)
     \<and> cd_intervening_canonical c = None \<and> ibc_position k = cd_position c"
proof (induction pp pi cs arbitrary: cps rule: candidates_loop.induct)
  case (2 pp pi c cs)
  then show ?case using check_candidate_link [of pp pi c] by fastforce
qed simp

lemma find_first:
  fixes f :: "'a \<Rightarrow> 'b::linorder"
  assumes "sorted_wrt (<) (map f xs)"
  shows "case find (\<lambda>x. e < f x) xs of
      None \<Rightarrow> \<forall>x\<in>set xs. f x \<le> e
    | Some y \<Rightarrow> y \<in> set xs \<and> e < f y \<and> (\<forall>x\<in>set xs. e < f x \<longrightarrow> f y \<le> f x)"
  using assms by (induction xs) (auto split: option.splits)

lemma find_rev_last: "xs \<noteq> [] \<Longrightarrow> P (last xs) \<Longrightarrow> find P (rev xs) = Some (last xs)"
  by (induction xs rule: rev_induct) auto

text \<open>What an index built from an accepted log contains.\<close>

lemma from_reader_parts:
  assumes "log_parse blake3 bytes = Ok lr" "from_reader lr = Ok ix"
  obtains rs where "log_records lr = Ok rs" "log_ok (lr_header lr) rs" "chained None (bi_checkpoints ix)"
    "bi_epoch_hashes ix = epochs_of rs" "bi_end_position ix = Some (rec_position (last rs))"
    "\<forall>k\<in>set (bi_checkpoints ix). ibc_position k < rec_position (last rs)
        \<and> ibc_preceding_epoch_hash k \<in> set (epochs_of rs) \<and> adjacent rs (ibc_preceding_epoch_hash k) (ibc_position k)"
proof -
  obtain rs where rs: "log_ok (lr_header lr) rs" "log_records lr = Ok rs"
    by (rule log_parse_format [OF assms(1)])
  obtain s where s: "index_loop rs index_start = Ok s" "ix_end_position s = Some (rec_position (last rs))"
    "ix_epoch_hashes s = epochs_of rs"
    and cand: "\<forall>c\<in>set (ix_candidates s). cd_position c < rec_position (last rs)
        \<and> (\<forall>e. cd_preceding_epoch_hash c = Some e \<longrightarrow> e \<in> set (epochs_of rs)
          \<and> (cd_intervening_canonical c = None \<longrightarrow> rp_icount (ieh_position e) = rp_icount (cd_position c)
               \<longrightarrow> adjacent rs e (cd_position c)))"
    using index_loop_log [OF rs(1)] by blast
  from assms(2) rs(2) s have cl: "candidates_loop None None (ix_candidates s) = Ok (bi_checkpoints ix)"
    and rest: "bi_epoch_hashes ix = epochs_of rs" "bi_end_position ix = Some (rec_position (last rs))"
    by (auto simp: from_reader_def from_candidates_def)
  have ch: "chained None (bi_checkpoints ix)" using candidates_chained [OF cl] by simp
  have "ibc_position k < rec_position (last rs) \<and> ibc_preceding_epoch_hash k \<in> set (epochs_of rs)
      \<and> adjacent rs (ibc_preceding_epoch_hash k) (ibc_position k)" if kin: "k \<in> set (bi_checkpoints ix)" for k
  proof -
    obtain c where c: "c \<in> set (ix_candidates s)" "cd_preceding_epoch_hash c = Some (ibc_preceding_epoch_hash k)"
      "cd_intervening_canonical c = None" "ibc_position k = cd_position c"
      using candidates_link [OF cl kin] by blast
    moreover have "rp_icount (ieh_position (ibc_preceding_epoch_hash k)) = rp_icount (ibc_position k)"
      using chained_mem [OF ch kin] by simp
    ultimately show ?thesis using cand by auto
  qed
  with rs rest ch show thesis by (intro that) auto
qed

text \<open>
  C34. The checkpoint index has no holes. For every log the reader accepts, building the index
  never panics, and if it succeeds: checkpoints are in log order; each one captures the icount of
  an epoch hash that precedes it with no canonical record in between; the checkpoint selected for
  a diverging epoch hash is exactly the first one recorded after that epoch hash, its coverage
  contains the epoch's icount, and none is selected only when no checkpoint follows; and for a
  terminal divergence the last checkpoint is selected.
\<close>

theorem bisection_no_holes:
  assumes "log_parse blake3 bytes = Ok lr"
  shows "from_reader lr \<noteq> Panic \<and> (from_reader lr = Ok ix \<longrightarrow>
      sorted_wrt (<) (map ibc_position (bi_checkpoints ix))
    \<and> (\<forall>k\<in>set (bi_checkpoints ix). ibc_preceding_epoch_hash k \<in> set (bi_epoch_hashes ix)
        \<and> rp_icount (ieh_position (ibc_preceding_epoch_hash k)) = ibc_checkpoint_icount k
        \<and> ieh_position (ibc_preceding_epoch_hash k) < ibc_position k
        \<and> (\<forall>rs. log_records lr = Ok rs \<longrightarrow> adjacent rs (ibc_preceding_epoch_hash k) (ibc_position k)))
    \<and> (find (\<lambda>e. ieh_epoch_index e = n \<and> rp_icount (ieh_position e) = i) (bi_epoch_hashes ix) = Some e \<longrightarrow>
        (case select_epoch_hash_divergence n i ix of
           None \<Rightarrow> \<forall>k\<in>set (bi_checkpoints ix). ibc_position k \<le> ieh_position e
         | Some sel \<Rightarrow> sel_checkpoint sel \<in> set (bi_checkpoints ix) \<and> ieh_position e < ibc_position (sel_checkpoint sel)
             \<and> (\<forall>k\<in>set (bi_checkpoints ix). ieh_position e < ibc_position k \<longrightarrow> ibc_position (sel_checkpoint sel) \<le> ibc_position k)
             \<and> sel_coverage_icount_lo sel \<le> i \<and> i \<le> sel_coverage_icount_hi sel))
    \<and> map_option sel_checkpoint (select_terminal_divergence (hd_end_icount (lr_header lr)) ix)
        = (if bi_checkpoints ix = [] then None else Some (last (bi_checkpoints ix))))"
proof (intro conjI impI)
  obtain rs where rs: "log_ok (lr_header lr) rs" "log_records lr = Ok rs"
    by (rule log_parse_format [OF assms])
  obtain s where "index_loop rs index_start = Ok s" using index_loop_log [OF rs(1)] by blast
  then show "from_reader lr \<noteq> Panic"
    using rs(2) candidates_total [of None None] by (simp add: from_reader_def from_candidates_def res_bind_eq_Panic)
next
  assume ix: "from_reader lr = Ok ix"
  obtain rs where rs: "log_records lr = Ok rs" "log_ok (lr_header lr) rs" and ch: "chained None (bi_checkpoints ix)"
    and ep: "bi_epoch_hashes ix = epochs_of rs" and en: "bi_end_position ix = Some (rec_position (last rs))"
    and k: "\<forall>k\<in>set (bi_checkpoints ix). ibc_position k < rec_position (last rs)
        \<and> ibc_preceding_epoch_hash k \<in> set (epochs_of rs) \<and> adjacent rs (ibc_preceding_epoch_hash k) (ibc_position k)"
    by (rule from_reader_parts [OF assms ix])
  show so: "sorted_wrt (<) (map ibc_position (bi_checkpoints ix))" using chained_sorted [OF ch] by simp
  show "\<forall>k\<in>set (bi_checkpoints ix). ibc_preceding_epoch_hash k \<in> set (bi_epoch_hashes ix)
      \<and> rp_icount (ieh_position (ibc_preceding_epoch_hash k)) = ibc_checkpoint_icount k
      \<and> ieh_position (ibc_preceding_epoch_hash k) < ibc_position k
      \<and> (\<forall>rs. log_records lr = Ok rs \<longrightarrow> adjacent rs (ibc_preceding_epoch_hash k) (ibc_position k))"
    using k rs(1) chained_mem [OF ch] by (auto simp: ep)
  show "case select_epoch_hash_divergence n i ix of
         None \<Rightarrow> \<forall>k\<in>set (bi_checkpoints ix). ibc_position k \<le> ieh_position e
       | Some sel \<Rightarrow> sel_checkpoint sel \<in> set (bi_checkpoints ix) \<and> ieh_position e < ibc_position (sel_checkpoint sel)
           \<and> (\<forall>k\<in>set (bi_checkpoints ix). ieh_position e < ibc_position k \<longrightarrow> ibc_position (sel_checkpoint sel) \<le> ibc_position k)
           \<and> sel_coverage_icount_lo sel \<le> i \<and> i \<le> sel_coverage_icount_hi sel"
    if e: "find (\<lambda>e. ieh_epoch_index e = n \<and> rp_icount (ieh_position e) = i) (bi_epoch_hashes ix) = Some e"
  proof -
    have "rp_icount (ieh_position e) = i" using e by (auto simp: find_Some_iff)
    moreover have "find (\<lambda>c. covers_epoch_position c (ieh_position e)) (bi_checkpoints ix)
        = find (\<lambda>c. ieh_position e < ibc_position c) (bi_checkpoints ix)"
      using ch by (rule chained_covers) simp
    moreover have "covers_epoch_position c (ieh_position e)"
      if "find (\<lambda>c. covers_epoch_position c (ieh_position e)) (bi_checkpoints ix) = Some c" for c
      using that by (auto simp: find_Some_iff)
    ultimately show ?thesis
      using find_first [OF so, of "ieh_position e"]
      by (auto simp: select_epoch_hash_divergence_def e covers_epoch_position_def coverage_icount_hi_def split: option.splits)
  qed
  have "rec_icount (last rs) = hd_end_icount (lr_header lr)"
    using rs(2) validate_end_body [of "last rs" "lr_header lr"] by (auto simp: log_ok_def)
  moreover have "ibc_position c < rec_position (last rs) \<and> ibc_checkpoint_icount c \<le> rec_icount (last rs)"
    if "c \<in> set (bi_checkpoints ix)" for c
    using k that chained_mem [OF ch that] by (auto simp: less_RecordPosition_def rec_position_sel)
  ultimately show "map_option sel_checkpoint (select_terminal_divergence (hd_end_icount (lr_header lr)) ix)
      = (if bi_checkpoints ix = [] then None else Some (last (bi_checkpoints ix)))"
    by (auto simp: select_terminal_divergence_def en rec_position_sel find_rev_last option.map_comp comp_def)
qed

lemma rec_body_cast:
  "(rec_body r :: (RecordBody, 'e) res) = Ok b \<Longrightarrow> (rec_body r :: (RecordBody, 'f) res) = Ok b"
  by (auto simp: rec_body_def Let_def rd_u16_def rd_u32_def rd_u64_def slice_res_def index_res_def split: if_splits)

text \<open>A recorded segment with one epoch and its checkpoint.\<close>

definition ex_bi_ops :: "LogOp list" where
  "ex_bi_ops = [OpEpochHash 100 0x1000 1 (zeros 32), OpBisectionCheckpoint 100 0x1000 100 (zeros 32) 100]"

lemma log_record_ok:
  assumes "length p \<le> MAX_PAYLOAD" "lw_record_count w = 0 \<or> lw_last_icount w \<le> i" "unat (lw_record_count w) < 2 ^ 32"
  shows "\<exists>w'. log_record k f i b p w = (Ok (), w') \<and> lw_record_count w' = lw_record_count w + 1 \<and> lw_last_icount w' = i"
  using assms by (auto simp: log_record_def word_of_nat_opt_def word_gt_0)

lemma epoch_hash_ok:
  assumes "is_b32 cv" "lw_record_count w = 0 \<or> lw_last_icount w \<le> i" "unat (lw_record_count w) < 2 ^ 32"
  shows "\<exists>w'. epoch_hash i b e cv w = (Ok (), w') \<and> lw_record_count w' = lw_record_count w + 1 \<and> lw_last_icount w' = i"
proof -
  let ?p = "overwrite (overwrite (zeros 40) 0 (to_le e)) 8 cv"
  have "length ?p \<le> MAX_PAYLOAD" using assms(1) by (simp add: wire)
  from log_record_ok [OF this assms(2,3), of KIND_EPOCH_HASH RFLAG_AUX b] obtain w' where
    "log_record KIND_EPOCH_HASH RFLAG_AUX i b ?p w = (Ok (), w')" "lw_record_count w' = lw_record_count w + 1"
    "lw_last_icount w' = i" by blast
  then show ?thesis by (simp add: epoch_hash_def)
qed

lemma bisection_checkpoint_ok:
  assumes "is_b32 sr" "lw_record_count w = 0 \<or> lw_last_icount w \<le> i" "unat (lw_record_count w) < 2 ^ 32"
  shows "\<exists>w'. bisection_checkpoint i b g sr v w = (Ok (), w') \<and> lw_record_count w' = lw_record_count w + 1 \<and> lw_last_icount w' = i"
  unfolding bisection_checkpoint_def Let_def
  by (rule log_record_ok) (use assms in \<open>simp_all add: wire\<close>)

lemma ex_bi_run:
  "accepted ex_bi_ops (log_new ex_header) = ex_bi_ops"
  "lw_record_count (run_ops ex_bi_ops (log_new ex_header)) = 2"
  "lw_last_icount (run_ops ex_bi_ops (log_new ex_header)) = 100"
proof -
  have z: "is_b32 (zeros 32)" by (simp add: is_b32_def)
  obtain w1 where w1: "epoch_hash 100 0x1000 1 (zeros 32) (log_new ex_header) = (Ok (), w1)" "lw_record_count w1 = 1" "lw_last_icount w1 = 100"
    using epoch_hash_ok [OF z, where w = "log_new ex_header" and i = 100 and b = "0x1000" and e = 1] by (auto simp: log_new_def)
  obtain w2 where w2: "bisection_checkpoint 100 0x1000 100 (zeros 32) 100 w1 = (Ok (), w2)" "lw_record_count w2 = 2" "lw_last_icount w2 = 100"
    using bisection_checkpoint_ok [OF z, where w = w1 and i = 100 and b = "0x1000" and g = 100 and v = 100] w1 by auto
  show "accepted ex_bi_ops (log_new ex_header) = ex_bi_ops"
    "lw_record_count (run_ops ex_bi_ops (log_new ex_header)) = 2"
    "lw_last_icount (run_ops ex_bi_ops (log_new ex_header)) = 100"
    using w1 w2 by (simp_all add: ex_bi_ops_def)
qed

lemma ex_bi_log:
  "\<exists>bytes lr e c r. log_parse (\<lambda>_. zeros 32) bytes = Ok lr \<and> log_records lr = Ok [e, c, r]
     \<and> rec_body e = (Ok (EpochHash 1 (zeros 32)) :: (RecordBody, BisectionCheckpointIndexError) res)
     \<and> rec_body c = (Ok (BisectionCheckpoint 1 0 100 (zeros 32) 100 100) :: (RecordBody, BisectionCheckpointIndexError) res)
     \<and> rec_position e = RecordPosition 100 0 \<and> rec_position c = RecordPosition 100 1
     \<and> rec_body r = (Ok (End 2 (zeros 32)) :: (RecordBody, BisectionCheckpointIndexError) res)"
proof -
  let ?w = "run_ops ex_bi_ops (log_new ex_header)"
  have ops: "\<forall>op \<in> set ex_bi_ops. op_typed op" by (simp add: ex_bi_ops_def is_b32_def)
  have "\<exists>bytes. log_seal (\<lambda>_. zeros 32) ex_params ?w = Ok bytes"
    by (rule log_seal_succeeds)
      (simp_all add: ex_bi_run ex_params_def is_b32_def)
  then obtain bytes where b: "log_seal (\<lambda>_. zeros 32) ex_params ?w = Ok bytes" by blast
  have h: "lw_header ?w = ex_header" using ops by (simp add: log_new_def)
  from run_ops_writes [OF ops writes_new [of ex_header]] obtain rs where w: "writes ?w rs"
    and bd: "map (\<lambda>r. (rec_icount r, rec_boundary_rip r)) rs = map op_boundary ex_bi_ops"
    and bo: "map rec_body rs = map (\<lambda>op. Ok (op_body op) :: (RecordBody, unit) res) ex_bi_ops"
    by (auto simp: ex_bi_run)
  obtain e c where ec: "rs = [e, c]" "rec_icount e = 100" "rec_icount c = 100"
    "rec_body e = (Ok (EpochHash 1 (zeros 32)) :: (RecordBody, unit) res)"
    "rec_body c = (Ok (BisectionCheckpoint 1 0 100 (zeros 32) 100 100) :: (RecordBody, unit) res)"
    using bd bo by (auto simp: ex_bi_ops_def map_eq_Cons_conv)
  have "unat (rec_seq e) = 0" "unat (rec_seq c) = 1" using w ec(1) by (auto simp: writes_def less_Suc_eq)
  then have "rec_position e = RecordPosition 100 0" "rec_position c = RecordPosition 100 1"
    using ec by (auto simp: rec_position_def word_unat_eq_iff)
  moreover have "rec_body e = (Ok (EpochHash 1 (zeros 32)) :: (RecordBody, BisectionCheckpointIndexError) res)"
    "rec_body c = (Ok (BisectionCheckpoint 1 0 100 (zeros 32) 100 100) :: (RecordBody, BisectionCheckpointIndexError) res)"
    by (rule rec_body_cast [OF ec(4)], rule rec_body_cast [OF ec(5)])
  moreover obtain seq body where
    "log_parse (\<lambda>_. zeros 32) bytes = Ok \<lparr>lr_header = sealed_header (\<lambda>_. zeros 32) ex_params ?w body, lr_body = body\<rparr>"
    "records_from body 0 = Ok (rs @ [end_record ex_params seq])"
    by (rule seal_writes_parse [OF w _ _ _ _ b]) (simp_all add: h)
  moreover have "params_typed ex_params" "End (sp_stop_reason ex_params) (sp_end_state_hash ex_params) = End 2 (zeros 32)"
    by (simp_all add: params_typed_def ex_params_def is_b32_def)
  ultimately show ?thesis
    using ec end_record_body [of ex_params seq]
    by (intro exI [of _ bytes] exI [of _ "\<lparr>lr_header = sealed_header (\<lambda>_. zeros 32) ex_params ?w body, lr_body = body\<rparr>"]
        exI [of _ e] exI [of _ c] exI [of _ "end_record ex_params seq"])
      (simp add: log_records_def)
qed

lemma ex_bi_index:
  assumes "rec_body e = (Ok (EpochHash 1 (zeros 32)) :: (RecordBody, BisectionCheckpointIndexError) res)"
    "rec_body c = (Ok (BisectionCheckpoint 1 0 100 (zeros 32) 100 100) :: (RecordBody, BisectionCheckpointIndexError) res)"
    "rec_position e = RecordPosition 100 0" "rec_position c = RecordPosition 100 1"
    "rec_body r = (Ok (End k h) :: (RecordBody, BisectionCheckpointIndexError) res)"
  shows "\<exists>ep. res_bind (index_loop [e, c, r] index_start) (\<lambda>s.
       from_candidates (ix_epoch_hashes s) (ix_end_position s) (ix_candidates s))
     = Ok \<lparr>bi_checkpoints = [\<lparr>ibc_position = RecordPosition 100 1, ibc_checkpoint_icount = 100, ibc_checkpoint_vns = 100,
     ibc_checkpoint_snapshot_ref = zeros 32, ibc_max_covered_gap = 100,
     ibc_preceding_epoch_hash = \<lparr>ieh_epoch_index = 1, ieh_position = RecordPosition 100 0\<rparr>\<rparr>],
         bi_epoch_hashes = [\<lparr>ieh_epoch_index = 1, ieh_position = RecordPosition 100 0\<rparr>], bi_end_position = ep\<rparr>"
  using assms
  by (simp add: index_step_def index_start_def from_candidates_def check_candidate_def
      less_eq_RecordPosition_def ok_or_def Let_def)

theorem bisection_no_holes_witness:
  "\<exists>bytes lr ix sel. log_parse (\<lambda>_. zeros 32) bytes = Ok lr \<and> from_reader lr = Ok ix
     \<and> select_epoch_hash_divergence 1 100 ix = Some sel \<and> sel_checkpoint sel = last (bi_checkpoints ix)
     \<and> sel_coverage_icount_lo sel \<le> 100 \<and> 100 \<le> sel_coverage_icount_hi sel"
proof -
  obtain bytes lr e c r where p: "log_parse (\<lambda>_. zeros 32) bytes = Ok lr" and rs: "log_records lr = Ok [e, c, r]"
    and be: "rec_body e = (Ok (EpochHash 1 (zeros 32)) :: (RecordBody, BisectionCheckpointIndexError) res)"
    and bc: "rec_body c = (Ok (BisectionCheckpoint 1 0 100 (zeros 32) 100 100) :: (RecordBody, BisectionCheckpointIndexError) res)"
    and pe: "rec_position e = RecordPosition 100 0" and pc: "rec_position c = RecordPosition 100 1"
    and bR: "rec_body r = (Ok (End 2 (zeros 32)) :: (RecordBody, BisectionCheckpointIndexError) res)"
    using ex_bi_log by blast
  let ?e = "\<lparr>ieh_epoch_index = 1, ieh_position = RecordPosition 100 0\<rparr>"
  let ?c = "\<lparr>cd_position = RecordPosition 100 1, cd_format_version = 1, cd_flags = 0, cd_max_covered_gap = 100,
       cd_checkpoint_snapshot_ref = zeros 32, cd_checkpoint_icount = 100, cd_checkpoint_vns = 100,
       cd_preceding_epoch_hash = Some ?e, cd_intervening_canonical = None\<rparr>"
  let ?k = "\<lparr>ibc_position = RecordPosition 100 1, ibc_checkpoint_icount = 100, ibc_checkpoint_vns = 100,
     ibc_checkpoint_snapshot_ref = zeros 32, ibc_max_covered_gap = 100, ibc_preceding_epoch_hash = ?e\<rparr>"
  obtain ep where ep: "from_reader lr = Ok \<lparr>bi_checkpoints = [?k], bi_epoch_hashes = [?e], bi_end_position = ep\<rparr>"
    using ex_bi_index [OF be bc pe pc bR] rs by (auto simp: from_reader_def)
  let ?ix = "\<lparr>bi_checkpoints = [?k], bi_epoch_hashes = [?e], bi_end_position = ep\<rparr>"
  obtain sel where sel: "select_epoch_hash_divergence 1 100 ?ix = Some sel"
    by (auto simp: select_epoch_hash_divergence_def covers_epoch_position_def coverage_icount_lo_def less_RecordPosition_def)
  have "sel_checkpoint sel = ?k \<and> sel_coverage_icount_lo sel \<le> 100 \<and> 100 \<le> sel_coverage_icount_hi sel"
    using bisection_no_holes [OF p, of ?ix 1 100 ?e] ep sel by simp
  with p ep sel show ?thesis by (metis last.simps BisectionCheckpointIndex.select_convs(1))
qed

end
