(* ===== verification/Cmdline.thy ===== *)
theory Cmdline
  imports Dh_Prelude
begin

text \<open>
  The kernel command line of a Linux boot, \<open>crates/dh-vmm/src/config.rs\<close>: the forced baseline, the
  parser of the caller's extras and the canonical form. The theorems say that the accepted lines are
  exactly the baseline followed by an optional \<open>quiet\<close> and an optional log level.
\<close>

text \<open>A byte-string literal.\<close>

definition bytes_of :: "string \<Rightarrow> byte list" where
  "bytes_of s = map of_char s"

datatype ConfigError =
    UnsupportedVersion
  | MemNotAligned
  | VcpusNotOne
  | ZeroEpochLen
  | CmdlineTooLong
  | BzImageCmdlineNonAscii
  | BzImageCmdlineNul
  | BzImageCmdlineEmptyToken
  | BzImageCmdlineUnsupportedToken
  | BzImageCmdlineDuplicateToken
  | BzImageCmdlineBaselineOverride
  | BzImageCmdlineNotCanonical
  | CpuidTableTooLarge
  | DeviceSetTooLarge
  | CpuidTableUnsorted
  | DeviceSetUnsorted

abbreviation MAX_CMDLINE :: nat where "MAX_CMDLINE \<equiv> 4096"

definition BZIMAGE_FORCED_CMDLINE :: "byte list" where
  "BZIMAGE_FORCED_CMDLINE = bytes_of ''console=ttyS0 nokaslr norandmaps random.trust_cpu=off random.trust_bootloader=on page_alloc.shuffle=0 notsc tsc=unstable clocksource=jiffies vdso=0 lpj=4096 noapictimer default_hugepagesz=2M hugepagesz=2M hugepages=1 init=/init''"

record BzImageCmdlineExtras =
  cx_quiet :: bool
  cx_loglevel :: "u8 option"

definition extras_default :: BzImageCmdlineExtras where
  "extras_default = \<lparr>cx_quiet = False, cx_loglevel = None\<rparr>"

text \<open>\<open>slice::strip_prefix\<close>, \<open>u8::is_ascii_whitespace\<close>, \<open>slice::split\<close> and \<open>windows(2)\<close>.\<close>

definition strip_prefix :: "byte list \<Rightarrow> byte list \<Rightarrow> byte list option" where
  "strip_prefix p xs = (if take (length p) xs = p then Some (drop (length p) xs) else None)"

definition is_ascii_whitespace :: "byte \<Rightarrow> bool" where
  "is_ascii_whitespace b \<longleftrightarrow> b = 32 \<or> b = 9 \<or> b = 10 \<or> b = 12 \<or> b = 13"

fun split_at :: "('a \<Rightarrow> bool) \<Rightarrow> 'a list \<Rightarrow> 'a list list" where
  "split_at P [] = [[]]"
| "split_at P (x # xs) =
     (if P x then [] # split_at P xs
      else case split_at P xs of [] \<Rightarrow> [[x]] | t # ts \<Rightarrow> (x # t) # ts)"

definition windows2 :: "'a list \<Rightarrow> ('a \<times> 'a) list" where
  "windows2 xs = zip xs (tl xs)"

definition forced_keys :: "byte list list" where
  "forced_keys = map bytes_of [''console'', ''nokaslr'', ''norandmaps'', ''random.trust_cpu'', ''random.trust_bootloader'',
     ''page_alloc.shuffle'', ''notsc'', ''tsc'', ''clocksource'', ''vdso'', ''lpj'', ''noapictimer'',
     ''default_hugepagesz'', ''hugepagesz'', ''hugepages'', ''init'']"

definition is_forced_bzimage_baseline_key :: "byte list \<Rightarrow> bool" where
  "is_forced_bzimage_baseline_key token \<longleftrightarrow> hd (split_at (\<lambda>b. b = 61) token) \<in> set forced_keys"

text \<open>One token of the extras.\<close>

definition parse_token :: "byte list \<Rightarrow> BzImageCmdlineExtras \<Rightarrow> (BzImageCmdlineExtras, ConfigError) res" where
  "parse_token token parsed =
     (if is_forced_bzimage_baseline_key token then Err BzImageCmdlineBaselineOverride
      else if token = bytes_of ''quiet'' then
        (if cx_quiet parsed then Err BzImageCmdlineDuplicateToken else Ok (parsed\<lparr>cx_quiet := True\<rparr>))
      else case strip_prefix (bytes_of ''loglevel='') token of
        Some raw \<Rightarrow>
          if cx_loglevel parsed \<noteq> None then Err BzImageCmdlineDuplicateToken
          else if length raw \<noteq> 1 \<or> \<not> (48 \<le> hd raw \<and> hd raw \<le> 55) then Err BzImageCmdlineUnsupportedToken
          else Ok (parsed\<lparr>cx_loglevel := Some (hd raw - 48)\<rparr>)
      | None \<Rightarrow> Err BzImageCmdlineUnsupportedToken)"

fun parse_tokens :: "byte list list \<Rightarrow> BzImageCmdlineExtras \<Rightarrow> (BzImageCmdlineExtras, ConfigError) res" where
  "parse_tokens [] parsed = Ok parsed"
| "parse_tokens (t # ts) parsed = res_bind (parse_token t parsed) (parse_tokens ts)"

definition parse_bzimage_cmdline_extras :: "byte list \<Rightarrow> (BzImageCmdlineExtras, ConfigError) res" where
  "parse_bzimage_cmdline_extras extras =
     (if extras = [] then Ok extras_default
      else if 0 \<in> set extras then Err BzImageCmdlineNul
      else if \<not> list_all (\<lambda>b. b < 128) extras then Err BzImageCmdlineNonAscii
      else if is_ascii_whitespace (hd extras) \<or> is_ascii_whitespace (last extras)
          \<or> list_ex (\<lambda>(a, b). is_ascii_whitespace a \<and> is_ascii_whitespace b) (windows2 extras)
        then Err BzImageCmdlineEmptyToken
      else parse_tokens (split_at is_ascii_whitespace extras) extras_default)"

definition compose_bzimage_cmdline :: "byte list \<Rightarrow> BzImageCmdlineExtras \<Rightarrow> (byte list, ConfigError) res" where
  "compose_bzimage_cmdline baseline extras =
     (let out = baseline;
          out = (if cx_quiet extras then out @ bytes_of '' quiet'' else out);
          out = (case cx_loglevel extras of
                   Some level \<Rightarrow> out @ bytes_of '' loglevel='' @ [48 + level]
                 | None \<Rightarrow> out)
      in if length out > MAX_CMDLINE then Err CmdlineTooLong else Ok out)"

definition canonicalize_bzimage_cmdline_extras :: "byte list \<Rightarrow> (byte list, ConfigError) res" where
  "canonicalize_bzimage_cmdline_extras extras =
     res_bind (parse_bzimage_cmdline_extras extras) (compose_bzimage_cmdline BZIMAGE_FORCED_CMDLINE)"

definition bzimage_cmdline_extras_from_canonical :: "byte list \<Rightarrow> (byte list, ConfigError) res" where
  "bzimage_cmdline_extras_from_canonical cmdline =
     (if cmdline = BZIMAGE_FORCED_CMDLINE then Ok []
      else case strip_prefix BZIMAGE_FORCED_CMDLINE cmdline of
        None \<Rightarrow> Err BzImageCmdlineNotCanonical
      | Some rest \<Rightarrow> (case strip_prefix (bytes_of '' '') rest of
            None \<Rightarrow> Err BzImageCmdlineNotCanonical
          | Some extras \<Rightarrow>
              res_bind (canonicalize_bzimage_cmdline_extras extras) (\<lambda>recanonicalized.
                if recanonicalized \<noteq> cmdline then Err BzImageCmdlineNotCanonical else Ok extras)))"

definition validate_canonical_bzimage_cmdline :: "byte list \<Rightarrow> (unit, ConfigError) res" where
  "validate_canonical_bzimage_cmdline cmdline =
     (if length cmdline > MAX_CMDLINE then Err CmdlineTooLong
      else res_bind (bzimage_cmdline_extras_from_canonical cmdline) (\<lambda>_. Ok ()))"

section \<open>The canonical lines\<close>

text \<open>What a parsed extra can be: the log level is a digit.\<close>

definition extras_ok :: "BzImageCmdlineExtras \<Rightarrow> bool" where
  "extras_ok x \<longleftrightarrow> (\<forall>l. cx_loglevel x = Some l \<longrightarrow> l < 8)"

text \<open>The extras as text, without the leading space.\<close>

definition extras_text :: "BzImageCmdlineExtras \<Rightarrow> byte list" where
  "extras_text x = (if cx_quiet x then bytes_of ''quiet'' else [])
     @ (if cx_quiet x \<and> cx_loglevel x \<noteq> None then bytes_of '' '' else [])
     @ (case cx_loglevel x of None \<Rightarrow> [] | Some l \<Rightarrow> bytes_of ''loglevel='' @ [48 + l])"

lemma bytes_of_append: "bytes_of (s @ t) = bytes_of s @ bytes_of t"
  by (simp add: bytes_of_def)

lemma length_bytes_of [simp]: "length (bytes_of s) = length s"
  by (simp add: bytes_of_def)

lemma forced_length: "length BZIMAGE_FORCED_CMDLINE = 227"
  by (simp add: BZIMAGE_FORCED_CMDLINE_def)

lemma level_cases: "l < 8 \<Longrightarrow> l \<in> {0, 1, 2, 3, 4, 5, 6, 7 :: u8}"
proof -
  assume "l < 8"
  then have "unat l < 8" by (simp add: word_less_nat_alt)
  then have "unat l \<in> {0, 1, 2, 3, 4, 5, 6, 7}" by auto
  then show ?thesis by (auto simp: word_unat_eq_iff)
qed

text \<open>The parser reads back what the composer writes.\<close>

lemma bytes_of_simps: "bytes_of [] = []" "bytes_of (c # s) = of_char c # bytes_of s"
  by (simp_all add: bytes_of_def)

lemma split_at_none: "list_all (\<lambda>x. \<not> P x) xs \<Longrightarrow> split_at P xs = [xs]"
  by (induction xs) auto

lemma split_at_sep: "list_all (\<lambda>x. \<not> P x) xs \<Longrightarrow> P s \<Longrightarrow> split_at P (xs @ s # ys) = xs # split_at P ys"
  by (induction xs) auto

lemma windows2_append:
  "windows2 (xs @ y # ys) = windows2 xs @ (if xs = [] then [] else [(last xs, y)]) @ windows2 (y # ys)"
  by (induction xs rule: induct_list012) (auto simp: windows2_def)

lemma windows2_Cons: "windows2 (x # y # ys) = (x, y) # windows2 (y # ys)"
  by (simp add: windows2_def)

definition plain :: "byte \<Rightarrow> bool" where
  "plain b \<longleftrightarrow> b \<noteq> 0 \<and> b < 128 \<and> \<not> is_ascii_whitespace b"

lemma plain_quiet: "list_all plain (bytes_of ''quiet'')"
  by (simp add: bytes_of_simps plain_def is_ascii_whitespace_def)

lemma plain_level: "l < 8 \<Longrightarrow> list_all plain (bytes_of ''loglevel='' @ [48 + l])"
  using level_cases [of l] by (auto simp: bytes_of_simps plain_def is_ascii_whitespace_def)

lemma plain_split: "list_all plain xs \<Longrightarrow> list_all (\<lambda>b. \<not> is_ascii_whitespace b) xs"
  by (simp add: list_all_iff plain_def)

lemma plain_windows: "list_all plain xs \<Longrightarrow> \<not> list_ex (\<lambda>(a, b). is_ascii_whitespace a \<and> is_ascii_whitespace b) (windows2 xs)"
  by (auto simp: list_all_iff list_ex_iff windows2_def plain_def dest!: set_zip_leftD)

lemma parse_one:
  assumes "list_all plain xs" "xs \<noteq> []"
  shows "parse_bzimage_cmdline_extras xs = parse_tokens [xs] extras_default"
proof -
  have "plain (hd xs)" "plain (last xs)" "0 \<notin> set xs" "list_all (\<lambda>b. b < 128) xs"
    using assms by (auto simp: list_all_iff plain_def)
  with assms plain_windows [OF assms(1)] split_at_none [OF plain_split [OF assms(1)]] show ?thesis
    by (simp add: parse_bzimage_cmdline_extras_def plain_def)
qed

lemma parse_two:
  assumes "list_all plain xs" "xs \<noteq> []" "list_all plain ys" "ys \<noteq> []"
  shows "parse_bzimage_cmdline_extras (xs @ 32 # ys) = parse_tokens [xs, ys] extras_default"
proof -
  obtain y zs where y: "ys = y # zs" using assms(4) by (cases ys) auto
  have p: "plain (hd xs)" "plain (last ys)" "plain (last xs)" "plain y" "0 \<notin> set (xs @ 32 # ys)" "list_all (\<lambda>b. b < 128) (xs @ 32 # ys)"
    using assms y by (auto simp: list_all_iff plain_def)
  have "is_ascii_whitespace 32" by (simp add: is_ascii_whitespace_def)
  then have "split_at is_ascii_whitespace (xs @ 32 # ys) = [xs, ys]"
    by (simp add: split_at_sep [OF plain_split [OF assms(1)]] split_at_none [OF plain_split [OF assms(3)]])
  moreover have "\<not> list_ex (\<lambda>(a, b). is_ascii_whitespace a \<and> is_ascii_whitespace b) (windows2 (xs @ 32 # ys))"
    using p plain_windows [OF assms(1)] plain_windows [OF assms(3)] assms(2)
    by (simp add: windows2_append y windows2_Cons plain_def)
  ultimately show ?thesis
    using assms(2,4) p by (simp add: parse_bzimage_cmdline_extras_def plain_def)
qed

lemma token_quiet: "\<not> cx_quiet p \<Longrightarrow> parse_token (bytes_of ''quiet'') p = Ok (p\<lparr>cx_quiet := True\<rparr>)"
  by (simp add: parse_token_def is_forced_bzimage_baseline_key_def forced_keys_def bytes_of_simps)

lemma token_level:
  assumes "l < 8" "cx_loglevel p = None"
  shows "parse_token (bytes_of ''loglevel='' @ [48 + l]) p = Ok (p\<lparr>cx_loglevel := Some l\<rparr>)"
proof -
  have k: "bytes_of ''loglevel='' = bytes_of ''loglevel'' @ [61]" by (simp add: bytes_of_simps)
  have "split_at (\<lambda>b. b = 61) (bytes_of ''loglevel='' @ [48 + l]) = bytes_of ''loglevel'' # split_at (\<lambda>b. b = 61) [48 + l]"
    using split_at_sep [of "\<lambda>b. b = 61" "bytes_of ''loglevel''" 61 "[48 + l]"] by (simp add: k) (simp add: bytes_of_simps)
  then have f: "\<not> is_forced_bzimage_baseline_key (bytes_of ''loglevel='' @ [48 + l])"
    by (simp add: is_forced_bzimage_baseline_key_def forced_keys_def bytes_of_simps)
  have d: "48 \<le> 48 + l \<and> 48 + l \<le> 55" using level_cases [OF assms(1)] by auto
  have "bytes_of ''loglevel='' @ [48 + l] \<noteq> bytes_of ''quiet''"
    by (simp add: bytes_of_simps)
  with f d assms(2) show ?thesis by (simp add: parse_token_def strip_prefix_def)
qed

lemma parse_extras_text: "extras_ok x \<Longrightarrow> parse_bzimage_cmdline_extras (extras_text x) = Ok x"
proof -
  assume ok: "extras_ok x"
  have sp: "bytes_of '' '' = [32]" by (simp add: bytes_of_simps)
  note q = plain_quiet and t = token_quiet
  have l: "list_all plain (bytes_of ''loglevel='' @ [48 + l])" "parse_token (bytes_of ''loglevel='' @ [48 + l]) p = Ok (p\<lparr>cx_loglevel := Some l\<rparr>)"
    if "cx_loglevel x = Some l" "cx_loglevel p = None" for l p
    using ok that plain_level token_level by (auto simp: extras_ok_def)
  have ne: "bytes_of ''quiet'' \<noteq> []" "bytes_of ''loglevel='' @ [48 + l] \<noteq> []" for l by (simp_all add: bytes_of_simps)
  obtain b lv where x: "x = \<lparr>cx_quiet = b, cx_loglevel = lv\<rparr>" by (cases x)
  show ?thesis
  proof (cases lv)
    case None
    then show ?thesis using parse_one [OF q ne(1)] token_quiet [of extras_default]
      by (cases b) (simp_all add: x extras_text_def extras_default_def parse_bzimage_cmdline_extras_def [of "[]"])
  next
    case (Some v)
    then show ?thesis
      using l [of v] parse_one [OF l(1) ne(2), of v extras_default] parse_two [OF q ne(1) l(1) ne(2), of v extras_default] token_quiet [of extras_default]
      by (cases b) (simp_all add: x extras_text_def extras_default_def sp)
  qed
qed

definition canonical_line :: "BzImageCmdlineExtras \<Rightarrow> byte list" where
  "canonical_line x = BZIMAGE_FORCED_CMDLINE @ (if extras_text x = [] then [] else bytes_of '' '' @ extras_text x)"

lemma length_extras_text: "length (extras_text x) \<le> 16"
  by (simp add: extras_text_def split: option.split)

lemma compose_line: "compose_bzimage_cmdline BZIMAGE_FORCED_CMDLINE x = Ok (canonical_line x)"
proof -
  have "BZIMAGE_FORCED_CMDLINE @ (if cx_quiet x then bytes_of '' quiet'' else [])
      @ (case cx_loglevel x of Some level \<Rightarrow> bytes_of '' loglevel='' @ [48 + level] | None \<Rightarrow> []) = canonical_line x"
    by (auto simp: canonical_line_def extras_text_def bytes_of_simps split: option.split)
  moreover have "length (canonical_line x) \<le> MAX_CMDLINE"
    using length_extras_text [of x] by (simp add: canonical_line_def forced_length)
  ultimately show ?thesis
    by (auto simp: compose_bzimage_cmdline_def Let_def forced_length split: option.splits if_splits)
qed

lemma parse_token_ok: "parse_token t p = Ok q \<Longrightarrow> extras_ok p \<Longrightarrow> extras_ok q"
proof -
  have "b - 48 < 8" if "48 \<le> b" "b \<le> 55" for b :: u8
  proof -
    have "unat b - 48 < 8" using that by (simp add: word_le_nat_alt)
    then show ?thesis using that by (simp add: word_less_nat_alt unat_sub)
  qed
  then show "parse_token t p = Ok q \<Longrightarrow> extras_ok p \<Longrightarrow> extras_ok q"
    by (auto simp: parse_token_def extras_ok_def split: if_splits option.splits)
qed

lemma parse_tokens_ok: "parse_tokens ts p = Ok q \<Longrightarrow> extras_ok p \<Longrightarrow> extras_ok q"
  by (induction ts arbitrary: p) (auto dest: parse_token_ok)

lemma parse_extras_ok: "parse_bzimage_cmdline_extras e = Ok x \<Longrightarrow> extras_ok x"
proof -
  have "extras_ok extras_default" by (simp add: extras_ok_def extras_default_def)
  then show "parse_bzimage_cmdline_extras e = Ok x \<Longrightarrow> extras_ok x"
    by (auto simp: parse_bzimage_cmdline_extras_def dest: parse_tokens_ok split: if_splits)
qed

lemma canonicalize_iff:
  "canonicalize_bzimage_cmdline_extras e = Ok cl \<longleftrightarrow> (\<exists>x. parse_bzimage_cmdline_extras e = Ok x \<and> cl = canonical_line x)"
  by (auto simp: canonicalize_bzimage_cmdline_extras_def compose_line)

lemma strip_prefix_iff: "strip_prefix p xs = Some r \<longleftrightarrow> xs = p @ r"
  by (auto simp: strip_prefix_def) (metis append_take_drop_id)

lemma from_canonical_line:
  assumes "extras_ok x"
  shows "bzimage_cmdline_extras_from_canonical (canonical_line x) = Ok (extras_text x)"
proof (cases "extras_text x = []")
  case False
  have "strip_prefix BZIMAGE_FORCED_CMDLINE (canonical_line x) = Some (bytes_of '' '' @ extras_text x)"
    "strip_prefix (bytes_of '' '') (bytes_of '' '' @ extras_text x) = Some (extras_text x)"
    using False by (simp_all add: strip_prefix_iff canonical_line_def)
  moreover have "canonicalize_bzimage_cmdline_extras (extras_text x) = Ok (canonical_line x)"
    using parse_extras_text [OF assms] by (simp add: canonicalize_iff)
  moreover have "canonical_line x \<noteq> BZIMAGE_FORCED_CMDLINE" using False by (simp add: canonical_line_def)
  ultimately show ?thesis by (simp add: bzimage_cmdline_extras_from_canonical_def)
qed (simp add: bzimage_cmdline_extras_from_canonical_def canonical_line_def)

lemma from_canonical_iff:
  "bzimage_cmdline_extras_from_canonical cl = Ok e \<longleftrightarrow> (\<exists>x. extras_ok x \<and> cl = canonical_line x \<and> e = extras_text x)"
proof
  assume a: "bzimage_cmdline_extras_from_canonical cl = Ok e"
  have "\<exists>x. extras_ok x \<and> cl = canonical_line x"
  proof (cases "cl = BZIMAGE_FORCED_CMDLINE")
    case True
    then show ?thesis
      by (intro exI [of _ extras_default]) (simp add: extras_ok_def extras_default_def canonical_line_def extras_text_def)
  next
    case False
    then have "canonicalize_bzimage_cmdline_extras e = Ok cl"
      using a by (auto simp: bzimage_cmdline_extras_from_canonical_def split: option.splits if_splits)
    then show ?thesis using parse_extras_ok by (auto simp: canonicalize_iff)
  qed
  then show "\<exists>x. extras_ok x \<and> cl = canonical_line x \<and> e = extras_text x" using a from_canonical_line by auto
qed (use from_canonical_line in auto)

lemma cmdline_no_panic: "bzimage_cmdline_extras_from_canonical cl \<noteq> Panic" "canonicalize_bzimage_cmdline_extras e \<noteq> Panic"
proof -
  have t: "parse_token t p \<noteq> Panic" for t p by (simp add: parse_token_def split: option.split)
  have ts: "parse_tokens ts p \<noteq> Panic" for ts p by (induction ts arbitrary: p) (auto simp: t res_bind_eq_Panic)
  have "parse_bzimage_cmdline_extras e \<noteq> Panic" for e by (simp add: parse_bzimage_cmdline_extras_def ts)
  then show c: "canonicalize_bzimage_cmdline_extras e \<noteq> Panic" for e
    by (simp add: canonicalize_bzimage_cmdline_extras_def res_bind_eq_Panic compose_line)
  show "bzimage_cmdline_extras_from_canonical cl \<noteq> Panic"
    by (auto simp: bzimage_cmdline_extras_from_canonical_def res_bind_eq_Panic c split: option.split)
qed

lemma validate_cmdline_iff:
  "validate_canonical_bzimage_cmdline cl = Ok () \<longleftrightarrow> (\<exists>x. extras_ok x \<and> cl = canonical_line x)"
proof -
  have "length (canonical_line x) \<le> MAX_CMDLINE" for x
    using length_extras_text [of x] by (simp add: canonical_line_def forced_length)
  then show ?thesis by (auto simp: validate_canonical_bzimage_cmdline_def from_canonical_iff not_less [symmetric])
qed

text \<open>No accepted extras carry a key of the baseline.\<close>

lemma parse_tokens_unforced: "parse_tokens ts p = Ok q \<Longrightarrow> \<not> list_ex is_forced_bzimage_baseline_key ts"
  by (induction ts arbitrary: p) (auto simp: parse_token_def)

lemma parse_extras_unforced:
  assumes "parse_bzimage_cmdline_extras e = Ok x"
  shows "\<not> list_ex is_forced_bzimage_baseline_key (split_at is_ascii_whitespace e)"
proof (cases "e = []")
  case True
  then show ?thesis by (simp add: is_forced_bzimage_baseline_key_def forced_keys_def bytes_of_simps)
next
  case False
  then show ?thesis using assms parse_tokens_unforced by (auto simp: parse_bzimage_cmdline_extras_def split: if_splits)
qed

text \<open>
  C39. The determinism baseline cannot be overridden. The command lines a configuration accepts are
  exactly the eighteen canonical ones: the forced baseline, optionally \<open>quiet\<close>, optionally one log
  level from 0 to 7, in that order and spacing. Canonicalising any accepted extras gives such a
  line, from which the extras are recovered and canonicalise to the same line; extras that name a
  key of the baseline are refused. Nothing panics.
\<close>

theorem cmdline_canonical:
  "(validate_canonical_bzimage_cmdline cl = Ok () \<longleftrightarrow> (\<exists>x. extras_ok x \<and> cl = canonical_line x))
   \<and> (canonicalize_bzimage_cmdline_extras e = Ok cl \<longrightarrow>
        validate_canonical_bzimage_cmdline cl = Ok ()
        \<and> (\<exists>e'. bzimage_cmdline_extras_from_canonical cl = Ok e' \<and> canonicalize_bzimage_cmdline_extras e' = Ok cl)
        \<and> \<not> list_ex is_forced_bzimage_baseline_key (split_at is_ascii_whitespace e))
   \<and> validate_canonical_bzimage_cmdline cl \<noteq> Panic \<and> canonicalize_bzimage_cmdline_extras e \<noteq> Panic"
proof (intro conjI impI)
  assume a: "canonicalize_bzimage_cmdline_extras e = Ok cl"
  then show "\<not> list_ex is_forced_bzimage_baseline_key (split_at is_ascii_whitespace e)"
    using parse_extras_unforced by (auto simp: canonicalize_iff)
  obtain x where x: "extras_ok x" "cl = canonical_line x" using a parse_extras_ok by (auto simp: canonicalize_iff)
  then show "validate_canonical_bzimage_cmdline cl = Ok ()" using validate_cmdline_iff by blast
  show "\<exists>e'. bzimage_cmdline_extras_from_canonical cl = Ok e' \<and> canonicalize_bzimage_cmdline_extras e' = Ok cl"
    using x(2) from_canonical_line [OF x(1)] parse_extras_text [OF x(1)] by (auto simp: canonicalize_iff)
qed (use validate_cmdline_iff cmdline_no_panic in
    \<open>auto simp: validate_canonical_bzimage_cmdline_def res_bind_eq_Panic\<close>)

theorem cmdline_canonical_witness:
  "\<exists>cl. canonicalize_bzimage_cmdline_extras (bytes_of ''quiet'') = Ok cl
     \<and> bzimage_cmdline_extras_from_canonical cl = Ok (bytes_of ''quiet'') \<and> validate_canonical_bzimage_cmdline cl = Ok ()"
proof -
  let ?x = "\<lparr>cx_quiet = True, cx_loglevel = None\<rparr>"
  have x: "extras_ok ?x" "extras_text ?x = bytes_of ''quiet''" by (simp_all add: extras_ok_def extras_text_def)
  have c: "canonicalize_bzimage_cmdline_extras (bytes_of ''quiet'') = Ok (canonical_line ?x)"
    using parse_extras_text [OF x(1)] x(2) by (simp add: canonicalize_iff)
  show ?thesis
    using cmdline_canonical [of "canonical_line ?x" "bytes_of ''quiet''"] c from_canonical_line [OF x(1)] x(2) by auto
qed

end
