(* ===== verification/Machine_Config.thy ===== *)
theory Machine_Config
  imports Vt Cmdline
begin

text \<open>
  The machine configuration of \<open>crates/dh-vmm/src/config.rs\<close>: validation, the canonical encoding that
  is hashed into every snapshot, and its decoder. BLAKE3 is an argument. The reader primitives are
  instances of one interface, \<open>stream_codec\<close>: a reader accepts exactly the encodings of its values.
\<close>

section \<open>Data\<close>

record CpuidLeaf =
  cl_function :: u32
  cl_index :: u32
  cl_flags :: u32
  cl_eax :: u32
  cl_ebx :: u32
  cl_ecx :: u32
  cl_edx :: u32

definition encode_leaf :: "CpuidLeaf \<Rightarrow> byte list" where
  "encode_leaf l = concat (map to_le [cl_function l, cl_index l, cl_flags l, cl_eax l, cl_ebx l, cl_ecx l, cl_edx l])"

definition cpuid_leaves_hash :: "(byte list \<Rightarrow> byte list) \<Rightarrow> CpuidLeaf list \<Rightarrow> byte list" where
  "cpuid_leaves_hash blake3 leaves = blake3 (concat (map encode_leaf leaves))"

datatype BootSpec =
    Elf (bs_kernel_hash: "byte list") (bs_cmdline: "byte list")
  | BzImage (bs_kernel_hash: "byte list") (bs_initramfs_hash: "byte list") (bs_cmdline: "byte list")

datatype HashEpochs = EpochsOn | FinalOnly

abbreviation CONFIG_VERSION :: u32 where "CONFIG_VERSION \<equiv> 1"
abbreviation MEM_ALIGN :: u64 where "MEM_ALIGN \<equiv> 2 * 1024 * 1024"
abbreviation DEFAULT_EPOCH_LEN :: u64 where "DEFAULT_EPOCH_LEN \<equiv> 50000000"
abbreviation DEFAULT_SKID_MARGIN :: u32 where "DEFAULT_SKID_MARGIN \<equiv> 8192"
abbreviation DEFAULT_RESYNC_SLACK :: u32 where "DEFAULT_RESYNC_SLACK \<equiv> 1024"
abbreviation MAX_CPUID_LEAVES :: nat where "MAX_CPUID_LEAVES \<equiv> 4096"
abbreviation MAX_DEVICES :: nat where "MAX_DEVICES \<equiv> 256"

record MachineConfig =
  mc_version :: u32
  mc_mem_bytes :: u64
  mc_vcpus :: u32
  mc_clock :: ClockRatio
  mc_base_image_hash :: "byte list"
  mc_boot :: BootSpec
  mc_epoch_len :: u64
  mc_hash_epochs :: HashEpochs
  mc_skid_margin :: u32
  mc_resync_slack :: u32
  mc_cpuid_table :: "CpuidLeaf list"
  mc_device_set :: "u16 list"

definition machine_config_new :: "u64 \<Rightarrow> byte list \<Rightarrow> BootSpec \<Rightarrow> MachineConfig" where
  "machine_config_new mem_bytes base_image_hash boot =
     \<lparr>mc_version = CONFIG_VERSION, mc_mem_bytes = mem_bytes, mc_vcpus = 1, mc_clock = clock_default,
      mc_base_image_hash = base_image_hash, mc_boot = boot, mc_epoch_len = DEFAULT_EPOCH_LEN,
      mc_hash_epochs = EpochsOn, mc_skid_margin = DEFAULT_SKID_MARGIN, mc_resync_slack = DEFAULT_RESYNC_SLACK,
      mc_cpuid_table = [], mc_device_set = []\<rparr>"

section \<open>Validation and encoding\<close>

definition leaf_before :: "CpuidLeaf \<Rightarrow> CpuidLeaf \<Rightarrow> bool" where
  "leaf_before a b \<longleftrightarrow> cl_function a < cl_function b \<or> cl_function a = cl_function b \<and> cl_index a < cl_index b"

definition config_validate :: "MachineConfig \<Rightarrow> (unit, ConfigError) res" where
  "config_validate c =
     (if mc_version c \<noteq> CONFIG_VERSION then Err UnsupportedVersion
      else if mc_mem_bytes c = 0 \<or> mc_mem_bytes c mod MEM_ALIGN \<noteq> 0 then Err MemNotAligned
      else if mc_vcpus c \<noteq> 1 then Err VcpusNotOne
      else if mc_epoch_len c = 0 then Err ZeroEpochLen
      else if length (bs_cmdline (mc_boot c)) > MAX_CMDLINE then Err CmdlineTooLong
      else res_bind (case mc_boot c of
             BzImage _ _ cmdline \<Rightarrow> validate_canonical_bzimage_cmdline cmdline
           | Elf _ _ \<Rightarrow> Ok ()) (\<lambda>_.
      if length (mc_cpuid_table c) > MAX_CPUID_LEAVES then Err CpuidTableTooLarge
      else if length (mc_device_set c) > MAX_DEVICES then Err DeviceSetTooLarge
      else if \<not> list_all (\<lambda>(a, b). leaf_before a b) (windows2 (mc_cpuid_table c)) then Err CpuidTableUnsorted
      else if \<not> list_all (\<lambda>(a, b). a < b) (windows2 (mc_device_set c)) then Err DeviceSetUnsorted
      else Ok ()))"

abbreviation MCFG_MAGIC :: "byte list" where "MCFG_MAGIC \<equiv> [0x44, 0x48, 0x4D, 0x43, 0x46, 0x47, 0, 0]"

definition encode_vec :: "byte list \<Rightarrow> byte list" where
  "encode_vec v = to_le (of_nat (length v) :: u32) @ v"

definition encode_boot :: "BootSpec \<Rightarrow> byte list" where
  "encode_boot b = (case b of
     Elf kernel_hash cmdline \<Rightarrow> [1] @ kernel_hash @ encode_vec cmdline
   | BzImage kernel_hash initramfs_hash cmdline \<Rightarrow> [2] @ kernel_hash @ initramfs_hash @ encode_vec cmdline)"

definition encode_hash_epochs :: "HashEpochs \<Rightarrow> byte list" where
  "encode_hash_epochs h = [case h of EpochsOn \<Rightarrow> 1 | FinalOnly \<Rightarrow> 2]"

text \<open>The bytes written after validation.\<close>

definition encode_config :: "MachineConfig \<Rightarrow> byte list" where
  "encode_config c = MCFG_MAGIC @ to_le (mc_version c) @ to_le (mc_mem_bytes c) @ to_le (mc_vcpus c)
     @ to_le (cr_num (mc_clock c)) @ to_le (cr_den (mc_clock c)) @ mc_base_image_hash c @ encode_boot (mc_boot c)
     @ to_le (mc_epoch_len c) @ encode_hash_epochs (mc_hash_epochs c)
     @ to_le (of_nat (length (mc_cpuid_table c)) :: u32) @ concat (map encode_leaf (mc_cpuid_table c))
     @ to_le (of_nat (length (mc_device_set c)) :: u32) @ concat (map to_le (mc_device_set c))"

definition canonical_encode :: "MachineConfig \<Rightarrow> (byte list, ConfigError) res" where
  "canonical_encode c = res_bind (config_validate c) (\<lambda>_. Ok (encode_config c))"

definition config_hash :: "(byte list \<Rightarrow> byte list) \<Rightarrow> MachineConfig \<Rightarrow> (byte list, ConfigError) res" where
  "config_hash blake3 c = res_bind (canonical_encode c) (\<lambda>bytes. Ok (blake3 bytes))"

definition bzimage_boot_params_cmdline :: "BootSpec \<Rightarrow> (byte list option, ConfigError) res" where
  "bzimage_boot_params_cmdline b = (case b of
     Elf _ _ \<Rightarrow> Ok None
   | BzImage _ _ cmdline \<Rightarrow> res_bind (validate_canonical_bzimage_cmdline cmdline) (\<lambda>_. Ok (Some cmdline)))"

section \<open>Decoding\<close>

datatype ConfigDecodeError =
    BadMagic
  | Truncated
  | TrailingBytes nat
  | BadBootTag u8
  | BadHashEpochs u8
  | ZeroClockTerm
  | LengthTooLarge string nat nat
  | InvalidConfig ConfigError

record ConfigReader =
  rd_bytes :: "byte list"
  rd_pos :: nat

type_synonym 'a reads = "ConfigReader \<Rightarrow> ('a \<times> ConfigReader, ConfigDecodeError) res"

definition read_exact :: "nat \<Rightarrow> byte list reads" where
  "read_exact len r =
     (if rd_pos r + len \<le> length (rd_bytes r)
      then Ok (bslice (rd_bytes r) (rd_pos r) (rd_pos r + len), r\<lparr>rd_pos := rd_pos r + len\<rparr>)
      else Err Truncated)"

definition read_u8 :: "u8 reads" where
  "read_u8 r = res_bind (read_exact 1 r) (\<lambda>(b, r). res_bind (index_res b 0) (\<lambda>v. Ok (v, r)))"

definition read_u16 :: "u16 reads" where
  "read_u16 r = res_bind (read_exact 2 r) (\<lambda>(b, r). Ok (from_le b, r))"

definition read_u32 :: "u32 reads" where
  "read_u32 r = res_bind (read_exact 4 r) (\<lambda>(b, r). Ok (from_le b, r))"

definition read_u64 :: "u64 reads" where
  "read_u64 r = res_bind (read_exact 8 r) (\<lambda>(b, r). Ok (from_le b, r))"

definition read_hash :: "byte list reads" where
  "read_hash r = read_exact 32 r"

definition read_vec_u32 :: "string \<Rightarrow> nat \<Rightarrow> byte list reads" where
  "read_vec_u32 field mx r = res_bind (read_u32 r) (\<lambda>(len, r).
     if unat len > mx then Err (LengthTooLarge field (unat len) mx) else read_exact (unat len) r)"

definition is_finished :: "ConfigReader \<Rightarrow> bool" where
  "is_finished r \<longleftrightarrow> rd_pos r = length (rd_bytes r)"

definition remaining :: "ConfigReader \<Rightarrow> nat" where
  "remaining r = length (rd_bytes r) - rd_pos r"

definition read_boot :: "BootSpec reads" where
  "read_boot r = res_bind (read_u8 r) (\<lambda>(tag, r).
     if tag = 1 then
       res_bind (read_hash r) (\<lambda>(kernel_hash, r).
       res_bind (read_vec_u32 ''cmdline'' MAX_CMDLINE r) (\<lambda>(cmdline, r). Ok (Elf kernel_hash cmdline, r)))
     else if tag = 2 then
       res_bind (read_hash r) (\<lambda>(kernel_hash, r).
       res_bind (read_hash r) (\<lambda>(initramfs_hash, r).
       res_bind (read_vec_u32 ''cmdline'' MAX_CMDLINE r) (\<lambda>(cmdline, r). Ok (BzImage kernel_hash initramfs_hash cmdline, r))))
     else Err (BadBootTag tag))"

definition read_hash_epochs :: "HashEpochs reads" where
  "read_hash_epochs r = res_bind (read_u8 r) (\<lambda>(v, r).
     if v = 1 then Ok (EpochsOn, r) else if v = 2 then Ok (FinalOnly, r) else Err (BadHashEpochs v))"

definition read_leaf :: "CpuidLeaf reads" where
  "read_leaf r =
     res_bind (read_u32 r) (\<lambda>(function, r). res_bind (read_u32 r) (\<lambda>(index, r).
     res_bind (read_u32 r) (\<lambda>(flags, r). res_bind (read_u32 r) (\<lambda>(eax, r).
     res_bind (read_u32 r) (\<lambda>(ebx, r). res_bind (read_u32 r) (\<lambda>(ecx, r).
     res_bind (read_u32 r) (\<lambda>(edx, r).
       Ok (\<lparr>cl_function = function, cl_index = index, cl_flags = flags, cl_eax = eax, cl_ebx = ebx, cl_ecx = ecx, cl_edx = edx\<rparr>, r))))))))"

text \<open>The two counted loops, and their counts with the limits.\<close>

primrec read_n :: "'a reads \<Rightarrow> nat \<Rightarrow> 'a list reads" where
  "read_n rd 0 r = Ok ([], r)"
| "read_n rd (Suc n) r = res_bind (rd r) (\<lambda>(v, r). res_bind (read_n rd n r) (\<lambda>(vs, r). Ok (v # vs, r)))"

definition read_counted :: "nat \<Rightarrow> ConfigError \<Rightarrow> 'a reads \<Rightarrow> 'a list reads" where
  "read_counted mx too_large rd r = res_bind (read_u32 r) (\<lambda>(count, r).
     if unat count > mx then Err (InvalidConfig too_large) else read_n rd (unat count) r)"

definition canonical_decode :: "byte list \<Rightarrow> (MachineConfig, ConfigDecodeError) res" where
  "canonical_decode bytes =
     res_bind (read_exact 8 \<lparr>rd_bytes = bytes, rd_pos = 0\<rparr>) (\<lambda>(magic, r).
     if magic \<noteq> MCFG_MAGIC then Err BadMagic else
     res_bind (read_u32 r) (\<lambda>(version, r).
     res_bind (read_u64 r) (\<lambda>(mem_bytes, r).
     res_bind (read_u32 r) (\<lambda>(vcpus, r).
     res_bind (read_u32 r) (\<lambda>(clock_num, r).
     res_bind (read_u32 r) (\<lambda>(clock_den, r).
     res_bind (ok_or (clock_new clock_num clock_den) ZeroClockTerm) (\<lambda>clock.
     res_bind (read_hash r) (\<lambda>(base_image_hash, r).
     res_bind (read_boot r) (\<lambda>(boot, r).
     res_bind (read_u64 r) (\<lambda>(epoch_len, r).
     res_bind (read_hash_epochs r) (\<lambda>(hash_epochs, r).
     res_bind (read_counted MAX_CPUID_LEAVES CpuidTableTooLarge read_leaf r) (\<lambda>(cpuid_table, r).
     res_bind (read_counted MAX_DEVICES DeviceSetTooLarge read_u16 r) (\<lambda>(device_set, r).
     if \<not> is_finished r then Err (TrailingBytes (remaining r)) else
     let config = \<lparr>mc_version = version, mc_mem_bytes = mem_bytes, mc_vcpus = vcpus, mc_clock = clock,
           mc_base_image_hash = base_image_hash, mc_boot = boot, mc_epoch_len = epoch_len, mc_hash_epochs = hash_epochs,
           mc_skid_margin = DEFAULT_SKID_MARGIN, mc_resync_slack = DEFAULT_RESYNC_SLACK,
           mc_cpuid_table = cpuid_table, mc_device_set = device_set\<rparr>
     in res_bind (map_err InvalidConfig (config_validate config)) (\<lambda>_. Ok config))))))))))))))"

section \<open>Readers accept exactly the encodings\<close>

text \<open>A reader between the bytes already read and the bytes left.\<close>

definition reader_at :: "byte list \<Rightarrow> byte list \<Rightarrow> ConfigReader" where
  "reader_at pre rest = \<lparr>rd_bytes = pre @ rest, rd_pos = length pre\<rparr>"

text \<open>
  The interface of a reader: it never panics, and it returns a value exactly when the rest starts
  with the encoding of that value.
\<close>

locale stream_codec =
  fixes rd :: "'a reads" and enc :: "'a \<Rightarrow> byte list" and valid :: "'a \<Rightarrow> bool"
  assumes rd_iff: "rd (reader_at pre rest) = Ok (v, r) \<longleftrightarrow>
      valid v \<and> (\<exists>rest'. rest = enc v @ rest' \<and> r = reader_at (pre @ enc v) rest')"
    and rd_total: "rd (reader_at pre rest) \<noteq> Panic"
begin

lemma bind_iff:
  "res_bind (rd (reader_at pre rest)) (\<lambda>(v, r). f v r) = Ok y \<longleftrightarrow>
     (\<exists>v rest'. valid v \<and> rest = enc v @ rest' \<and> f v (reader_at (pre @ enc v) rest') = Ok y)"
  by (auto simp: rd_iff)

lemma bind_total:
  "res_bind (rd (reader_at pre rest)) (\<lambda>(v, r). f v r) = Panic \<longleftrightarrow>
     (\<exists>v rest'. valid v \<and> rest = enc v @ rest' \<and> f v (reader_at (pre @ enc v) rest') = Panic)"
  using rd_total by (auto simp: res_bind_eq_Panic rd_iff)

lemma rd_enc: "valid v \<Longrightarrow> rd (reader_at pre (enc v @ rest)) = Ok (v, reader_at (pre @ enc v) rest)"
  by (simp add: rd_iff)

lemma read_n_iff:
  "read_n rd n (reader_at pre rest) = Ok (vs, r) \<longleftrightarrow>
     length vs = n \<and> list_all valid vs \<and> (\<exists>rest'. rest = concat (map enc vs) @ rest' \<and> r = reader_at (pre @ concat (map enc vs)) rest')"
proof (induction n arbitrary: pre rest vs r)
  case (Suc n)
  have "read_n rd (Suc n) (reader_at pre rest) = Ok (vs, r) \<longleftrightarrow>
      (\<exists>v rest'. valid v \<and> rest = enc v @ rest' \<and> (\<exists>ws. read_n rd n (reader_at (pre @ enc v) rest') = Ok (ws, r) \<and> vs = v # ws))"
    unfolding read_n.simps bind_iff by fastforce
  then show ?case unfolding Suc by (cases vs) auto
qed auto

lemma read_n_total: "read_n rd n (reader_at pre rest) \<noteq> Panic"
  by (induction n arbitrary: pre rest) (auto simp: res_bind_eq_Panic rd_total rd_iff)

end

lemma read_exact_at:
  "read_exact n (reader_at pre rest) =
     (if n \<le> length rest then Ok (take n rest, reader_at (pre @ take n rest) (drop n rest)) else Err Truncated)"
  by (simp add: read_exact_def reader_at_def bslice_def)

lemma read_exact_iff:
  "read_exact n (reader_at pre rest) = Ok (v, r) \<longleftrightarrow> length v = n \<and> (\<exists>rest'. rest = v @ rest' \<and> r = reader_at (pre @ v) rest')"
  by (auto simp: read_exact_at) (metis append_take_drop_id)

lemma read_exact_total [simp]: "read_exact n r \<noteq> Panic"
  by (simp add: read_exact_def)

lemma to_le_inject_u32 [simp]: "to_le (v :: u32) = to_le w \<longleftrightarrow> v = w"
  by (rule to_le_inject) simp

interpretation cu8: stream_codec read_u8 "\<lambda>v. [v]" "\<lambda>_. True"
proof
  fix pre rest :: "byte list" and v r
  show "read_u8 (reader_at pre rest) = Ok (v, r) \<longleftrightarrow> True \<and> (\<exists>rest'. rest = [v] @ rest' \<and> r = reader_at (pre @ [v]) rest')"
    by (cases rest) (auto simp: read_u8_def read_exact_at)
  show "read_u8 (reader_at pre rest) \<noteq> Panic"
    by (cases rest) (auto simp: read_u8_def read_exact_at)
qed

lemma le_codec:
  fixes rd :: "'a::len word reads"
  assumes rd: "\<And>r. rd r = res_bind (read_exact n r) (\<lambda>(b, r). Ok (from_le b, r))" and w: "8 dvd LENGTH('a)" "n = LENGTH('a) div 8"
  shows "stream_codec rd to_le (\<lambda>_. True)"
proof
  fix pre rest v r
  show "rd (reader_at pre rest) = Ok (v, r) \<longleftrightarrow> True \<and> (\<exists>rest'. rest = to_le v @ rest' \<and> r = reader_at (pre @ to_le v) rest')"
  proof
    assume "rd (reader_at pre rest) = Ok (v, r)"
    then obtain b rest' where "length b = n" "rest = b @ rest'" "r = reader_at (pre @ b) rest'" "v = from_le b"
      by (auto simp: rd read_exact_iff)
    then show "True \<and> (\<exists>rest'. rest = to_le v @ rest' \<and> r = reader_at (pre @ to_le v) rest')"
      using to_le_from_le [OF w(1)] w(2) by auto
  qed (use w in \<open>auto simp: rd read_exact_at from_le_to_le\<close>)
  show "rd (reader_at pre rest) \<noteq> Panic" by (auto simp: rd res_bind_eq_Panic)
qed

interpretation cu16: stream_codec read_u16 to_le "\<lambda>_. True"
  by (rule le_codec [of _ 2]) (simp_all add: read_u16_def)

interpretation cu32: stream_codec read_u32 to_le "\<lambda>_. True"
  by (rule le_codec [of _ 4]) (simp_all add: read_u32_def)

interpretation cu64: stream_codec read_u64 to_le "\<lambda>_. True"
  by (rule le_codec [of _ 8]) (simp_all add: read_u64_def)

interpretation chash: stream_codec read_hash "\<lambda>h. h" is_b32
  by unfold_locales (auto simp: read_hash_def read_exact_iff is_b32_def)

interpretation cvec: stream_codec "read_vec_u32 field MAX_CMDLINE" encode_vec "\<lambda>v. length v \<le> MAX_CMDLINE" for field
proof
  fix pre rest v :: "byte list" and r
  have u: "unat (of_nat (length v) :: u32) = length v" if "length v \<le> MAX_CMDLINE" using that by (simp add: unat_of_nat_fits)
  have "read_vec_u32 field MAX_CMDLINE (reader_at pre rest) = Ok (v, r) \<longleftrightarrow>
      (\<exists>n rest'. rest = to_le (n :: u32) @ rest' \<and> unat n \<le> MAX_CMDLINE \<and> read_exact (unat n) (reader_at (pre @ to_le n) rest') = Ok (v, r))"
    unfolding read_vec_u32_def cu32.bind_iff by (intro iff_exI) auto
  also have "\<dots> \<longleftrightarrow> length v \<le> MAX_CMDLINE \<and> (\<exists>rest'. rest = encode_vec v @ rest' \<and> r = reader_at (pre @ encode_vec v) rest')"
    unfolding read_exact_iff encode_vec_def using u by (auto intro!: exI [of _ "of_nat (length v)"])
  finally show "read_vec_u32 field MAX_CMDLINE (reader_at pre rest) = Ok (v, r) \<longleftrightarrow>
      length v \<le> MAX_CMDLINE \<and> (\<exists>rest'. rest = encode_vec v @ rest' \<and> r = reader_at (pre @ encode_vec v) rest')" .
  show "read_vec_u32 field MAX_CMDLINE (reader_at pre rest) \<noteq> Panic"
    unfolding read_vec_u32_def cu32.bind_total by simp
qed

definition boot_ok :: "BootSpec \<Rightarrow> bool" where
  "boot_ok b \<longleftrightarrow> is_b32 (bs_kernel_hash b) \<and> length (bs_cmdline b) \<le> MAX_CMDLINE
     \<and> (case b of BzImage _ i _ \<Rightarrow> is_b32 i | _ \<Rightarrow> True)"

interpretation cboot: stream_codec read_boot encode_boot boot_ok
proof
  fix pre rest v r
  show "read_boot (reader_at pre rest) = Ok (v, r) \<longleftrightarrow>
      boot_ok v \<and> (\<exists>rest'. rest = encode_boot v @ rest' \<and> r = reader_at (pre @ encode_boot v) rest')"
  proof
    assume "read_boot (reader_at pre rest) = Ok (v, r)"
    then show "boot_ok v \<and> (\<exists>rest'. rest = encode_boot v @ rest' \<and> r = reader_at (pre @ encode_boot v) rest')"
      unfolding read_boot_def cu8.bind_iff
      by (auto simp: chash.bind_iff cvec.bind_iff boot_ok_def encode_boot_def split: if_splits simp del: res_bind_eq_Ok)
  next
    assume "boot_ok v \<and> (\<exists>rest'. rest = encode_boot v @ rest' \<and> r = reader_at (pre @ encode_boot v) rest')"
    then show "read_boot (reader_at pre rest) = Ok (v, r)"
      by (cases v) (auto simp: read_boot_def cu8.rd_enc [simplified] boot_ok_def encode_boot_def chash.rd_enc cvec.rd_enc simp del: res_bind_eq_Ok)
  qed
  show "read_boot (reader_at pre rest) \<noteq> Panic"
    unfolding read_boot_def cu8.bind_total by (auto simp: chash.bind_total cvec.bind_total split: if_splits)
qed

interpretation cepochs: stream_codec read_hash_epochs encode_hash_epochs "\<lambda>_. True"
proof
  fix pre rest v r
  show "read_hash_epochs (reader_at pre rest) = Ok (v, r) \<longleftrightarrow>
      True \<and> (\<exists>rest'. rest = encode_hash_epochs v @ rest' \<and> r = reader_at (pre @ encode_hash_epochs v) rest')"
    unfolding read_hash_epochs_def cu8.bind_iff by (cases rest; cases v) (auto simp: encode_hash_epochs_def split: if_splits)
  show "read_hash_epochs (reader_at pre rest) \<noteq> Panic"
    unfolding read_hash_epochs_def cu8.bind_total by (auto split: if_splits)
qed

interpretation cleaf: stream_codec read_leaf encode_leaf "\<lambda>_. True"
proof
  fix pre rest v r
  show "read_leaf (reader_at pre rest) = Ok (v, r) \<longleftrightarrow>
      True \<and> (\<exists>rest'. rest = encode_leaf v @ rest' \<and> r = reader_at (pre @ encode_leaf v) rest')"
    unfolding read_leaf_def cu32.bind_iff by (cases v) (auto simp: encode_leaf_def)
  show "read_leaf (reader_at pre rest) \<noteq> Panic"
    unfolding read_leaf_def cu32.bind_total by simp
qed

text \<open>A counted sequence of any codec is a codec.\<close>

definition encode_counted :: "('a \<Rightarrow> byte list) \<Rightarrow> 'a list \<Rightarrow> byte list" where
  "encode_counted enc vs = to_le (of_nat (length vs) :: u32) @ concat (map enc vs)"

lemma counted_codec:
  fixes rd :: "'a reads"
  assumes "stream_codec rd enc (\<lambda>_. True)" "mx < 2 ^ 32"
  shows "stream_codec (read_counted mx e rd) (encode_counted enc) (\<lambda>vs. length vs \<le> mx)"
proof
  fix pre rest :: "byte list" and vs :: "'a list" and r
  have u: "unat (of_nat (length vs) :: u32) = length vs" if "length vs \<le> mx" using that assms(2) by (simp add: unat_of_nat_fits)
  have "read_counted mx e rd (reader_at pre rest) = Ok (vs, r) \<longleftrightarrow>
      (\<exists>n rest'. rest = to_le (n :: u32) @ rest' \<and> unat n \<le> mx \<and> read_n rd (unat n) (reader_at (pre @ to_le n) rest') = Ok (vs, r))"
    unfolding read_counted_def cu32.bind_iff by (intro iff_exI) auto
  also have "\<dots> \<longleftrightarrow> length vs \<le> mx \<and> (\<exists>rest'. rest = encode_counted enc vs @ rest' \<and> r = reader_at (pre @ encode_counted enc vs) rest')"
    unfolding stream_codec.read_n_iff [OF assms(1)] encode_counted_def using u
    by (auto simp: list_all_iff intro!: exI [of _ "of_nat (length vs)"])
  finally show "read_counted mx e rd (reader_at pre rest) = Ok (vs, r) \<longleftrightarrow>
      length vs \<le> mx \<and> (\<exists>rest'. rest = encode_counted enc vs @ rest' \<and> r = reader_at (pre @ encode_counted enc vs) rest')" .
  show "read_counted mx e rd (reader_at pre rest) \<noteq> Panic"
    unfolding read_counted_def cu32.bind_total using stream_codec.read_n_total [OF assms(1)] by auto
qed

interpretation cleaves: stream_codec "read_counted MAX_CPUID_LEAVES e read_leaf" "encode_counted encode_leaf" "\<lambda>vs. length vs \<le> MAX_CPUID_LEAVES" for e
  by (rule counted_codec [OF cleaf.stream_codec_axioms]) simp

interpretation cdevices: stream_codec "read_counted MAX_DEVICES e read_u16" "encode_counted to_le" "\<lambda>vs. length vs \<le> MAX_DEVICES" for e
  by (rule counted_codec [OF cu16.stream_codec_axioms]) simp

section \<open>The canonical form\<close>

text \<open>What the Rust types guarantee: 32-byte hashes and a nonzero clock.\<close>

definition config_typed :: "MachineConfig \<Rightarrow> bool" where
  "config_typed c \<longleftrightarrow> is_b32 (mc_base_image_hash c) \<and> is_b32 (bs_kernel_hash (mc_boot c))
     \<and> (case mc_boot c of BzImage _ i _ \<Rightarrow> is_b32 i | _ \<Rightarrow> True)
     \<and> cr_num (mc_clock c) \<noteq> 0 \<and> cr_den (mc_clock c) \<noteq> 0"

definition default_landing :: "MachineConfig \<Rightarrow> MachineConfig" where
  "default_landing c = c\<lparr>mc_skid_margin := DEFAULT_SKID_MARGIN, mc_resync_slack := DEFAULT_RESYNC_SLACK\<rparr>"

lemma validate_bounds:
  "config_validate c = Ok () \<Longrightarrow> length (bs_cmdline (mc_boot c)) \<le> MAX_CMDLINE
     \<and> length (mc_cpuid_table c) \<le> MAX_CPUID_LEAVES \<and> length (mc_device_set c) \<le> MAX_DEVICES"
  by (auto simp: config_validate_def split: if_splits)

lemma encode_config_counted:
  "encode_config c = MCFG_MAGIC @ to_le (mc_version c) @ to_le (mc_mem_bytes c) @ to_le (mc_vcpus c)
     @ to_le (cr_num (mc_clock c)) @ to_le (cr_den (mc_clock c)) @ mc_base_image_hash c @ encode_boot (mc_boot c)
     @ to_le (mc_epoch_len c) @ encode_hash_epochs (mc_hash_epochs c)
     @ encode_counted encode_leaf (mc_cpuid_table c) @ encode_counted to_le (mc_device_set c)"
  by (simp add: encode_config_def encode_counted_def)

lemma config_validate_landing [simp]: "config_validate (default_landing c) = config_validate c"
  by (simp add: config_validate_def default_landing_def)

lemma encode_config_landing [simp]: "encode_config (default_landing c) = encode_config c"
  by (simp add: encode_config_def default_landing_def)

lemma decode_start: "\<lparr>rd_bytes = bytes, rd_pos = 0\<rparr> = reader_at [] bytes"
  by (simp add: reader_at_def)

lemma finished_at: "is_finished (reader_at pre rest) \<longleftrightarrow> rest = []"
  by (simp add: is_finished_def reader_at_def)

lemma magic_bind:
  "res_bind (read_exact 8 (reader_at pre rest)) (\<lambda>(m, r). if m \<noteq> MCFG_MAGIC then Err BadMagic else f r) = Ok y \<longleftrightarrow>
     (\<exists>rest'. rest = MCFG_MAGIC @ rest' \<and> f (reader_at (pre @ MCFG_MAGIC) rest') = Ok y)"
  by (auto simp: read_exact_iff)

lemma clock_bind:
  "res_bind (ok_or (clock_new n d) e) f = Ok y \<longleftrightarrow> n \<noteq> 0 \<and> d \<noteq> 0 \<and> f \<lparr>cr_num = n, cr_den = d\<rparr> = Ok y"
  by (simp add: clock_new_def)

lemma finish_bind:
  "(if \<not> is_finished (reader_at pre rest) then Err e
    else let config = c in res_bind (map_err InvalidConfig (config_validate config)) (\<lambda>_. Ok config)) = Ok y \<longleftrightarrow>
     rest = [] \<and> config_validate c = Ok () \<and> y = c"
  by (auto simp: finished_at)

lemmas decode_binds = finish_bind magic_bind clock_bind cu32.bind_iff cu64.bind_iff chash.bind_iff cboot.bind_iff cepochs.bind_iff
  cleaves.bind_iff cdevices.bind_iff

lemma decode_sound:
  assumes "canonical_decode bytes = Ok c"
  shows "config_typed c \<and> config_validate c = Ok () \<and> bytes = encode_config c \<and> default_landing c = c"
  using assms
  unfolding canonical_decode_def decode_start decode_binds
  by (elim exE conjE) (simp add: encode_config_counted config_typed_def default_landing_def boot_ok_def)

lemma decode_encode:
  assumes "config_typed c" "config_validate c = Ok ()"
  shows "canonical_decode (encode_config c) = Ok (default_landing c)"
proof -
  have b: "boot_ok (mc_boot c)" "length (mc_cpuid_table c) \<le> MAX_CPUID_LEAVES" "length (mc_device_set c) \<le> MAX_DEVICES"
    "is_b32 (mc_base_image_hash c)" "clock_new (cr_num (mc_clock c)) (cr_den (mc_clock c)) = Some (mc_clock c)"
    using assms validate_bounds [OF assms(2)] by (simp_all add: boot_ok_def config_typed_def clock_new_def)
  have m: "read_exact 8 (reader_at pre (MCFG_MAGIC @ rest)) = Ok (MCFG_MAGIC, reader_at (pre @ MCFG_MAGIC) rest)" for pre rest
    by (simp add: read_exact_at)
  have v: "\<lparr>mc_version = mc_version c, mc_mem_bytes = mc_mem_bytes c, mc_vcpus = mc_vcpus c, mc_clock = mc_clock c,
      mc_base_image_hash = mc_base_image_hash c, mc_boot = mc_boot c, mc_epoch_len = mc_epoch_len c, mc_hash_epochs = mc_hash_epochs c,
      mc_skid_margin = DEFAULT_SKID_MARGIN, mc_resync_slack = DEFAULT_RESYNC_SLACK,
      mc_cpuid_table = mc_cpuid_table c, mc_device_set = mc_device_set c\<rparr> = default_landing c"
    by (cases c) (simp add: default_landing_def)
  show ?thesis
    unfolding canonical_decode_def decode_start encode_config_counted
    using b assms(2)
    by (simp add: v m [simplified] cu32.rd_enc cu64.rd_enc chash.rd_enc cboot.rd_enc cepochs.rd_enc cleaves.rd_enc
        cdevices.rd_enc [where rest = "[]", simplified] finished_at Let_def del: res_bind_eq_Ok)
qed

lemma config_validate_total: "config_validate c \<noteq> Panic"
proof -
  have "validate_canonical_bzimage_cmdline cl \<noteq> Panic" for cl
    using cmdline_no_panic by (simp add: validate_canonical_bzimage_cmdline_def res_bind_eq_Panic)
  then show ?thesis by (auto simp: config_validate_def res_bind_eq_Panic split: BootSpec.splits if_splits)
qed

lemma magic_total:
  "res_bind (read_exact 8 (reader_at pre rest)) (\<lambda>(m, r). if m \<noteq> MCFG_MAGIC then Err BadMagic else f r) = Panic \<longleftrightarrow>
     (\<exists>rest'. rest = MCFG_MAGIC @ rest' \<and> f (reader_at (pre @ MCFG_MAGIC) rest') = Panic)"
  by (auto simp: res_bind_eq_Panic read_exact_iff)

lemma decode_total: "canonical_decode bytes \<noteq> Panic"
proof -
  have clock: "res_bind (ok_or (clock_new n d) e) f = Panic \<longleftrightarrow> n \<noteq> 0 \<and> d \<noteq> 0 \<and> f \<lparr>cr_num = n, cr_den = d\<rparr> = Panic" for n d e and f :: "_ \<Rightarrow> ('z, 'y) res"
    by (simp add: clock_new_def)
  have fin: "(if \<not> is_finished r then Err e
    else let config = c in res_bind (map_err InvalidConfig (config_validate config)) (\<lambda>_. Ok config)) \<noteq> Panic" for r e c
    by (simp add: res_bind_eq_Panic config_validate_total)
  show ?thesis
    unfolding canonical_decode_def decode_start magic_total clock cu32.bind_total cu64.bind_total chash.bind_total
      cboot.bind_total cepochs.bind_total cleaves.bind_total cdevices.bind_total
    using fin by blast
qed

text \<open>
  C38. The configuration preimage is canonical. Encoding a well-typed configuration and decoding
  gives it back with the landing margins at their defaults; every byte string that decodes is the
  encoding of what it decodes to, so no two byte strings mean the same machine; two configurations
  have the same bytes exactly when they differ at most in the landing margins; and no byte string
  makes the decoder panic.
\<close>

theorem config_canonical:
  "(config_typed c \<and> canonical_encode c = Ok bytes \<longrightarrow> canonical_decode bytes = Ok (default_landing c))
   \<and> (canonical_decode bytes = Ok c \<longrightarrow> config_typed c \<and> canonical_encode c = Ok bytes)
   \<and> (config_typed c \<and> config_typed d \<and> canonical_encode c = Ok bytes \<longrightarrow>
        (canonical_encode d = Ok bytes \<longleftrightarrow> default_landing c = default_landing d))
   \<and> canonical_decode bytes \<noteq> Panic"
proof -
  have enc: "canonical_encode x = Ok b \<longleftrightarrow> config_validate x = Ok () \<and> b = encode_config x" for x b
    by (auto simp: canonical_encode_def)
  have same: "canonical_encode d = Ok bytes \<longleftrightarrow> default_landing c = default_landing d"
    if "config_typed c" "config_typed d" "canonical_encode c = Ok bytes"
  proof
    assume "canonical_encode d = Ok bytes"
    then show "default_landing c = default_landing d"
      using that decode_encode [of c] decode_encode [of d] unfolding enc by simp
  next
    assume "default_landing c = default_landing d"
    then have "config_validate c = config_validate d" "encode_config c = encode_config d"
      by (metis config_validate_landing, metis encode_config_landing)
    then show "canonical_encode d = Ok bytes" using that(3) unfolding enc by simp
  qed
  have sound: "config_typed c \<and> canonical_encode c = Ok bytes" if "canonical_decode bytes = Ok c"
    using decode_sound [OF that] unfolding enc by blast
  have again: "canonical_decode bytes = Ok (default_landing c)" if "config_typed c" "canonical_encode c = Ok bytes"
    using that decode_encode [of c] unfolding enc by simp
  show ?thesis using same sound again decode_total by blast
qed

definition ex_config :: MachineConfig where
  "ex_config = (machine_config_new 0x200000 (zeros 32) (Elf (zeros 32) (bytes_of ''a'')))\<lparr>mc_skid_margin := 7, mc_device_set := [1, 4]\<rparr>"

theorem config_canonical_witness:
  "config_typed ex_config \<and> (\<exists>bytes. canonical_encode ex_config = Ok bytes
     \<and> canonical_decode bytes = Ok (ex_config\<lparr>mc_skid_margin := DEFAULT_SKID_MARGIN\<rparr>))"
proof -
  have t: "config_typed ex_config"
    by (simp add: config_typed_def ex_config_def machine_config_new_def clock_default_def is_b32_def)
  have v: "config_validate ex_config = Ok ()"
    by (simp add: config_validate_def ex_config_def machine_config_new_def windows2_def)
  then have e: "canonical_encode ex_config = Ok (encode_config ex_config)" by (simp add: canonical_encode_def)
  have "default_landing ex_config = ex_config\<lparr>mc_skid_margin := DEFAULT_SKID_MARGIN\<rparr>"
    by (simp add: default_landing_def ex_config_def machine_config_new_def)
  then show ?thesis using config_canonical [of ex_config "encode_config ex_config" ex_config] t e by auto
qed

end
