(* ===== verification/Boundary.thy ===== *)
theory Boundary
  imports Machine_Config
begin

text \<open>
  The boundary engine of \<open>crates/dh-vmm/src/boundary.rs\<close> with the counter reads of
  \<open>crates/dh-detclock/src/counter.rs\<close> and the kick registration of \<open>crates/dh-vmm/src/run.rs\<close>:
  far approach by an armed overflow period, near approach by single-stepping, and one entry under
  single-step. The KVM and perf system calls are the operations of \<open>HostOps\<close>; what the engine
  relies on is stated as the named laws below. Loops that the host may keep running forever are
  partial functions. Error texts are reduced to the name of the failed call.
\<close>

unbundle bit_operations_syntax

section \<open>The host\<close>

text \<open>\<open>VcpuExit\<close> of kvm-ioctls, as far as the engines distinguish exits.\<close>

datatype 'x VcpuExit = Debug | IrqWindowOpen | OtherExit 'x

datatype 'x RunResult = RunExit "'x VcpuExit" | RunEintr | RunErr

text \<open>
  The system calls on the state \<open>'h\<close> of the vCPU and its counter: \<open>read\<close> of the perf descriptor
  (the bytes delivered, None for an error), \<open>PERF_EVENT_IOC_PERIOD\<close>, \<open>KVM_SET_GUEST_DEBUG\<close>,
  \<open>KVM_RUN\<close>, \<open>KVM_GET_REGS\<close> (rip and rcx) and the store into \<open>kvm_run.immediate_exit\<close>.
\<close>

record ('h, 'x) HostOps =
  h_perf_read :: "'h \<Rightarrow> byte list option"
  h_period :: "u64 \<Rightarrow> 'h \<Rightarrow> bool \<times> 'h"
  h_set_guest_debug :: "u32 \<Rightarrow> 'h \<Rightarrow> bool \<times> 'h"
  h_run :: "'h \<Rightarrow> 'x RunResult \<times> 'h"
  h_get_regs :: "'h \<Rightarrow> (u64 \<times> u64) option"
  h_set_immediate_exit :: "byte \<Rightarrow> 'h \<Rightarrow> 'h"

text \<open>The state the code adds: the thread's kick registration and the single-step counter.\<close>

record 'h World =
  w_host :: 'h
  w_kick_target :: bool
  w_single_steps :: u64

section \<open>The counter\<close>

abbreviation NEVER_FIRES_PERIOD :: u64 where "NEVER_FIRES_PERIOD \<equiv> 0x4000000000000000"

datatype CounterError = Open string | NotPinned | Read string | Ioctl string

text \<open>The value, time enabled and time running words of the perf read format.\<close>

definition counter_read :: "('h, 'x) HostOps \<Rightarrow> 'h \<Rightarrow> (u64, CounterError) res" where
  "counter_read ops h = (case h_perf_read ops h of
     None \<Rightarrow> Err (Read ''read'')
   | Some buf \<Rightarrow>
       if length buf = 0 then Err NotPinned
       else if length buf \<noteq> 24 then Err (Read ''short read'')
       else let count = from_le (take 8 buf); enabled = from_le (take 8 (drop 8 buf)) :: u64;
                running = from_le (take 8 (drop 16 buf)) :: u64
            in if enabled > 0 \<and> running = 0 then Err NotPinned else Ok count)"

definition arm_period :: "('h, 'x) HostOps \<Rightarrow> u64 \<Rightarrow> 'h \<Rightarrow> (unit, CounterError) res \<times> 'h" where
  "arm_period ops period h = (case h_period ops period h of
     (ok, h') \<Rightarrow> (if ok then Ok () else Err (Ioctl ''PERIOD''), h'))"

section \<open>The engine\<close>

definition record_single_step_entry :: "'h World \<Rightarrow> 'h World" where
  "record_single_step_entry w = w\<lparr>w_single_steps := w_single_steps w + 1\<rparr>"

record Margins =
  mg_skid_margin :: u64
  mg_resync_slack :: u64

definition margins_default :: Margins where
  "margins_default = \<lparr>mg_skid_margin = ucast DEFAULT_SKID_MARGIN, mg_resync_slack = ucast DEFAULT_RESYNC_SLACK\<rparr>"

record Boundary =
  bd_icount :: u64
  bd_rip :: u64
  bd_rcx :: u64

datatype BoundaryError =
    Overshoot u64 u64
  | Counter CounterError
  | Kvm string
  | Exit string

text \<open>\<open>KickGuard::register\<close> and its drop.\<close>

definition kick_register :: "'h World \<Rightarrow> 'h World" where
  "kick_register w = w\<lparr>w_kick_target := True\<rparr>"

definition kick_drop :: "'h World \<Rightarrow> 'h World" where
  "kick_drop w = w\<lparr>w_kick_target := False\<rparr>"

definition clear_immediate_exit :: "('h, 'x) HostOps \<Rightarrow> 'h \<Rightarrow> 'h" where
  "clear_immediate_exit ops h = h_set_immediate_exit ops 0 h"

abbreviation KVM_GUESTDBG_ENABLE :: u32 where "KVM_GUESTDBG_ENABLE \<equiv> 1"
abbreviation KVM_GUESTDBG_SINGLESTEP :: u32 where "KVM_GUESTDBG_SINGLESTEP \<equiv> 2"

definition set_singlestep :: "('h, 'x) HostOps \<Rightarrow> bool \<Rightarrow> 'h \<Rightarrow> (unit, BoundaryError) res \<times> 'h" where
  "set_singlestep ops on h =
     (let control = if on then KVM_GUESTDBG_ENABLE OR KVM_GUESTDBG_SINGLESTEP else 0
      in case h_set_guest_debug ops control h of
           (ok, h') \<Rightarrow> (if ok then Ok () else Err (Kvm ''KVM_SET_GUEST_DEBUG''), h'))"

text \<open>
  One iteration of the landing loop ends by breaking out with a result (and whether single-step
  was turned on), by an early return through \<open>?\<close>, by a panic, or by going round again.
\<close>

datatype LandStep =
    LBreak "(Boundary, BoundaryError) res" bool
  | LReturn BoundaryError
  | LPanic
  | LContinue bool

type_synonym ('h, 'x) on_exit = "'x VcpuExit \<Rightarrow> 'h \<Rightarrow> (unit, BoundaryError) res \<times> 'h"

definition land_far ::
  "('h, 'x) HostOps \<Rightarrow> ('h, 'x) on_exit \<Rightarrow> u64 \<Rightarrow> 'h \<Rightarrow> LandStep \<times> 'h" where
  "land_far ops on_exit period h = (case arm_period ops period h of
     (Err e, h) \<Rightarrow> (LReturn (Counter e), h)
   | (Panic, h) \<Rightarrow> (LPanic, h)
   | (Ok _, h) \<Rightarrow> (case h_run ops h of
       (RunExit exit, h) \<Rightarrow> (case on_exit exit h of
           (Ok _, h) \<Rightarrow> (LContinue False, h)
         | (Err e, h) \<Rightarrow> (LReturn e, h)
         | (Panic, h) \<Rightarrow> (LPanic, h))
     | (RunEintr, h) \<Rightarrow> (LContinue False, clear_immediate_exit ops h)
     | (RunErr, h) \<Rightarrow> (LBreak (Err (Kvm ''KVM_RUN'')) False, h)))"

text \<open>Re-asserting single-step after an exit.\<close>

definition rearm :: "('h, 'x) HostOps \<Rightarrow> 'h \<Rightarrow> LandStep \<times> 'h" where
  "rearm ops h = (case set_singlestep ops True h of
     (Ok _, h) \<Rightarrow> (LContinue True, h)
   | (Err e, h) \<Rightarrow> (LReturn e, h)
   | (Panic, h) \<Rightarrow> (LPanic, h))"

text \<open>One entry of the near approach; single-step is on.\<close>

definition near_step :: "('h, 'x) HostOps \<Rightarrow> ('h, 'x) on_exit \<Rightarrow> 'h \<Rightarrow> LandStep \<times> 'h" where
  "near_step ops on_exit h = (case h_run ops h of
     (RunExit exit, h) \<Rightarrow> (case exit of
         Debug \<Rightarrow> rearm ops h
       | _ \<Rightarrow> (case on_exit exit h of
           (Ok _, h) \<Rightarrow> rearm ops h
         | (Err e, h) \<Rightarrow> (LReturn e, h)
         | (Panic, h) \<Rightarrow> (LPanic, h)))
   | (RunEintr, h) \<Rightarrow> (LContinue True, clear_immediate_exit ops h)
   | (RunErr, h) \<Rightarrow> (LBreak (Err (Kvm ''KVM_RUN'')) True, h))"

text \<open>Parking the period and turning single-step on, at the start of the near approach.\<close>

definition near_enter :: "('h, 'x) HostOps \<Rightarrow> bool \<Rightarrow> 'h \<Rightarrow> (unit, BoundaryError) res \<times> 'h" where
  "near_enter ops stepping h =
     (if stepping then (Ok (), h)
      else case arm_period ops NEVER_FIRES_PERIOD h of
        (Err e, h) \<Rightarrow> (Err (Counter e), h)
      | (Panic, h) \<Rightarrow> (Panic, h)
      | (Ok _, h) \<Rightarrow> set_singlestep ops True h)"

text \<open>
  The near approach; the Boolean of the result says whether an entry was made (and counted by
  \<open>record_single_step_entry\<close>).
\<close>

definition land_near ::
  "('h, 'x) HostOps \<Rightarrow> ('h, 'x) on_exit \<Rightarrow> bool \<Rightarrow> 'h World \<Rightarrow> LandStep \<times> 'h World" where
  "land_near ops on_exit stepping w = (case near_enter ops stepping (w_host w) of
     (Err e, h) \<Rightarrow> (LReturn e, w\<lparr>w_host := h\<rparr>)
   | (Panic, h) \<Rightarrow> (LPanic, w\<lparr>w_host := h\<rparr>)
   | (Ok _, h) \<Rightarrow> (case near_step ops on_exit h of
       (r, h) \<Rightarrow> (r, (record_single_step_entry w)\<lparr>w_host := h\<rparr>)))"

definition land_iter ::
  "('h, 'x) HostOps \<Rightarrow> ('h, 'x) on_exit \<Rightarrow> u64 \<Rightarrow> Margins \<Rightarrow> bool \<Rightarrow> 'h World \<Rightarrow> LandStep \<times> 'h World" where
  "land_iter ops on_exit target margins stepping w = (case counter_read ops (w_host w) of
     Err e \<Rightarrow> (LReturn (Counter e), w)
   | Panic \<Rightarrow> (LPanic, w)
   | Ok c \<Rightarrow>
       if c > target then (LBreak (Err (Overshoot target c)) stepping, w)
       else if c = target then
         (case h_get_regs ops (w_host w) of
            None \<Rightarrow> (LReturn (Kvm ''KVM_GET_REGS''), w)
          | Some (rip, rcx) \<Rightarrow> (LBreak (Ok \<lparr>bd_icount = c, bd_rip = rip, bd_rcx = rcx\<rparr>) stepping, w))
       else let d = target - c in
         if stepping then land_near ops on_exit stepping w
         else (case checked_add (mg_skid_margin margins) (mg_resync_slack margins) of
             None \<Rightarrow> (LPanic, w)
           | Some near \<Rightarrow>
               if d > near then
                 (case land_far ops on_exit (d - mg_skid_margin margins) (w_host w) of
                    (r, h) \<Rightarrow> (r, w\<lparr>w_host := h\<rparr>))
               else land_near ops on_exit stepping w))"

partial_function (option) land_loop ::
  "('h, 'x) HostOps \<Rightarrow> ('h, 'x) on_exit \<Rightarrow> u64 \<Rightarrow> Margins \<Rightarrow> bool \<Rightarrow> 'h World \<Rightarrow> (LandStep \<times> 'h World) option" where
  "land_loop ops on_exit target margins stepping w = (case land_iter ops on_exit target margins stepping w of
     (r, w') \<Rightarrow> (case r of
         LContinue stepping' \<Rightarrow> land_loop ops on_exit target margins stepping' w'
       | LBreak x y \<Rightarrow> Some (r, w')
       | LReturn x \<Rightarrow> Some (r, w')
       | LPanic \<Rightarrow> Some (r, w')))"

text \<open>What follows the loop: single-step is dropped, and an error of that call takes precedence.\<close>

definition land_finish ::
  "('h, 'x) HostOps \<Rightarrow> LandStep \<Rightarrow> 'h World \<Rightarrow> (Boundary, BoundaryError) res \<times> 'h World" where
  "land_finish ops r w = (case r of
     LBreak result stepping \<Rightarrow>
       if stepping then
         (case set_singlestep ops False (w_host w) of
            (Ok _, h) \<Rightarrow> (result, w\<lparr>w_host := h\<rparr>)
          | (Err e, h) \<Rightarrow> (Err e, w\<lparr>w_host := h\<rparr>)
          | (Panic, h) \<Rightarrow> (Panic, w\<lparr>w_host := h\<rparr>))
       else (result, w)
   | LReturn e \<Rightarrow> (Err e, w)
   | _ \<Rightarrow> (Panic, w))"

definition land_at ::
  "('h, 'x) HostOps \<Rightarrow> ('h, 'x) on_exit \<Rightarrow> u64 \<Rightarrow> Margins \<Rightarrow> 'h World
   \<Rightarrow> ((Boundary, BoundaryError) res \<times> 'h World) option" where
  "land_at ops on_exit target margins w =
     map_option (\<lambda>(r, w). case land_finish ops r w of (result, w) \<Rightarrow> (result, kick_drop w))
       (land_loop ops on_exit target margins False (kick_register w))"

section \<open>One entry under single-step\<close>

datatype EntryStep = EBreak "(unit, BoundaryError) res" | EReturn BoundaryError | EPanic | EContinue

definition entry_step :: "('h, 'x) HostOps \<Rightarrow> ('h, 'x) on_exit \<Rightarrow> 'h \<Rightarrow> EntryStep \<times> 'h" where
  "entry_step ops on_exit h = (case h_run ops h of
     (RunExit exit, h) \<Rightarrow> (case exit of
         Debug \<Rightarrow> (EBreak (Ok ()), h)
       | _ \<Rightarrow> (case on_exit exit h of
           (Err e, h) \<Rightarrow> (EBreak (Err e), h)
         | (Panic, h) \<Rightarrow> (EPanic, h)
         | (Ok _, h) \<Rightarrow> (case set_singlestep ops True h of
               (Ok _, h) \<Rightarrow> (EContinue, h)
             | (Err e, h) \<Rightarrow> (EReturn e, h)
             | (Panic, h) \<Rightarrow> (EPanic, h))))
   | (RunEintr, h) \<Rightarrow> (EContinue, clear_immediate_exit ops h)
   | (RunErr, h) \<Rightarrow> (EBreak (Err (Kvm ''KVM_RUN'')), h))"

partial_function (option) entry_loop ::
  "('h, 'x) HostOps \<Rightarrow> ('h, 'x) on_exit \<Rightarrow> 'h World \<Rightarrow> (EntryStep \<times> 'h World) option" where
  "entry_loop ops on_exit w = (case entry_step ops on_exit (w_host w) of
     (r, h) \<Rightarrow> (let w' = (record_single_step_entry w)\<lparr>w_host := h\<rparr> in
       case r of
         EContinue \<Rightarrow> entry_loop ops on_exit w'
       | EBreak x \<Rightarrow> Some (r, w')
       | EReturn x \<Rightarrow> Some (r, w')
       | EPanic \<Rightarrow> Some (r, w')))"

text \<open>After the entry: single-step off, then the new boundary; \<open>debug_assert\<close> is a panic.\<close>

definition entry_finish ::
  "('h, 'x) HostOps \<Rightarrow> EntryStep \<Rightarrow> 'h World \<Rightarrow> (Boundary, BoundaryError) res \<times> 'h World" where
  "entry_finish ops r w = (case r of
     EBreak result \<Rightarrow>
       (case set_singlestep ops False (w_host w) of
          (Err e, h) \<Rightarrow> (Err e, w\<lparr>w_host := h\<rparr>)
        | (Panic, h) \<Rightarrow> (Panic, w\<lparr>w_host := h\<rparr>)
        | (Ok _, h) \<Rightarrow>
            (res_bind result (\<lambda>_. res_bind (map_err Counter (counter_read ops h)) (\<lambda>icount.
               if icount > 0 then
                 (case h_get_regs ops h of
                    None \<Rightarrow> Err (Kvm ''KVM_GET_REGS'')
                  | Some (rip, rcx) \<Rightarrow> Ok \<lparr>bd_icount = icount, bd_rip = rip, bd_rcx = rcx\<rparr>)
               else Panic)), w\<lparr>w_host := h\<rparr>))
   | EReturn e \<Rightarrow> (Err e, w)
   | _ \<Rightarrow> (Panic, w))"

definition step_one_entry ::
  "('h, 'x) HostOps \<Rightarrow> ('h, 'x) on_exit \<Rightarrow> 'h World \<Rightarrow> ((Boundary, BoundaryError) res \<times> 'h World) option" where
  "step_one_entry ops on_exit w = (let w = kick_register w in
     case set_singlestep ops True (w_host w) of
       (Err e, h) \<Rightarrow> Some (Err e, kick_drop (w\<lparr>w_host := h\<rparr>))
     | (Panic, h) \<Rightarrow> Some (Panic, kick_drop (w\<lparr>w_host := h\<rparr>))
     | (Ok _, h) \<Rightarrow> map_option (\<lambda>(r, w). case entry_finish ops r w of (result, w) \<Rightarrow> (result, kick_drop w))
         (entry_loop ops on_exit (w\<lparr>w_host := h\<rparr>)))"

section \<open>What the engine relies on\<close>

text \<open>
  What can be said of a host state: the retired-instruction count, whether single-step is armed,
  the count at which the overflow signal fires, a bound on the entries the current instruction
  still needs (repetitions of a string instruction, unfinished emulation), and whether no
  interrupt is queued for delivery, and whether the immediate-exit byte of \<open>kvm_run\<close> is set. The
  bound also counts the queued kick signals that are still to be delivered.
\<close>

record 'h Obs =
  o_icount :: "'h \<Rightarrow> u64"
  o_armed :: "'h \<Rightarrow> bool"
  o_pmi :: "'h \<Rightarrow> nat"
  o_work :: "'h \<Rightarrow> nat"
  o_quiet :: "'h \<Rightarrow> bool"
  o_kicked :: "'h \<Rightarrow> bool"

text \<open>Single-step is on exactly when the last successful \<open>KVM_SET_GUEST_DEBUG\<close> asked for it, except that an entry may consume it.\<close>

definition debug_faithful :: "('h, 'x) HostOps \<Rightarrow> ('h, 'x) on_exit \<Rightarrow> ('h \<Rightarrow> bool) \<Rightarrow> bool" where
  "debug_faithful ops on_exit armed \<longleftrightarrow>
     (\<forall>h h'. h_set_guest_debug ops 0 h = (True, h') \<longrightarrow> \<not> armed h')
   \<and> (\<forall>p h. armed (snd (h_period ops p h)) \<longrightarrow> armed h)
   \<and> (\<forall>h. armed (snd (h_run ops h)) \<longrightarrow> armed h)
   \<and> (\<forall>b h. armed (h_set_immediate_exit ops b h) \<longrightarrow> armed h)
   \<and> (\<forall>x h. armed (snd (on_exit x h)) \<longrightarrow> armed h)"

text \<open>The exit handler reports its own failures as exit errors (run control's handlers do).\<close>

definition exits_honest :: "('h, 'x) on_exit \<Rightarrow> bool" where
  "exits_honest on_exit \<longleftrightarrow> (\<forall>x h t c. fst (on_exit x h) \<noteq> Err (Overshoot t c))"

lemma counter_read_total [simp]: "counter_read ops h \<noteq> Panic"
  by (simp add: counter_read_def Let_def split: option.split)

lemma arm_period_total [simp]: "arm_period ops p h \<noteq> (Panic, h')"
  by (simp add: arm_period_def split: prod.split)

lemma set_singlestep_total [simp]: "set_singlestep ops on h \<noteq> (Panic, h')"
  by (simp add: set_singlestep_def Let_def split: prod.split)

text \<open>What an iteration guarantees when single-step is off or was turned on by the loop.\<close>

definition land_post ::
  "('h, 'x) HostOps \<Rightarrow> ('h, 'x) on_exit \<Rightarrow> ('h \<Rightarrow> bool) \<Rightarrow> u64 \<Rightarrow> Margins \<Rightarrow> LandStep \<Rightarrow> 'h World \<Rightarrow> bool" where
  "land_post ops on_exit armed target margins r w \<longleftrightarrow> (case r of
     LBreak res stepping \<Rightarrow> (\<not> stepping \<longrightarrow> \<not> armed (w_host w)) \<and> res \<noteq> Panic
       \<and> (\<forall>b. res = Ok b \<longrightarrow> bd_icount b = target \<and> counter_read ops (w_host w) = Ok target
            \<and> h_get_regs ops (w_host w) = Some (bd_rip b, bd_rcx b))
       \<and> (\<forall>t c. res = Err (Overshoot t c) \<longrightarrow> t = target \<and> target < c \<and> counter_read ops (w_host w) = Ok c)
   | LReturn e \<Rightarrow> \<forall>t c. e \<noteq> Overshoot t c
   | LPanic \<Rightarrow> checked_add (mg_skid_margin margins) (mg_resync_slack margins) = None \<or> (\<exists>x h. fst (on_exit x h) = Panic)
   | LContinue stepping \<Rightarrow> \<not> stepping \<longrightarrow> \<not> armed (w_host w))"

lemma set_singlestep_error: "set_singlestep ops on h = (Err e, h') \<Longrightarrow> e = Kvm ''KVM_SET_GUEST_DEBUG''"
  by (simp add: set_singlestep_def Let_def split: prod.splits if_splits)

lemma land_far_post:
  assumes "debug_faithful ops on_exit armed" "exits_honest on_exit" "\<not> armed h" "land_far ops on_exit p h = (r, h')"
  shows "land_post ops on_exit armed target margins r (w\<lparr>w_host := h'\<rparr>)"
proof -
  have run: "\<not> armed h2" if "h_run ops h1 = (rr, h2)" "\<not> armed h1" for h1 h2 rr
    using assms(1) that unfolding debug_faithful_def by (metis snd_conv)
  have ex: "\<not> armed h2" if "on_exit x h1 = (rr, h2)" "\<not> armed h1" for x h1 h2 rr
    using assms(1) that unfolding debug_faithful_def by (metis snd_conv)
  have arm: "\<not> armed h2" if "arm_period ops p h = (rr, h2)" for h2 rr
    using assms(1,3) that unfolding debug_faithful_def arm_period_def by (metis (no_types, lifting) case_prod_beta snd_conv)
  have im: "\<not> armed (clear_immediate_exit ops h1)" if "\<not> armed h1" for h1
    using assms(1) that unfolding debug_faithful_def clear_immediate_exit_def by blast
  have ho: "e \<noteq> Overshoot t c" if "on_exit x h1 = (Err e, h2)" for x h1 h2 e t c
    using assms(2) that unfolding exits_honest_def by (metis fst_conv)
  have pa: "\<exists>x h. fst (on_exit x h) = Panic" if "on_exit x h1 = (Panic, h2)" for x h1 h2
    using that by (metis fst_conv)
  show ?thesis
    using assms(4) arm run ex im ho pa
    unfolding land_far_def land_post_def
    by (auto split: prod.splits res.splits RunResult.splits)
qed

lemma rearm_post:
  "rearm ops h = (r, h') \<Longrightarrow> land_post ops on_exit armed target margins r (w\<lparr>w_host := h'\<rparr>)"
  by (auto simp: rearm_def land_post_def dest: set_singlestep_error split: prod.splits res.splits)

lemma near_step_post:
  assumes "exits_honest on_exit" "near_step ops on_exit h = (r, h')"
  shows "land_post ops on_exit armed target margins r (w\<lparr>w_host := h'\<rparr>)"
proof -
  have ho: "e \<noteq> Overshoot t c" if "on_exit x h1 = (Err e, h2)" for x h1 h2 e t c
    using assms(1) that unfolding exits_honest_def by (metis fst_conv)
  have pa: "\<exists>x h. fst (on_exit x h) = Panic" if "on_exit x h1 = (Panic, h2)" for x h1 h2
    using that by (metis fst_conv)
  have le: "land_post ops on_exit armed target margins (LReturn e) (w\<lparr>w_host := h2\<rparr>)" if "on_exit x h1 = (Err e, h2)" for x h1 h2 e
    using ho [OF that] by (simp add: land_post_def)
  have lp: "land_post ops on_exit armed target margins LPanic (w\<lparr>w_host := h2\<rparr>)" if "on_exit x h1 = (Panic, h2)" for x h1 h2
    using pa [OF that] by (simp add: land_post_def)
  have lc: "land_post ops on_exit armed target margins (LContinue True) w"
    "land_post ops on_exit armed target margins (LBreak (Err (Kvm m)) True) w" for w m
    by (simp_all add: land_post_def)
  show ?thesis
    using assms(2) unfolding near_step_def
    by (auto simp: lc le lp intro: rearm_post split: prod.splits res.splits RunResult.splits VcpuExit.splits)
qed

lemma land_near_post:
  assumes "exits_honest on_exit" "land_near ops on_exit stepping w = (r, w')"
  shows "land_post ops on_exit armed target margins r w'"
proof -
  have "e \<noteq> Overshoot t c" if "near_enter ops stepping h = (Err e, h')" for e h h' t c
    using that by (auto simp: near_enter_def dest: set_singlestep_error split: if_splits prod.splits res.splits)
  moreover have "near_enter ops stepping h \<noteq> (Panic, h')" for h h'
    by (simp add: near_enter_def split: prod.splits res.splits)
  ultimately show ?thesis
    using assms near_step_post [OF assms(1)]
    unfolding land_near_def
    by (auto simp: land_post_def [of _ _ _ _ _ "LReturn _"] split: prod.splits res.splits)
qed

lemma land_iter_post:
  assumes "debug_faithful ops on_exit armed" "exits_honest on_exit" "\<not> stepping \<longrightarrow> \<not> armed (w_host w)"
    "land_iter ops on_exit target margins stepping w = (r, w')"
  shows "land_post ops on_exit armed target margins r w'"
proof -
  have far: "land_post ops on_exit armed target margins r (w\<lparr>w_host := h\<rparr>)"
    if "\<not> stepping" "land_far ops on_exit p (w_host w) = (r, h)" for p h
    using land_far_post [OF assms(1,2) _ that(2)] assms(3) that(1) by blast
  show ?thesis
    using assms(3,4) far land_near_post [OF assms(2)]
    unfolding land_iter_def
    by (auto simp: Let_def land_post_def [of _ _ _ _ _ "LBreak _ _"] land_post_def [of _ _ _ _ _ "LReturn _"]
        land_post_def [of _ _ _ _ _ LPanic]
        split: res.splits if_splits option.splits prod.splits)
qed

lemma land_loop_post:
  assumes "debug_faithful ops on_exit armed" "exits_honest on_exit"
    and "land_loop ops on_exit target margins stepping w = Some (r, w')" "\<not> stepping \<longrightarrow> \<not> armed (w_host w)"
  shows "land_post ops on_exit armed target margins r w' \<and> (\<forall>st. r \<noteq> LContinue st)"
proof -
  let ?P = "\<lambda>ops on_exit target margins stepping w y. debug_faithful ops on_exit armed \<longrightarrow> exits_honest on_exit \<longrightarrow>
     (\<not> stepping \<longrightarrow> \<not> armed (w_host w)) \<longrightarrow>
     land_post ops on_exit armed target margins (fst y) (snd y) \<and> (\<forall>st. fst y \<noteq> LContinue st)"
  have "?P ops on_exit target margins stepping w (r, w')"
  proof (rule land_loop.raw_induct [where P = ?P, OF _ assms(3)], intro impI)
    fix loop and ops :: "('a, 'b) HostOps" and on_exit target margins stepping w y
    assume IH: "\<And>ops (on_exit :: ('a, 'b) on_exit) target margins stepping w y.
        loop ops on_exit target margins stepping w = Some y \<Longrightarrow> ?P ops on_exit target margins stepping w y"
      and y: "(case land_iter ops on_exit target margins stepping w of
         (r, w') \<Rightarrow> case r of LContinue stepping' \<Rightarrow> loop ops on_exit target margins stepping' w' | _ \<Rightarrow> Some (r, w')) = Some y"
      and a: "debug_faithful ops on_exit armed" "exits_honest on_exit" "\<not> stepping \<longrightarrow> \<not> armed (w_host w)"
    obtain r w' where i: "land_iter ops on_exit target margins stepping w = (r, w')" by fastforce
    note p = land_iter_post [OF a i]
    show "land_post ops on_exit armed target margins (fst y) (snd y) \<and> (\<forall>st. fst y \<noteq> LContinue st)"
    proof (cases r)
      case (LContinue st)
      then have "loop ops on_exit target margins st w' = Some y" "\<not> st \<longrightarrow> \<not> armed (w_host w')"
        using y i p by (simp_all add: land_post_def)
      then show ?thesis using IH a by blast
    qed (use y i p in auto)
  qed
  then show ?thesis using assms by simp
qed

text \<open>The host state in which the loop ended, but for turning single-step off.\<close>

definition left_at :: "('h, 'x) HostOps \<Rightarrow> 'h \<Rightarrow> 'h \<Rightarrow> bool" where
  "left_at ops h h' \<longleftrightarrow> h' = h \<or> set_singlestep ops False h = (Ok (), h')"

text \<open>
  C35. No false landing. Suppose the vCPU starts with single-step off, that only a request to turn
  it on arms single-step, and that the exit handler does not report overshoots of its own; nothing
  is assumed of the counter, of how far an entry runs or of the results of the host calls. If the
  engine reports a boundary, then in the host state it leaves, but for turning single-step off, the
  counter reads exactly the target and the registers are the reported ones; if it reports an
  overshoot, then in that state the counter reads the reported count, which is past the target; in
  both cases single-step is off. The kick target is always unregistered, and the engine panics only
  if the margins overflow or the exit handler panics.
\<close>

theorem land_sound:
  assumes "debug_faithful ops on_exit armed" and "exits_honest on_exit" and "\<not> armed (w_host w)"
    and "land_at ops on_exit target margins w = Some (r, w')"
  shows "\<not> w_kick_target w'
    \<and> (\<forall>b. r = Ok b \<longrightarrow> bd_icount b = target \<and> \<not> armed (w_host w')
         \<and> (\<exists>h. left_at ops h (w_host w') \<and> counter_read ops h = Ok target
              \<and> h_get_regs ops h = Some (bd_rip b, bd_rcx b)))
    \<and> (\<forall>t c. r = Err (Overshoot t c) \<longrightarrow> t = target \<and> target < c \<and> \<not> armed (w_host w')
         \<and> (\<exists>h. left_at ops h (w_host w') \<and> counter_read ops h = Ok c))
    \<and> (r = Panic \<longrightarrow> checked_add (mg_skid_margin margins) (mg_resync_slack margins) = None
         \<or> (\<exists>x h. fst (on_exit x h) = Panic))"
proof -
  obtain ls w1 where l: "land_loop ops on_exit target margins False (kick_register w) = Some (ls, w1)"
    and f: "(case land_finish ops ls w1 of (result, w) \<Rightarrow> (result, kick_drop w)) = (r, w')"
    using assms(4) by (auto simp: land_at_def)
  have p: "land_post ops on_exit armed target margins ls w1" "\<And>st. ls \<noteq> LContinue st"
    using land_loop_post [OF assms(1,2) l] assms(3) by (auto simp: kick_register_def)
  have off: "\<not> armed h'" if "set_singlestep ops False h = (Ok (), h')" for h h'
  proof -
    have "h_set_guest_debug ops 0 h = (True, h')"
      using that by (auto simp: set_singlestep_def split: prod.splits if_splits)
    then show ?thesis using assms(1) unfolding debug_faithful_def by blast
  qed
  show ?thesis
  proof (cases ls)
    case (LBreak res st)
    note lp = p(1) [unfolded LBreak land_post_def, simplified]
    show ?thesis
    proof (cases "st \<longrightarrow> fst (set_singlestep ops False (w_host w1)) = Ok ()")
      case True
      then have "r = res" "\<not> armed (w_host w')" "\<not> w_kick_target w'" "left_at ops (w_host w1) (w_host w')"
        using f lp off [of "w_host w1"]
        by (auto simp: LBreak land_finish_def kick_drop_def left_at_def split: if_splits prod.splits)
      then show ?thesis using lp by blast
    next
      case False
      then obtain e h where e: "set_singlestep ops False (w_host w1) = (Err e, h)" "st"
        by (cases "set_singlestep ops False (w_host w1)", cases "fst (set_singlestep ops False (w_host w1))") auto
      then have "r = Err e" "\<not> w_kick_target w'"
        using f by (auto simp: LBreak land_finish_def kick_drop_def)
      then show ?thesis using set_singlestep_error [OF e(1)] by simp
    qed
  qed (use f p in \<open>auto simp: land_finish_def land_post_def kick_drop_def\<close>)
qed

section \<open>Landing succeeds\<close>

text \<open>
  The laws of a working host, below a limit on the instruction count (the cap on a segment).
  The counter reads the retired-instruction count. Nothing but an entry retires instructions; a call
  may see a queued kick signal delivered, whose handler sets the immediate-exit byte. Storing zero
  into that byte clears it, unless another queued signal is delivered right then. While the byte is
  set, an entry returns \<open>EINTR\<close> at once: it retires nothing and leaves the byte set. Otherwise an
  entry without a queued interrupt either retires instructions or gets closer to retiring one; with
  single-step armed it retires at most one; without it, it stops within the skid of the armed
  overflow. An entry may consume the arming of single-step unless it was interrupted, and a kick
  during the entry may leave the immediate-exit byte set. The instruction pointer is a function of
  the count.
\<close>

definition counter_laws :: "('h, 'x) HostOps \<Rightarrow> 'h Obs \<Rightarrow> bool" where
  "counter_laws ops ob \<longleftrightarrow> (\<forall>h. \<exists>en rn. (en = 0 \<or> rn \<noteq> 0)
     \<and> h_perf_read ops h = Some (to_le (o_icount ob h) @ to_le (en :: u64) @ to_le (rn :: u64)))"

text \<open>What a host call does to the guest: nothing, but a queued kick may be delivered during it.\<close>

definition same_guest :: "'h Obs \<Rightarrow> 'h \<Rightarrow> 'h \<Rightarrow> bool" where
  "same_guest ob h h' \<longleftrightarrow> o_icount ob h' = o_icount ob h \<and> o_quiet ob h' = o_quiet ob h
     \<and> (o_work ob h' < o_work ob h \<or> o_work ob h' = o_work ob h \<and> (o_kicked ob h' \<longrightarrow> o_kicked ob h))"

definition call_laws :: "('h, 'x) HostOps \<Rightarrow> 'h Obs \<Rightarrow> bool" where
  "call_laws ops ob \<longleftrightarrow>
     (\<forall>p h. \<exists>h'. h_period ops p h = (True, h') \<and> same_guest ob h h' \<and> o_armed ob h' = o_armed ob h
        \<and> o_pmi ob h' = unat (o_icount ob h) + unat p)
   \<and> (\<forall>c h. \<exists>h'. h_set_guest_debug ops c h = (True, h') \<and> same_guest ob h h'
        \<and> o_armed ob h' = (c = KVM_GUESTDBG_ENABLE OR KVM_GUESTDBG_SINGLESTEP))
   \<and> (\<forall>h. same_guest ob h (h_set_immediate_exit ops 0 h)
        \<and> o_armed ob (h_set_immediate_exit ops 0 h) = o_armed ob h
        \<and> (o_kicked ob (h_set_immediate_exit ops 0 h) \<longrightarrow> o_work ob (h_set_immediate_exit ops 0 h) < o_work ob h))"

definition run_laws :: "('h, 'x) HostOps \<Rightarrow> 'h Obs \<Rightarrow> nat \<Rightarrow> nat \<Rightarrow> bool" where
  "run_laws ops ob skid limit \<longleftrightarrow> (\<forall>h r h'. o_quiet ob h \<longrightarrow> unat (o_icount ob h) < limit \<longrightarrow> h_run ops h = (r, h') \<longrightarrow>
       (o_kicked ob h \<longrightarrow> r = RunEintr \<and> o_kicked ob h' \<and> o_quiet ob h' \<and> o_icount ob h' = o_icount ob h
          \<and> o_work ob h' \<le> o_work ob h \<and> o_armed ob h' = o_armed ob h)
     \<and> (\<not> o_kicked ob h \<longrightarrow> r \<noteq> RunErr \<and> o_quiet ob h' \<and> o_icount ob h \<le> o_icount ob h'
          \<and> (o_icount ob h' = o_icount ob h \<longrightarrow> o_work ob h' < o_work ob h)
          \<and> (o_armed ob h \<longrightarrow> unat (o_icount ob h') \<le> unat (o_icount ob h) + 1)
          \<and> (\<not> o_armed ob h \<longrightarrow> unat (o_icount ob h) \<le> o_pmi ob h \<longrightarrow> unat (o_icount ob h') \<le> o_pmi ob h + skid)
          \<and> (\<not> o_armed ob h \<longrightarrow> \<not> o_armed ob h')
          \<and> (r = RunEintr \<longrightarrow> o_armed ob h' = o_armed ob h)))"

definition exit_laws :: "('h, 'x) on_exit \<Rightarrow> 'h Obs \<Rightarrow> bool" where
  "exit_laws on_exit ob \<longleftrightarrow> (\<forall>x h. \<exists>h'. on_exit x h = (Ok (), h') \<and> same_guest ob h h' \<and> o_armed ob h' = o_armed ob h)"

definition regs_laws :: "('h, 'x) HostOps \<Rightarrow> 'h Obs \<Rightarrow> (u64 \<Rightarrow> u64) \<Rightarrow> bool" where
  "regs_laws ops ob rip_at \<longleftrightarrow> (\<forall>h. \<exists>rcx. h_get_regs ops h = Some (rip_at (o_icount ob h), rcx))"

lemma counter_law: "counter_laws ops ob \<Longrightarrow> counter_read ops h = Ok (o_icount ob h)"
proof -
  assume "counter_laws ops ob"
  then obtain en rn :: u64 where "en = 0 \<or> rn \<noteq> 0" "h_perf_read ops h = Some (to_le (o_icount ob h) @ to_le en @ to_le rn)"
    unfolding counter_laws_def by metis
  then show ?thesis by (auto simp: counter_read_def wire word_gt_0)
qed

lemma arm_law:
  assumes "call_laws ops ob"
  obtains h' where "arm_period ops p h = (Ok (), h')" "same_guest ob h h'" "o_armed ob h' = o_armed ob h"
    "o_pmi ob h' = unat (o_icount ob h) + unat p"
proof -
  obtain h' where "h_period ops p h = (True, h')" "same_guest ob h h'" "o_armed ob h' = o_armed ob h"
    "o_pmi ob h' = unat (o_icount ob h) + unat p"
    using assms unfolding call_laws_def by blast
  then show thesis by (intro that) (simp_all add: arm_period_def)
qed

lemma step_law:
  assumes "call_laws ops ob"
  obtains h' where "set_singlestep ops on h = (Ok (), h')" "same_guest ob h h'" "o_armed ob h' = on"
proof -
  let ?c = "if on then KVM_GUESTDBG_ENABLE OR KVM_GUESTDBG_SINGLESTEP else 0"
  obtain h' where h': "h_set_guest_debug ops ?c h = (True, h')" "same_guest ob h h'"
    "o_armed ob h' = (?c = KVM_GUESTDBG_ENABLE OR KVM_GUESTDBG_SINGLESTEP)"
    using assms unfolding call_laws_def by blast
  moreover have "(?c = KVM_GUESTDBG_ENABLE OR KVM_GUESTDBG_SINGLESTEP) = on" by simp
  ultimately show thesis by (intro that) (simp_all add: set_singlestep_def Let_def)
qed

lemma clear_law:
  "call_laws ops ob \<Longrightarrow> same_guest ob h (clear_immediate_exit ops h) \<and> o_armed ob (clear_immediate_exit ops h) = o_armed ob h
     \<and> (o_kicked ob (clear_immediate_exit ops h) \<longrightarrow> o_work ob (clear_immediate_exit ops h) < o_work ob h)"
  by (simp add: call_laws_def clear_immediate_exit_def)

lemma same_guest_trans: "same_guest ob h h1 \<Longrightarrow> same_guest ob h1 h2 \<Longrightarrow> same_guest ob h h2"
  by (auto simp: same_guest_def)

text \<open>
  Progress: instructions retire, or the bound on the entries still needed shrinks, or the
  immediate-exit byte was cleared.
\<close>

definition progress :: "'h Obs \<Rightarrow> 'h \<Rightarrow> 'h \<Rightarrow> bool" where
  "progress ob h h' \<longleftrightarrow> o_icount ob h < o_icount ob h' \<or> o_icount ob h' = o_icount ob h
     \<and> (o_work ob h' < o_work ob h \<or> o_work ob h' = o_work ob h \<and> o_kicked ob h \<and> \<not> o_kicked ob h')"

lemma progress_same: "progress ob h h1 \<Longrightarrow> same_guest ob h1 h2 \<Longrightarrow> progress ob h h2"
  by (auto simp: progress_def same_guest_def)

lemma same_progress: "same_guest ob h h1 \<Longrightarrow> progress ob h1 h2 \<Longrightarrow> progress ob h h2"
  by (auto simp: progress_def same_guest_def)

definition advances :: "'h Obs \<Rightarrow> u64 \<Rightarrow> 'h \<Rightarrow> bool \<Rightarrow> 'h \<Rightarrow> bool" where
  "advances ob target h st h' \<longleftrightarrow> o_armed ob h' = st \<and> o_quiet ob h' \<and> o_icount ob h \<le> o_icount ob h'
     \<and> o_icount ob h' \<le> target \<and> progress ob h h'"

lemma advances_same: "advances ob target h st h1 \<Longrightarrow> same_guest ob h1 h2 \<Longrightarrow> o_armed ob h2 = st' \<Longrightarrow> advances ob target h st' h2"
  using progress_same [of ob h h1 h2] by (auto simp: advances_def same_guest_def)

lemma same_advances: "same_guest ob h h1 \<Longrightarrow> advances ob target h1 st h2 \<Longrightarrow> advances ob target h st h2"
  using same_progress [of ob h h1 h2] by (auto simp: advances_def same_guest_def)

text \<open>An entry refused by the immediate-exit byte, and the store that follows it.\<close>

lemma kicked_advances:
  assumes laws: "call_laws ops ob" "run_laws ops ob skid limit"
    and h: "o_quiet ob h" "o_kicked ob h" "o_icount ob h \<le> target" "unat (o_icount ob h) < limit" "h_run ops h = (r, h1)"
  shows "r = RunEintr \<and> advances ob target h (o_armed ob h) (clear_immediate_exit ops h1)"
proof -
  have p: "r = RunEintr" "o_kicked ob h1" "o_quiet ob h1" "o_icount ob h1 = o_icount ob h" "o_work ob h1 \<le> o_work ob h"
    "o_armed ob h1 = o_armed ob h"
    using laws(2) [unfolded run_laws_def, rule_format, OF h(1,4,5)] h(2) by auto
  then show ?thesis
    using h(2,3) clear_law [OF laws(1), of h1] by (auto simp: advances_def progress_def same_guest_def)
qed

lemma near_step_advances:
  assumes laws: "call_laws ops ob" "run_laws ops ob skid limit" "exit_laws on_exit ob"
    and h: "o_quiet ob h" "o_armed ob h" "o_icount ob h < target" "unat (o_icount ob h) < limit"
  shows "\<exists>h'. near_step ops on_exit h = (LContinue True, h') \<and> advances ob target h True h'"
proof -
  obtain r h1 where r: "h_run ops h = (r, h1)" by fastforce
  show ?thesis
  proof (cases "o_kicked ob h")
    case True
    then show ?thesis using kicked_advances [OF laws(1,2) h(1) True _ h(4) r, of target] h(2,3) r
      by (auto simp: near_step_def)
  next
    case False
    have p: "r \<noteq> RunErr" "o_quiet ob h1" "o_icount ob h \<le> o_icount ob h1"
      "o_icount ob h1 = o_icount ob h \<longrightarrow> o_work ob h1 < o_work ob h"
      "unat (o_icount ob h1) \<le> unat (o_icount ob h) + 1" "r = RunEintr \<longrightarrow> o_armed ob h1"
      using laws(2) [unfolded run_laws_def, rule_format, OF h(1,4) r] False h(2) by auto
    have "o_icount ob h1 \<le> target" using p(5) h(3) by (simp add: word_le_nat_alt word_less_nat_alt)
    then have a: "advances ob target h (o_armed ob h1) h1"
      using p(2-4) by (auto simp: advances_def progress_def le_less)
    have re: "\<exists>h'. rearm ops h2 = (LContinue True, h') \<and> advances ob target h True h'" if "same_guest ob h1 h2" for h2
      by (rule step_law [OF laws(1), of True h2])
        (use that a in \<open>auto simp: rearm_def intro: advances_same same_guest_trans\<close>)
    show ?thesis
    proof (cases r)
      case (RunExit x)
      obtain h2 where "on_exit x h1 = (Ok (), h2)" "same_guest ob h1 h2"
        using laws(3) unfolding exit_laws_def by metis
      then show ?thesis using r re RunExit re [of h1]
        by (cases x) (auto simp: near_step_def same_guest_def)
    next
      case RunEintr
      then show ?thesis using r p a clear_law [OF laws(1), of h1] by (auto simp: near_step_def intro: advances_same)
    qed (use p in simp)
  qed
qed

lemma land_far_advances:
  assumes laws: "call_laws ops ob" "run_laws ops ob skid limit" "exit_laws on_exit ob"
    and h: "o_quiet ob h" "\<not> o_armed ob h" "unat (o_icount ob h) < limit" "unat (o_icount ob h) + unat p + skid \<le> unat target"
  shows "\<exists>h'. land_far ops on_exit p h = (LContinue False, h') \<and> advances ob target h False h'"
proof -
  obtain h0 where a: "arm_period ops p h = (Ok (), h0)" "same_guest ob h h0" "\<not> o_armed ob h0"
    "o_pmi ob h0 = unat (o_icount ob h) + unat p"
    using arm_law [OF laws(1), of p h] h(2) by metis
  obtain r h1 where r: "h_run ops h0 = (r, h1)" by fastforce
  have h0: "o_quiet ob h0" "unat (o_icount ob h0) < limit" "unat (o_icount ob h0) \<le> o_pmi ob h0" "o_icount ob h0 \<le> target"
    using a h by (simp_all add: same_guest_def word_le_nat_alt)
  have "\<exists>h'. land_far ops on_exit p h = (LContinue False, h') \<and> advances ob target h0 False h'"
  proof (cases "o_kicked ob h0")
    case True
    then show ?thesis using kicked_advances [OF laws(1,2) h0(1) True h0(4,2) r] a r by (auto simp: land_far_def)
  next
    case False
    have p: "r \<noteq> RunErr" "o_quiet ob h1" "o_icount ob h0 \<le> o_icount ob h1"
      "o_icount ob h1 = o_icount ob h0 \<longrightarrow> o_work ob h1 < o_work ob h0"
      "unat (o_icount ob h1) \<le> unat target" "\<not> o_armed ob h1"
      using laws(2) [unfolded run_laws_def, rule_format, OF h0(1,2) r] False h0(3) a h(4) by auto
    have "o_icount ob h1 \<le> target" using p(5) by (simp add: word_le_nat_alt)
    then have adv: "advances ob target h0 False h1" using p(2-4,6) by (auto simp: advances_def progress_def le_less)
    show ?thesis
    proof (cases r)
      case (RunExit x)
      obtain h2 where "on_exit x h1 = (Ok (), h2)" "same_guest ob h1 h2" "o_armed ob h2 = o_armed ob h1"
        using laws(3) unfolding exit_laws_def by metis
      then show ?thesis using r a RunExit advances_same [OF adv, of h2] p by (auto simp: land_far_def)
    next
      case RunEintr
      then show ?thesis using r a p clear_law [OF laws(1), of h1] advances_same [OF adv] by (auto simp: land_far_def)
    qed (use p in simp)
  qed
  then show ?thesis using same_advances [OF a(2)] by blast
qed

lemma land_near_advances:
  assumes laws: "call_laws ops ob" "run_laws ops ob skid limit" "exit_laws on_exit ob"
    and h: "o_quiet ob (w_host w)" "o_armed ob (w_host w) = st" "o_icount ob (w_host w) < target"
      "unat (o_icount ob (w_host w)) < limit"
  shows "\<exists>w'. land_near ops on_exit st w = (LContinue True, w') \<and> advances ob target (w_host w) True (w_host w')"
proof -
  obtain h0 where e: "near_enter ops st (w_host w) = (Ok (), h0)" "same_guest ob (w_host w) h0" "o_armed ob h0"
  proof (cases st)
    case False
    obtain h1 where h1: "arm_period ops NEVER_FIRES_PERIOD (w_host w) = (Ok (), h1)" "same_guest ob (w_host w) h1"
      using arm_law [OF laws(1)] by metis
    obtain h2 where "set_singlestep ops True h1 = (Ok (), h2)" "same_guest ob h1 h2" "o_armed ob h2"
      using step_law [OF laws(1), of True h1] by metis
    with h1 False show ?thesis by (intro that [of h2]) (auto simp: near_enter_def intro: same_guest_trans)
  qed (use h that in \<open>auto simp: near_enter_def same_guest_def\<close>)
  obtain h' where "near_step ops on_exit h0 = (LContinue True, h')" "advances ob target h0 True h'"
    using near_step_advances [OF laws, of h0 target] e h by (auto simp: same_guest_def)
  then show ?thesis using e same_advances [OF e(2)] by (auto simp: land_near_def)
qed

lemma land_iter_advances:
  assumes laws: "counter_laws ops ob" "call_laws ops ob" "run_laws ops ob skid limit" "exit_laws on_exit ob"
    and h: "o_quiet ob (w_host w)" "o_armed ob (w_host w) = st" "o_icount ob (w_host w) < target" "unat target \<le> limit"
    and m: "skid \<le> unat (mg_skid_margin margins)" "checked_add (mg_skid_margin margins) (mg_resync_slack margins) = Some m"
  shows "\<exists>st' w'. land_iter ops on_exit target margins st w = (LContinue st', w') \<and> advances ob target (w_host w) st' (w_host w')"
proof -
  let ?c = "o_icount ob (w_host w)"
  note c = counter_law [OF laws(1), of "w_host w"]
  have lim: "unat ?c < limit" using h(3,4) by (simp add: word_less_nat_alt)
  have far: "\<exists>h'. land_far ops on_exit (target - ?c - mg_skid_margin margins) (w_host w) = (LContinue False, h')
      \<and> advances ob target (w_host w) False h'" if "\<not> st" "m < target - ?c"
  proof (rule land_far_advances [OF laws(2-4) h(1) _ lim])
    have "unat m = unat (mg_skid_margin margins) + unat (mg_resync_slack margins)"
      using m(2) by (simp add: checked_add_Some_iff)
    moreover have "unat (target - ?c) = unat target - unat ?c" "unat ?c < unat target"
      using h(3) by (simp_all add: unat_sub less_imp_le unat_mono)
    moreover have "unat m < unat (target - ?c)" using that(2) by (simp add: word_less_nat_alt)
    ultimately show "unat ?c + unat (target - ?c - mg_skid_margin margins) + skid \<le> unat target"
      using m(1) by (simp add: unat_sub word_le_nat_alt)
  qed (use that h in simp)
  obtain w' where "land_near ops on_exit st w = (LContinue True, w')" "advances ob target (w_host w) True (w_host w')"
    using land_near_advances [OF laws(2-4) h(1-3) lim] by blast
  then show ?thesis
    using h(3) far m(2) by (cases st; cases "m < target - ?c") (auto simp: land_iter_def c Let_def)
qed

text \<open>Every iteration makes progress, so the loop ends at the target.\<close>

definition left_over :: "'h Obs \<Rightarrow> u64 \<Rightarrow> 'h \<Rightarrow> nat \<times> nat \<times> nat" where
  "left_over ob target h = (unat target - unat (o_icount ob h), o_work ob h, if o_kicked ob h then 1 else 0)"

lemma advances_left_over:
  assumes "advances ob target h st h'" "o_icount ob h < target"
  shows "(left_over ob target h', left_over ob target h) \<in> less_than <*lex*> less_than <*lex*> less_than"
proof (cases "o_icount ob h' = o_icount ob h")
  case False
  then have "unat (o_icount ob h) < unat (o_icount ob h')" using assms(1)
    by (auto simp: advances_def intro!: unat_mono order.not_eq_order_implies_strict)
  moreover have "unat (o_icount ob h) < unat target" using assms(2) by (rule unat_mono)
  ultimately show ?thesis by (simp add: left_over_def diff_less_mono2)
qed (use assms in \<open>auto simp: advances_def progress_def left_over_def\<close>)

lemma land_loop_lands:
  assumes laws: "counter_laws ops ob" "call_laws ops ob" "run_laws ops ob skid limit" "exit_laws on_exit ob" "regs_laws ops ob rip_at"
    and t: "unat target \<le> limit"
    and m: "skid \<le> unat (mg_skid_margin margins)" "checked_add (mg_skid_margin margins) (mg_resync_slack margins) = Some m"
    and h: "o_quiet ob (w_host w)" "o_armed ob (w_host w) = st" "o_icount ob (w_host w) \<le> target"
  shows "\<exists>rcx st' w'. land_loop ops on_exit target margins st w
      = Some (LBreak (Ok \<lparr>bd_icount = target, bd_rip = rip_at target, bd_rcx = rcx\<rparr>) st', w')
    \<and> o_icount ob (w_host w') = target \<and> o_armed ob (w_host w') = st' \<and> o_quiet ob (w_host w')"
  using h
proof (induction "left_over ob target (w_host w)" arbitrary: w st
    rule: wf_induct_rule [OF wf_lex_prod [OF wf_less_than wf_lex_prod [OF wf_less_than wf_less_than]]])
  case (1 w st)
  let ?c = "o_icount ob (w_host w)"
  show ?case
  proof (cases "?c = target")
    case True
    obtain rcx where "h_get_regs ops (w_host w) = Some (rip_at target, rcx)"
      using laws(5) True unfolding regs_laws_def by metis
    with True 1(2,3) show ?thesis
      by (subst land_loop.simps) (auto simp: land_iter_def counter_law [OF laws(1)])
  next
    case False
    with 1(4) have lt: "?c < target" by simp
    obtain st' w' where i: "land_iter ops on_exit target margins st w = (LContinue st', w')"
      and a: "advances ob target (w_host w) st' (w_host w')"
      using land_iter_advances [OF laws(1-4) 1(2,3) lt t m] by blast
    note dec = advances_left_over [OF a lt]
    show ?thesis
      using 1(1) [OF dec] a i by (subst land_loop.simps) (simp add: advances_def)
  qed
qed

lemma land_at_lands:
  assumes "counter_laws ops ob" and "call_laws ops ob" and "run_laws ops ob skid limit" and "exit_laws on_exit ob"
    and "regs_laws ops ob rip_at" and "unat target \<le> limit" and "skid \<le> unat (mg_skid_margin margins)"
    and "checked_add (mg_skid_margin margins) (mg_resync_slack margins) \<noteq> None"
    and "o_quiet ob (w_host w)" and "\<not> o_armed ob (w_host w)" and "o_icount ob (w_host w) \<le> target"
  obtains rcx w' where "land_at ops on_exit target margins w
        = Some (Ok \<lparr>bd_icount = target, bd_rip = rip_at target, bd_rcx = rcx\<rparr>, w')"
    "o_icount ob (w_host w') = target" "\<not> o_armed ob (w_host w')" "o_quiet ob (w_host w')" "\<not> w_kick_target w'"
proof -
  obtain m where m: "checked_add (mg_skid_margin margins) (mg_resync_slack margins) = Some m" using assms(8) by blast
  obtain rcx st w1 where l: "land_loop ops on_exit target margins False (kick_register w)
      = Some (LBreak (Ok \<lparr>bd_icount = target, bd_rip = rip_at target, bd_rcx = rcx\<rparr>) st, w1)"
    and w1: "o_icount ob (w_host w1) = target" "o_armed ob (w_host w1) = st" "o_quiet ob (w_host w1)"
    using land_loop_lands [OF assms(1-7) m, of "kick_register w" False] assms(9-11) by (auto simp: kick_register_def)
  obtain h where "set_singlestep ops False (w_host w1) = (Ok (), h)" "same_guest ob (w_host w1) h" "\<not> o_armed ob h"
    using step_law [OF assms(2), of False "w_host w1"] by metis
  with l w1 show thesis
    by (cases st) (auto intro!: that simp: land_at_def land_finish_def kick_drop_def same_guest_def)
qed


text \<open>
  A host for examples: single-step retires one instruction and is consumed; otherwise the overflow
  stops it 18 instructions late and its handler sets the immediate-exit byte, which refuses entries
  until it is cleared. A queued vector stays queued.
\<close>

record ExHost =
  xh_count :: u64
  xh_armed :: bool
  xh_pmi :: nat
  xh_immediate_exit :: byte
  xh_queued :: "u32 option"

definition ex_host_run :: "ExHost \<Rightarrow> unit RunResult \<times> ExHost" where
  "ex_host_run h =
     (if xh_immediate_exit h \<noteq> 0 then (RunEintr, h)
      else if xh_armed h then (RunExit Debug, h\<lparr>xh_count := xh_count h + 1, xh_armed := False\<rparr>)
      else if unat (xh_count h) \<le> xh_pmi h \<and> xh_pmi h + 18 < 2 ^ 64 then (RunEintr, h\<lparr>xh_count := of_nat (xh_pmi h + 18), xh_immediate_exit := 1\<rparr>)
      else (RunExit (OtherExit ()), h\<lparr>xh_count := xh_count h + 1\<rparr>))"

definition ex_host :: "(ExHost, unit) HostOps" where
  "ex_host = \<lparr>h_perf_read = (\<lambda>h. Some (to_le (xh_count h) @ to_le (0 :: u64) @ to_le (0 :: u64))),
     h_period = (\<lambda>p h. (True, h\<lparr>xh_pmi := unat (xh_count h) + unat p\<rparr>)),
     h_set_guest_debug = (\<lambda>c h. (True, h\<lparr>xh_armed := (c = 3)\<rparr>)),
     h_run = ex_host_run,
     h_get_regs = (\<lambda>h. Some (0x1000 + 4 * xh_count h, 0)),
     h_set_immediate_exit = (\<lambda>b h. h\<lparr>xh_immediate_exit := b\<rparr>)\<rparr>"

lemma ex_host_sel:
  "h_period ex_host p h = (True, h\<lparr>xh_pmi := unat (xh_count h) + unat p\<rparr>)"
  "h_set_guest_debug ex_host c h = (True, h\<lparr>xh_armed := (c = 3)\<rparr>)"
  "h_run ex_host h = ex_host_run h" "h_get_regs ex_host h = Some (0x1000 + 4 * xh_count h, 0)"
  by (simp_all add: ex_host_def)

definition ex_obs :: "ExHost Obs" where
  "ex_obs = \<lparr>o_icount = xh_count, o_armed = xh_armed, o_pmi = xh_pmi, o_work = (\<lambda>_. 0), o_quiet = (\<lambda>h. xh_queued h = None),
     o_kicked = (\<lambda>h. xh_immediate_exit h \<noteq> 0)\<rparr>"

definition ex_exit :: "(ExHost, unit) on_exit" where
  "ex_exit x h = (Ok (), h)"

lemma ex_run_progress:
  assumes "ex_host_run h = (r, h')" "unat (xh_count h) < 2 ^ 62" "xh_immediate_exit h = 0"
  shows "r \<noteq> RunErr \<and> xh_count h < xh_count h' \<and> (xh_armed h \<longrightarrow> unat (xh_count h') = unat (xh_count h) + 1)
    \<and> (\<not> xh_armed h \<longrightarrow> unat (xh_count h) \<le> xh_pmi h \<longrightarrow> unat (xh_count h') \<le> xh_pmi h + 18)
    \<and> (\<not> xh_armed h \<longrightarrow> \<not> xh_armed h') \<and> (r = RunEintr \<longrightarrow> xh_armed h' = xh_armed h) \<and> xh_queued h' = xh_queued h"
proof -
  have one: "unat (xh_count h + 1) = unat (xh_count h) + 1" using assms(2) by (simp add: unat_word_ariths)
  have big: "unat (of_nat (xh_pmi h + 18) :: u64) = xh_pmi h + 18" if "xh_pmi h + 18 < 2 ^ 64"
    using that by (simp only: unat_of_nat) simp
  show ?thesis
    using assms(1,3) one big by (auto simp: ex_host_run_def word_less_nat_alt split: if_splits)
qed

lemma ex_host_laws:
  "counter_laws ex_host ex_obs" "call_laws ex_host ex_obs" "exit_laws ex_exit ex_obs"
  "regs_laws ex_host ex_obs (\<lambda>c. 0x1000 + 4 * c)" "run_laws ex_host ex_obs 18 (2 ^ 62)"
proof -
  show "counter_laws ex_host ex_obs" by (auto simp: counter_laws_def ex_host_def ex_obs_def intro: exI [of _ 0])
  show "call_laws ex_host ex_obs" by (simp add: call_laws_def ex_host_def ex_obs_def same_guest_def)
  show "exit_laws ex_exit ex_obs" by (simp add: exit_laws_def ex_exit_def ex_obs_def same_guest_def)
  show "regs_laws ex_host ex_obs (\<lambda>c. 0x1000 + 4 * c)" by (simp add: regs_laws_def ex_host_def ex_obs_def)
  show "run_laws ex_host ex_obs 18 (2 ^ 62)"
    unfolding run_laws_def
  proof (intro allI impI)
    fix h r h' assume q: "o_quiet ex_obs h" and a: "unat (o_icount ex_obs h) < 2 ^ 62" "h_run ex_host h = (r, h')"
    then have "ex_host_run h = (r, h')" "unat (xh_count h) < 2 ^ 62" by (simp_all add: ex_host_def ex_obs_def)
    note p = ex_run_progress [OF this]
    show "(o_kicked ex_obs h \<longrightarrow> r = RunEintr \<and> o_kicked ex_obs h' \<and> o_quiet ex_obs h' \<and> o_icount ex_obs h' = o_icount ex_obs h
          \<and> o_work ex_obs h' \<le> o_work ex_obs h \<and> o_armed ex_obs h' = o_armed ex_obs h)
     \<and> (\<not> o_kicked ex_obs h \<longrightarrow> r \<noteq> RunErr \<and> o_quiet ex_obs h' \<and> o_icount ex_obs h \<le> o_icount ex_obs h'
          \<and> (o_icount ex_obs h' = o_icount ex_obs h \<longrightarrow> o_work ex_obs h' < o_work ex_obs h)
          \<and> (o_armed ex_obs h \<longrightarrow> unat (o_icount ex_obs h') \<le> unat (o_icount ex_obs h) + 1)
          \<and> (\<not> o_armed ex_obs h \<longrightarrow> unat (o_icount ex_obs h) \<le> o_pmi ex_obs h \<longrightarrow> unat (o_icount ex_obs h') \<le> o_pmi ex_obs h + 18)
          \<and> (\<not> o_armed ex_obs h \<longrightarrow> \<not> o_armed ex_obs h')
          \<and> (r = RunEintr \<longrightarrow> o_armed ex_obs h' = o_armed ex_obs h))"
    proof (cases "xh_immediate_exit h = 0")
      case True
      then show ?thesis using p q by (fastforce simp: ex_obs_def)
    next
      case False
      then show ?thesis using a(2) q by (auto simp: ex_obs_def ex_host_def ex_host_run_def)
    qed
  qed
qed


lemma ex_land:
  "land_at ex_host ex_exit 100 margins_default
        \<lparr>w_host = \<lparr>xh_count = 99, xh_armed = False, xh_pmi = 0, xh_immediate_exit = 0, xh_queued = None\<rparr>, w_kick_target = False, w_single_steps = 0\<rparr>
     = Some (Ok \<lparr>bd_icount = 100, bd_rip = 0x1000 + 4 * 100, bd_rcx = 0\<rparr>,
         \<lparr>w_host = \<lparr>xh_count = 100, xh_armed = False, xh_pmi = 99 + 2 ^ 62, xh_immediate_exit = 0, xh_queued = None\<rparr>, w_kick_target = False, w_single_steps = 1\<rparr>)"
proof -
  have c: "counter_read ex_host h = Ok (xh_count h)" for h
    using counter_law [OF ex_host_laws(1)] by (simp add: ex_obs_def)
  have i: "land_iter ex_host ex_exit 100 margins_default False
      \<lparr>w_host = \<lparr>xh_count = 99, xh_armed = False, xh_pmi = 0, xh_immediate_exit = 0, xh_queued = None\<rparr>, w_kick_target = True, w_single_steps = 0\<rparr>
    = (LContinue True, \<lparr>w_host = \<lparr>xh_count = 100, xh_armed = True, xh_pmi = 99 + 2 ^ 62, xh_immediate_exit = 0, xh_queued = None\<rparr>, w_kick_target = True, w_single_steps = 1\<rparr>)"
    by (simp add: land_iter_def c land_near_def near_enter_def near_step_def rearm_def set_singlestep_def arm_period_def
        ex_host_sel ex_host_run_def margins_default_def checked_add_def record_single_step_entry_def)
  show ?thesis
    by (simp add: land_at_def kick_register_def land_loop.simps [of _ _ _ _ False] i)
      (subst land_loop.simps, simp add: land_iter_def c land_finish_def set_singlestep_def kick_drop_def ex_host_sel)
qed

theorem land_sound_witness:
  "debug_faithful ex_host ex_exit xh_armed \<and> exits_honest ex_exit
     \<and> (\<exists>b w'. land_at ex_host ex_exit 100 margins_default
        \<lparr>w_host = \<lparr>xh_count = 99, xh_armed = False, xh_pmi = 0, xh_immediate_exit = 0, xh_queued = None\<rparr>, w_kick_target = False, w_single_steps = 0\<rparr> = Some (Ok b, w')
        \<and> bd_icount b = 100 \<and> \<not> xh_armed (w_host w') \<and> \<not> w_kick_target w')"
proof -
  have l: "debug_faithful ex_host ex_exit xh_armed" "exits_honest ex_exit"
    by (auto simp: debug_faithful_def exits_honest_def ex_host_def ex_exit_def ex_host_run_def split: if_splits)
  show ?thesis using l land_sound [OF l _ ex_land] ex_land by simp
qed

text \<open>
  The early returns of the loop skip the clean-up: if the exit handler fails while the engine is
  stepping, the error is returned with single-step still armed.
\<close>

lemma exit_error_leaves_single_step:
  assumes "counter_read ops (w_host w) = Ok c" "c < target"
    "checked_add (mg_skid_margin margins) (mg_resync_slack margins) = Some m" "target - c \<le> m"
    "near_enter ops False (w_host w) = (Ok (), h1)" "h_run ops h1 = (RunExit (OtherExit x), h2)"
    "on_exit (OtherExit x) h2 = (Err e, h3)"
  shows "land_at ops on_exit target margins w = Some (Err e, (kick_drop (record_single_step_entry w))\<lparr>w_host := h3\<rparr>)"
proof -
  have "c \<noteq> target" "\<not> target < c" "\<not> m < target - c" using assms(2,4) by auto
  with assms show ?thesis
    by (simp add: land_at_def land_loop.simps land_iter_def kick_register_def land_near_def near_step_def land_finish_def
        kick_drop_def record_single_step_entry_def Let_def)
qed

end
