(* ===== verification/Inject.thy ===== *)
theory Inject
  imports Boundary
begin

text \<open>
  Interrupt injection, \<open>crates/dh-vmm/src/inject.rs\<close>: the injectability test, queueing a vector,
  and deferring to the first injectable boundary by landing one instruction further each time. The
  KVM calls are the operations of \<open>IrqOps\<close>; landing is \<open>Boundary.land_at\<close>.
\<close>

section \<open>Operations\<close>

text \<open>
  The \<open>ready_for_interrupt_injection\<close> and \<open>if_flag\<close> bytes of \<open>kvm_run\<close>, the pending, injected and
  shadow bytes of \<open>KVM_GET_VCPU_EVENTS\<close>, and \<open>KVM_INTERRUPT\<close>.
\<close>

record 'h IrqOps =
  i_ready :: "'h \<Rightarrow> byte"
  i_if_flag :: "'h \<Rightarrow> byte"
  i_events :: "'h \<Rightarrow> (byte \<times> byte \<times> byte) option"
  i_interrupt :: "u32 \<Rightarrow> 'h \<Rightarrow> bool \<times> 'h"

record Injection =
  ij_vector :: u8
  ij_requested_icount :: u64
  ij_delivered_icount :: u64
  ij_delivered_rip :: u64

datatype InjectError =
    InjBoundary BoundaryError
  | InjKvm string
  | WindowNeverOpened u64
  | InjBadVector u8

definition injectable :: "'h IrqOps \<Rightarrow> 'h \<Rightarrow> (bool, InjectError) res" where
  "injectable irq h =
     (if i_ready irq h = 0 \<or> i_if_flag irq h = 0 then Ok False
      else case i_events irq h of
        None \<Rightarrow> Err (InjKvm ''KVM_GET_VCPU_EVENTS'')
      | Some (pending, injected, shadow) \<Rightarrow> Ok (pending = 0 \<and> injected = 0 \<and> shadow = 0))"

definition queue_interrupt :: "'h IrqOps \<Rightarrow> u8 \<Rightarrow> 'h \<Rightarrow> (unit, InjectError) res \<times> 'h" where
  "queue_interrupt irq vector h =
     (if vector < 32 then (Err (InjBadVector vector), h)
      else case i_interrupt irq (ucast vector) h of
        (ok, h') \<Rightarrow> (if ok then Ok () else Err (InjKvm ''KVM_INTERRUPT''), h'))"

text \<open>The exit handler of a deferral step: an open window is the one being polled for.\<close>

definition wrapped :: "('h, 'x) on_exit \<Rightarrow> ('h, 'x) on_exit" where
  "wrapped on_exit exit h = (case exit of IrqWindowOpen \<Rightarrow> (Ok (), h) | _ \<Rightarrow> on_exit exit h)"

text \<open>The loop of \<open>inject_at_boundary\<close>; \<open>icount + 1\<close> panics at the last count.\<close>

partial_function (option) inject_loop ::
  "('h, 'x) HostOps \<Rightarrow> 'h IrqOps \<Rightarrow> ('h, 'x) on_exit \<Rightarrow> u8 \<Rightarrow> Boundary \<Rightarrow> Margins \<Rightarrow> u64 \<Rightarrow> Boundary \<Rightarrow> u64 \<Rightarrow> 'h World
   \<Rightarrow> ((Injection, InjectError) res \<times> 'h World) option" where
  "inject_loop ops irq on_exit vector at margins max_defer_steps cur stepped w =
     (case injectable irq (w_host w) of
        Err e \<Rightarrow> Some (Err e, w)
      | Panic \<Rightarrow> Some (Panic, w)
      | Ok open \<Rightarrow>
          if open then
            (case queue_interrupt irq vector (w_host w) of
               (r, h) \<Rightarrow> Some (res_bind r (\<lambda>_. Ok \<lparr>ij_vector = vector, ij_requested_icount = bd_icount at,
                   ij_delivered_icount = bd_icount cur, ij_delivered_rip = bd_rip cur\<rparr>), w\<lparr>w_host := h\<rparr>))
          else if stepped \<ge> max_defer_steps then Some (Err (WindowNeverOpened stepped), w)
          else (case checked_add (bd_icount cur) 1 of
              None \<Rightarrow> Some (Panic, w)
            | Some target \<Rightarrow> Option.bind (land_at ops (wrapped on_exit) target margins w) (\<lambda>rw.
                case fst rw of
                  Ok b \<Rightarrow> inject_loop ops irq on_exit vector at margins max_defer_steps b (stepped + 1) (snd rw)
                | Err e \<Rightarrow> Some (Err (InjBoundary e), snd rw)
                | Panic \<Rightarrow> Some (Panic, snd rw))))"

definition inject_at_boundary ::
  "('h, 'x) HostOps \<Rightarrow> 'h IrqOps \<Rightarrow> ('h, 'x) on_exit \<Rightarrow> u8 \<Rightarrow> Boundary \<Rightarrow> Margins \<Rightarrow> u64 \<Rightarrow> 'h World
   \<Rightarrow> ((Injection, InjectError) res \<times> 'h World) option" where
  "inject_at_boundary ops irq on_exit vector at margins max_defer_steps w =
     inject_loop ops irq on_exit vector at margins max_defer_steps at 0 w"

section \<open>Deferral\<close>

text \<open>
  The guest state that decides whether an external interrupt can be delivered, and the condition
  itself: interrupts enabled and the vCPU ready for one, no exception pending or being delivered,
  no interrupt shadow.
\<close>

record GuestIrq =
  gi_ready :: bool
  gi_if :: bool
  gi_exception_pending :: bool
  gi_exception_injected :: bool
  gi_shadow :: bool

definition window_open :: "GuestIrq \<Rightarrow> bool" where
  "window_open g \<longleftrightarrow> gi_if g \<and> gi_ready g \<and> \<not> gi_exception_pending g \<and> \<not> gi_exception_injected g \<and> \<not> gi_shadow g"

text \<open>
  The laws of injection. While no vector is queued, the bytes of \<open>kvm_run\<close> and of
  \<open>KVM_GET_VCPU_EVENTS\<close> are those of the guest state, which is a function of the retired count.
  \<open>KVM_INTERRUPT\<close> queues its vector, retires nothing and leaves single-step alone.
\<close>

definition shows_guest :: "'h IrqOps \<Rightarrow> 'h \<Rightarrow> GuestIrq \<Rightarrow> bool" where
  "shows_guest irq h g \<longleftrightarrow> (i_ready irq h \<noteq> 0 \<longleftrightarrow> gi_ready g) \<and> (i_if_flag irq h \<noteq> 0 \<longleftrightarrow> gi_if g)
     \<and> (\<exists>pending injected shadow. i_events irq h = Some (pending, injected, shadow)
          \<and> (pending \<noteq> 0 \<longleftrightarrow> gi_exception_pending g) \<and> (injected \<noteq> 0 \<longleftrightarrow> gi_exception_injected g)
          \<and> (shadow \<noteq> 0 \<longleftrightarrow> gi_shadow g))"

definition window_laws :: "'h IrqOps \<Rightarrow> 'h Obs \<Rightarrow> ('h \<Rightarrow> u32 option) \<Rightarrow> (u64 \<Rightarrow> GuestIrq) \<Rightarrow> bool" where
  "window_laws irq ob queued guest_at \<longleftrightarrow>
     (\<forall>h. o_quiet ob h \<longleftrightarrow> queued h = None)
   \<and> (\<forall>h. o_quiet ob h \<longrightarrow> shows_guest irq h (guest_at (o_icount ob h)))
   \<and> (\<forall>v h. \<exists>h'. i_interrupt irq v h = (True, h') \<and> queued h' = Some v
        \<and> o_icount ob h' = o_icount ob h \<and> o_armed ob h' = o_armed ob h)"

lemma injectable_window: "shows_guest irq h g \<Longrightarrow> injectable irq h = Ok (window_open g)"
  by (auto simp: shows_guest_def injectable_def window_open_def)

lemma wrapped_laws: "exit_laws on_exit ob \<Longrightarrow> exit_laws (wrapped on_exit) ob"
  by (auto simp: exit_laws_def wrapped_def same_guest_def split: VcpuExit.split)

text \<open>What holds between deferral steps.\<close>

definition at_boundary :: "'h Obs \<Rightarrow> (u64 \<Rightarrow> u64) \<Rightarrow> Boundary \<Rightarrow> 'h World \<Rightarrow> bool" where
  "at_boundary ob rip_at b w \<longleftrightarrow> o_quiet ob (w_host w) \<and> \<not> o_armed ob (w_host w)
     \<and> bd_icount b = o_icount ob (w_host w) \<and> bd_rip b = rip_at (bd_icount b)"

definition landing_laws ::
  "('h, 'x) HostOps \<Rightarrow> ('h, 'x) on_exit \<Rightarrow> 'h Obs \<Rightarrow> nat \<Rightarrow> nat \<Rightarrow> (u64 \<Rightarrow> u64) \<Rightarrow> Margins \<Rightarrow> bool" where
  "landing_laws ops on_exit ob skid limit rip_at margins \<longleftrightarrow>
     counter_laws ops ob \<and> call_laws ops ob \<and> run_laws ops ob skid limit \<and> exit_laws on_exit ob \<and> regs_laws ops ob rip_at
   \<and> skid \<le> unat (mg_skid_margin margins) \<and> checked_add (mg_skid_margin margins) (mg_resync_slack margins) \<noteq> None"

lemma defer_step:
  assumes laws: "landing_laws ops on_exit ob skid limit rip_at margins"
    and w: "at_boundary ob rip_at cur w" and lim: "unat (bd_icount cur) < limit" "limit < 2 ^ 64"
  obtains b w' where "checked_add (bd_icount cur) 1 = Some (bd_icount cur + 1)"
    "land_at ops (wrapped on_exit) (bd_icount cur + 1) margins w = Some (Ok b, w')"
    "bd_icount b = bd_icount cur + 1" "at_boundary ob rip_at b w'"
proof -
  have u: "unat (bd_icount cur + 1) = unat (bd_icount cur) + 1" using lim by (simp add: unat_word_ariths)
  have a: "checked_add (bd_icount cur) 1 = Some (bd_icount cur + 1)"
    using lim by (simp add: checked_add_def)
  obtain rcx w' where "land_at ops (wrapped on_exit) (bd_icount cur + 1) margins w
      = Some (Ok \<lparr>bd_icount = bd_icount cur + 1, bd_rip = rip_at (bd_icount cur + 1), bd_rcx = rcx\<rparr>, w')"
    "o_icount ob (w_host w') = bd_icount cur + 1" "\<not> o_armed ob (w_host w')" "o_quiet ob (w_host w')"
  proof (rule land_at_lands [of ops ob skid limit "wrapped on_exit" rip_at "bd_icount cur + 1" margins w])
    show "unat (bd_icount cur + 1) \<le> limit" using u lim by simp
    show "o_icount ob (w_host w) \<le> bd_icount cur + 1" using u w by (simp add: at_boundary_def word_le_nat_alt)
  qed (use laws w wrapped_laws in \<open>auto simp: landing_laws_def at_boundary_def\<close>)
  with a show thesis by (intro that) (auto simp: at_boundary_def)
qed

lemma window_law:
  "window_laws irq ob queued guest_at \<Longrightarrow> at_boundary ob rip_at b w \<Longrightarrow>
     injectable irq (w_host w) = Ok (window_open (guest_at (bd_icount b))) \<and> queued (w_host w) = None"
  using injectable_window [of irq "w_host w"] by (simp add: window_laws_def at_boundary_def)

text \<open>A closed window within the budget: the loop goes on from the next boundary.\<close>

lemma inject_loop_defers:
  assumes "landing_laws ops on_exit ob skid limit rip_at margins" "window_laws irq ob queued guest_at" "limit < 2 ^ 64"
    and w: "at_boundary ob rip_at cur w" "\<not> window_open (guest_at (bd_icount cur))" "unat (bd_icount cur) < limit" "unat stepped < unat max_defer"
  obtains b w' where
    "inject_loop ops irq on_exit vector at margins max_defer cur stepped w
       = inject_loop ops irq on_exit vector at margins max_defer b (stepped + 1) w'"
    "at_boundary ob rip_at b w'" "\<And>k. bd_icount b + of_nat k = bd_icount cur + of_nat (Suc k)"
    "unat (bd_icount b) = unat (bd_icount cur) + 1" "unat (stepped + 1) = unat stepped + 1"
proof -
  have i: "injectable irq (w_host w) = Ok False" using window_law [OF assms(2) w(1)] w(2) by simp
  have s: "\<not> max_defer \<le> stepped" "unat (stepped + 1) = unat stepped + 1"
    using w(4) unat_lt_pow [of max_defer] by (simp_all add: word_le_nat_alt unat_word_ariths)
  obtain b w' where b: "checked_add (bd_icount cur) 1 = Some (bd_icount cur + 1)"
    "land_at ops (wrapped on_exit) (bd_icount cur + 1) margins w = Some (Ok b, w')"
    "bd_icount b = bd_icount cur + 1" "at_boundary ob rip_at b w'"
    by (rule defer_step [OF assms(1) w(1,3) assms(3)])
  have u: "unat (bd_icount b) = unat (bd_icount cur) + 1" using b(3) w(3) assms(3) by (simp add: unat_word_ariths)
  have e: "inject_loop ops irq on_exit vector at margins max_defer cur stepped w
      = inject_loop ops irq on_exit vector at margins max_defer b (stepped + 1) w'"
    using i s(1) b(1,2) by (subst inject_loop.simps) simp
  show thesis by (rule that [OF e b(4) _ u s(2)]) (simp add: b(3))
qed

lemma inject_loop_finds:
  assumes laws: "landing_laws ops on_exit ob skid limit rip_at margins" "window_laws irq ob queued guest_at" "limit < 2 ^ 64"
    and w: "at_boundary ob rip_at cur w" "unat (bd_icount cur) + n \<le> limit" "n + unat stepped \<le> unat max_defer"
    and n: "\<forall>k<n. \<not> window_open (guest_at (bd_icount cur + of_nat k))" "window_open (guest_at (bd_icount cur + of_nat n))"
  shows "\<exists>w'. inject_loop ops irq on_exit vector at margins max_defer cur stepped w
      = Some (if vector < 32 then Err (InjBadVector vector)
          else Ok \<lparr>ij_vector = vector, ij_requested_icount = bd_icount at, ij_delivered_icount = bd_icount cur + of_nat n,
            ij_delivered_rip = rip_at (bd_icount cur + of_nat n)\<rparr>, w')
    \<and> queued (w_host w') = (if vector < 32 then None else Some (ucast vector))
    \<and> o_icount ob (w_host w') = bd_icount cur + of_nat n \<and> \<not> o_armed ob (w_host w')"
  using w n
proof (induction n arbitrary: cur stepped w)
  case 0
  then have i: "injectable irq (w_host w) = Ok True" and q: "queued (w_host w) = None" using window_law [OF laws(2) 0(1)] by simp_all
  obtain h' where h': "i_interrupt irq (ucast vector) (w_host w) = (True, h')" "queued h' = Some (ucast vector)"
    "o_icount ob h' = o_icount ob (w_host w)" "o_armed ob h' = o_armed ob (w_host w)"
    using laws(2) unfolding window_laws_def by blast
  with q 0(1) i show ?case by (subst inject_loop.simps) (simp add: queue_interrupt_def at_boundary_def)
next
  case (Suc n)
  have closed: "\<not> window_open (guest_at (bd_icount cur))" using spec [OF Suc.prems(4), of 0] by simp
  have r: "unat (bd_icount cur) < limit" "unat stepped < unat max_defer" using Suc.prems(2,3) by simp_all
  obtain b w' where e: "inject_loop ops irq on_exit vector at margins max_defer cur stepped w
       = inject_loop ops irq on_exit vector at margins max_defer b (stepped + 1) w'"
    and b: "at_boundary ob rip_at b w'" and shift: "\<And>k. bd_icount b + of_nat k = bd_icount cur + of_nat (Suc k)"
    and u: "unat (bd_icount b) = unat (bd_icount cur) + 1" "unat (stepped + 1) = unat stepped + 1"
    using inject_loop_defers [OF laws Suc.prems(1) closed r] by metis
  show ?case
    unfolding e shift [symmetric]
  proof (rule Suc.IH [OF b])
    show "\<forall>k<n. \<not> window_open (guest_at (bd_icount b + of_nat k))" "window_open (guest_at (bd_icount b + of_nat n))"
      using Suc.prems(4,5) unfolding shift by blast+
  qed (use u Suc.prems(2,3) in simp_all)
qed

lemma inject_loop_gives_up:
  assumes laws: "landing_laws ops on_exit ob skid limit rip_at margins" "window_laws irq ob queued guest_at" "limit < 2 ^ 64"
    and w: "at_boundary ob rip_at cur w" "unat (bd_icount cur) + n \<le> limit" "n + unat stepped = unat max_defer"
    and n: "\<forall>k\<le>n. \<not> window_open (guest_at (bd_icount cur + of_nat k))"
  shows "\<exists>w'. inject_loop ops irq on_exit vector at margins max_defer cur stepped w = Some (Err (WindowNeverOpened max_defer), w')
    \<and> queued (w_host w') = None \<and> o_icount ob (w_host w') = bd_icount cur + of_nat n"
  using w n
proof (induction n arbitrary: cur stepped w)
  case 0
  have "injectable irq (w_host w) = Ok False" "queued (w_host w) = None" "o_icount ob (w_host w) = bd_icount cur" using 0(1) window_law [OF laws(2) 0(1)] 0(4) by (simp_all add: at_boundary_def)
  moreover have "stepped = max_defer" using 0(3) by (simp add: word_unat_eq_iff)
  ultimately show ?case by (subst inject_loop.simps) simp
next
  case (Suc n)
  have closed: "\<not> window_open (guest_at (bd_icount cur))" using spec [OF Suc.prems(4), of 0] by simp
  have r: "unat (bd_icount cur) < limit" "unat stepped < unat max_defer" using Suc.prems(2,3) by simp_all
  obtain b w' where e: "inject_loop ops irq on_exit vector at margins max_defer cur stepped w
       = inject_loop ops irq on_exit vector at margins max_defer b (stepped + 1) w'"
    and b: "at_boundary ob rip_at b w'" and shift: "\<And>k. bd_icount b + of_nat k = bd_icount cur + of_nat (Suc k)"
    and u: "unat (bd_icount b) = unat (bd_icount cur) + 1" "unat (stepped + 1) = unat stepped + 1"
    using inject_loop_defers [OF laws Suc.prems(1) closed r] by metis
  show ?case
    unfolding e shift [symmetric]
  proof (rule Suc.IH [OF b])
    show "\<forall>k\<le>n. \<not> window_open (guest_at (bd_icount b + of_nat k))" using Suc.prems(4) unfolding shift by blast
  qed (use u Suc.prems(2,3) in simp_all)
qed


text \<open>On the example host, a guest that enables interrupts at count 102, in the shadow of that instruction until 103.\<close>

definition ex_guest :: "u64 \<Rightarrow> GuestIrq" where
  "ex_guest c = \<lparr>gi_ready = True, gi_if = (102 \<le> c), gi_exception_pending = False, gi_exception_injected = False, gi_shadow = (c = 102)\<rparr>"

definition ex_irq :: "ExHost IrqOps" where
  "ex_irq = \<lparr>i_ready = (\<lambda>_. 1), i_if_flag = (\<lambda>h. if 102 \<le> xh_count h then 1 else 0),
     i_events = (\<lambda>h. Some (0, 0, if xh_count h = 102 then 1 else 0)), i_interrupt = (\<lambda>v h. (True, h\<lparr>xh_queued := Some v\<rparr>))\<rparr>"


end
