(* ===== verification/Run_Timer.thy ===== *)
theory Run_Timer
  imports Pv_Clock Agenda Inject
begin

text \<open>
  How run control plans a segment, \<open>crates/dh-vmm/src/runctl.rs\<close>: the conversion of a guest-armed
  timer into a scheduled injection (\<open>timer_to_injection\<close>) and the part of \<open>run_segment_inner\<close> that
  turns the request, the scheduled inputs, the injections and the timer into the agenda. The walk
  along the agenda, with its goal, exit, input, epoch and frame callbacks, is not modelled.
\<close>

section \<open>Requests\<close>

datatype Until =
    UntilIcountBudget u64
  | UntilVnsBudget u64
  | UntilGoal u64 u64
  | UntilNextSdkEvent u64
  | UntilFrameBudget u64 u64

record RunOptions =
  ro_paranoid_hash :: bool
  ro_hash_final_stop :: bool
  ro_hash_final_epoch :: bool

definition run_options_default :: RunOptions where
  "run_options_default = \<lparr>ro_paranoid_hash = False, ro_hash_final_stop = True, ro_hash_final_epoch = True\<rparr>"

datatype RunError =
    RunAgenda AgendaError
  | RunBoundary BoundaryError
  | RunInject InjectError
  | RunKvm string
  | ClockOverflow
  | MissingSdkEventFeed

record ScheduledInjection =
  si_icount :: u64
  si_vector :: u8

record TimerArm =
  ta_deadline_vns :: u64
  ta_vector :: u8

text \<open>The error is returned before \<open>start_icount + 1\<close> is evaluated; that sum panics at the last count.\<close>

definition timer_to_injection :: "TimerArm \<Rightarrow> ClockRatio \<Rightarrow> u64 \<Rightarrow> (ScheduledInjection, RunError) res" where
  "timer_to_injection timer clock start_icount =
     res_bind (ok_or (icount_for_vns_target clock (ta_deadline_vns timer)) ClockOverflow) (\<lambda>target.
     res_bind (unwrap (checked_add start_icount 1)) (\<lambda>first.
     Ok \<lparr>si_icount = max target first, si_vector = ta_vector timer\<rparr>))"

section \<open>The plan of a segment\<close>

text \<open>\<open>NonZeroU64::new\<close>.\<close>

definition non_zero :: "u64 \<Rightarrow> u64 option" where
  "non_zero n = (if n = 0 then None else Some n)"

definition segment_final_stop :: "Until \<Rightarrow> FinalStop \<times> u64 option" where
  "segment_final_stop until = (case until of
     UntilIcountBudget b \<Rightarrow> (IcountBudget b, None)
   | UntilVnsBudget b \<Rightarrow> (VnsBudget b, None)
   | UntilGoal poll_period hard_cap \<Rightarrow> (HardCapStop hard_cap, non_zero poll_period)
   | UntilNextSdkEvent hard_cap \<Rightarrow> (HardCapStop hard_cap, None)
   | UntilFrameBudget _ hard_cap \<Rightarrow> (HardCapStop hard_cap, None))"

definition merge_timer ::
  "ScheduledInjection list \<Rightarrow> TimerArm option \<Rightarrow> ClockRatio \<Rightarrow> u64 \<Rightarrow> (ScheduledInjection list \<times> nat option, RunError) res" where
  "merge_timer injections timer clock start_icount = (case timer of
     Some t \<Rightarrow> res_bind (timer_to_injection t clock start_icount) (\<lambda>i.
       let all_injections = injections @ [i] in Ok (all_injections, Some (length all_injections - 1)))
   | None \<Rightarrow> Ok (injections, None))"

definition segment_inputs ::
  "MachineConfig \<Rightarrow> RunOptions \<Rightarrow> Until \<Rightarrow> u64 list \<Rightarrow> ScheduledInjection list \<Rightarrow> u64 \<Rightarrow> AgendaInputs" where
  "segment_inputs config options until scheduled_inputs all_injections start_icount =
     (let (final_stop, goal_poll_period) = segment_final_stop until;
          epoch_hashes_enabled = (mc_hash_epochs config = EpochsOn \<or> ro_paranoid_hash options)
      in \<lparr>ai_start_icount = start_icount, ai_scheduled_inputs = scheduled_inputs,
          ai_injections = map si_icount all_injections,
          ai_epoch_len = (if epoch_hashes_enabled then non_zero (mc_epoch_len config) else None),
          ai_goal_poll_period = goal_poll_period, ai_final_stop = final_stop, ai_clock = mc_clock config\<rparr>)"

text \<open>
  The stop points the segment walks (\<open>None\<close> would be an agenda that never ends), the injections
  they refer to, and which of them is the timer's.
\<close>

definition segment_plan ::
  "MachineConfig \<Rightarrow> RunOptions \<Rightarrow> Until \<Rightarrow> u64 list \<Rightarrow> ScheduledInjection list \<Rightarrow> TimerArm option \<Rightarrow> u64
   \<Rightarrow> (StopPoint list option \<times> ScheduledInjection list \<times> nat option, RunError) res" where
  "segment_plan config options until scheduled_inputs injections timer start_icount =
     res_bind (merge_timer injections timer (mc_clock config) start_icount) (\<lambda>(all_injections, timer_slot).
     res_bind (map_err RunAgenda (agenda_compile
         (segment_inputs config options until scheduled_inputs all_injections start_icount))) (\<lambda>agenda.
     Ok (agenda, all_injections, timer_slot)))"

section \<open>The timer\<close>

text \<open>Every outcome of the conversion: the clock never reaches the deadline, or the segment starts at the last count, or a count.\<close>

lemma timer_to_injection_eq:
  assumes "clock_ok clock"
  shows "timer_to_injection t clock start =
    (if \<forall>i :: u64. vns_exact clock (unat i) < unat (ta_deadline_vns t) then Err ClockOverflow
     else if start = u64_max then Panic
     else Ok \<lparr>si_icount = max (of_nat (icount_exact clock (unat (ta_deadline_vns t)))) (start + 1), si_vector = ta_vector t\<rparr>)"
proof -
  let ?k = "icount_exact clock (unat (ta_deadline_vns t))"
  have adj: "vns_exact clock (unat i) < unat (ta_deadline_vns t) \<longleftrightarrow> unat i < ?k" for i :: u64
    using icount_exact_adjoint [OF assms, of "unat (ta_deadline_vns t)" "unat i"] by linarith
  have "(\<forall>i :: u64. unat i < ?k) \<longleftrightarrow> 2 ^ 64 \<le> ?k"
  proof
    show "2 ^ 64 \<le> ?k" if "\<forall>i :: u64. unat i < ?k" using spec [OF that, of u64_max] by simp
    show "\<forall>i :: u64. unat i < ?k" if "2 ^ 64 \<le> ?k" using that unat_lt_pow [where 'a = 64] by (auto intro: less_le_trans)
  qed
  moreover have "checked_add start 1 = (if start = u64_max then None else Some (start + 1))"
    using unat_lt_pow [of start] by (auto simp: checked_add_def word_unat_eq_iff)
  ultimately show ?thesis
    by (auto simp: timer_to_injection_def icount_for_vns_target_eq [OF assms] adj word_of_nat_opt_def)
qed

lemma timer_to_injection_tight:
  assumes ok: "clock_ok clock" and t: "timer_to_injection t clock start = Ok si"
  shows "si_vector si = ta_vector t" and "start < si_icount si"
    and "start < i \<Longrightarrow> si_icount si \<le> i \<longleftrightarrow> unat (ta_deadline_vns t) \<le> vns_exact clock (unat i)"
proof -
  obtain k where k: "icount_for_vns_target clock (ta_deadline_vns t) = Some k" "unat start + 1 < 2 ^ 64"
    and si: "si = \<lparr>si_icount = max k (start + 1), si_vector = ta_vector t\<rparr>"
    using t by (auto simp: timer_to_injection_def checked_add_def split: if_splits)
  have s: "unat (start + 1) = unat start + 1" using k(2) by (simp add: unat_word_ariths)
  show "si_vector si = ta_vector t" by (simp add: si)
  show "start < si_icount si" using s by (simp add: si less_max_iff_disj word_less_nat_alt [of start "start + 1"])
  have "unat k = icount_exact clock (unat (ta_deadline_vns t))"
    using k(1) by (simp add: icount_for_vns_target_eq [OF ok] word_of_nat_opt_Some_iff)
  then have "k \<le> i \<longleftrightarrow> unat (ta_deadline_vns t) \<le> vns_exact clock (unat i)"
    using icount_exact_adjoint [OF ok] by (simp add: word_le_nat_alt)
  moreover have "start + 1 \<le> i" if "start < i" using that s by (simp add: word_le_nat_alt word_less_nat_alt)
  ultimately show "start < i \<Longrightarrow> si_icount si \<le> i \<longleftrightarrow> unat (ta_deadline_vns t) \<le> vns_exact clock (unat i)"
    by (simp add: si)
qed

lemma segment_inputs_ok: "clock_ok (mc_clock config) \<Longrightarrow> inputs_ok (segment_inputs config options until inputs all start)"
  by (auto simp: inputs_ok_def segment_inputs_def segment_final_stop_def non_zero_def Let_def split: prod.split Until.split)

lemma segment_inputs_sel [simp]:
  "ai_start_icount (segment_inputs config options until inputs all start) = start"
  "ai_injections (segment_inputs config options until inputs all start) = map si_icount all"
  by (simp_all add: segment_inputs_def Let_def split: prod.split)

text \<open>
  C27. A guest-armed timer is scheduled at the right instruction. Take a segment planned with an armed
  timer under a validated clock. The timer is the last injection of the plan and keeps its vector.
  Its count lies after the start of the segment; among the counts after the start it is the first
  whose virtual time has reached the deadline, so an expired timer is due at the next instruction;
  and a guest that reads the clock device with this rational and no base offset sees the deadline
  reached exactly from that count on. The agenda schedules the injection at that count and nowhere
  else, and has such a point whenever the segment runs that far.
\<close>

theorem timer_lands_on_time:
  assumes "clock_new num den = Some (mc_clock config)"
    and "segment_plan config options until inputs injections (Some t) start = Ok (Some ps, all, slot)"
    and "final_point (segment_inputs config options until inputs all start) = Ok (f, kind)"
  shows "\<exists>at. all = injections @ [\<lparr>si_icount = at, si_vector = ta_vector t\<rparr>] \<and> slot = Some (length injections) \<and> start < at
    \<and> (\<forall>i. start < i \<longrightarrow> (at \<le> i \<longleftrightarrow> unat (ta_deadline_vns t) \<le> vns_exact (mc_clock config) (unat i)))
    \<and> (\<forall>c i. clock_ratio c = mc_clock config \<and> ck_vns_base c = 0 \<and> start < i \<longrightarrow>
         (at \<le> i \<longleftrightarrow> (\<exists>v. pv_clock_vns c i = Ok v \<and> ta_deadline_vns t \<le> v)))
    \<and> (\<forall>p\<in>set ps. length injections \<in> set (sp_injections p) \<longleftrightarrow> sp_icount p = at)
    \<and> (at \<le> f \<longrightarrow> (\<exists>p\<in>set ps. sp_icount p = at))"
proof -
  have ok: "clock_ok (mc_clock config)" using assms(1) by (rule clock_new_ok)
  obtain si where si: "timer_to_injection t (mc_clock config) start = Ok si" and all: "all = injections @ [si]"
    and slot: "slot = Some (length injections)"
    and ps: "agenda_compile (segment_inputs config options until inputs all start) = Ok (Some ps)"
    using assms(2) by (auto simp: segment_plan_def merge_timer_def Let_def)
  note tt = timer_to_injection_tight [OF ok si]
  let ?at = "si_icount si" and ?ai = "segment_inputs config options until inputs all start"
  have a: "all = injections @ [\<lparr>si_icount = ?at, si_vector = ta_vector t\<rparr>]" using all tt(1) by simp
  have dev: "?at \<le> i \<longleftrightarrow> (\<exists>v. pv_clock_vns c i = Ok v \<and> ta_deadline_vns t \<le> v)"
    if c: "clock_ratio c = mc_clock config" "ck_vns_base c = 0" and i: "start < i" for c i
  proof -
    have "ck_den c \<noteq> 0" using ok by (simp add: clock_ok_def flip: c(1))
    then obtain v where "pv_clock_vns c i = Ok v" "unat v = min (2 ^ 64 - 1) (vns_exact (mc_clock config) (unat i))"
      using pv_clock_vns_value [of c i] c by auto
    then show ?thesis using tt(3) [OF i] unat_lt_pow [of "ta_deadline_vns t"] by (auto simp: word_le_nat_alt)
  qed
  have spec: "ps = agenda_spec ?ai f kind" by (rule agenda_compile_Ok [OF segment_inputs_ok [OF ok] ps assms(3)])
  have pts: "length injections \<in> set (sp_injections p) \<longleftrightarrow> sp_icount p = ?at" if "p \<in> set ps" for p
    using that tt(2) by (auto simp: spec agenda_spec_def point_at_def Let_def set_indices_at all nth_append)
  have "finite {x. is_stop ?ai f x}" by simp
  then have "\<exists>p\<in>set ps. sp_icount p = ?at" if "?at \<le> f"
    using that tt(2) by (auto simp: spec agenda_spec_def point_at_def Let_def is_stop_def all)
  with a slot tt(2,3) dev pts show ?thesis by blast
qed

definition ex_run_config :: MachineConfig where
  "ex_run_config = (machine_config_new 0x200000 (zeros 32) (Elf (zeros 32) []))\<lparr>mc_clock := \<lparr>cr_num = 3, cr_den = 2\<rparr>\<rparr>"

abbreviation ex_run_inputs :: AgendaInputs where
  "ex_run_inputs \<equiv> segment_inputs ex_run_config run_options_default (UntilIcountBudget 20) [] [\<lparr>si_icount = 14, si_vector = 64\<rparr>] 10"

lemma ex_run_final: "final_point ex_run_inputs = Ok (30, BudgetStop)"
  by (simp add: final_point_def segment_inputs_def segment_final_stop_def checked_add_nat word_of_nat_opt_def)

lemma ex_run_plan:
  "\<exists>ps. segment_plan ex_run_config run_options_default (UntilIcountBudget 20) [] [] (Some \<lparr>ta_deadline_vns = 20, ta_vector = 64\<rparr>) 10
     = Ok (Some ps, [\<lparr>si_icount = 14, si_vector = 64\<rparr>], Some 0)"
proof -
  have r: "mc_clock ex_run_config = \<lparr>cr_num = 3, cr_den = 2\<rparr>" by (simp add: ex_run_config_def)
  have ok: "clock_ok \<lparr>cr_num = 3, cr_den = 2\<rparr>" by (simp add: clock_ok_def)
  then have ok': "clock_ok (mc_clock ex_run_config)" by (simp add: r)
  have "timer_to_injection \<lparr>ta_deadline_vns = 20, ta_vector = 64\<rparr> (mc_clock ex_run_config) 10
      = Ok \<lparr>si_icount = 14, si_vector = 64\<rparr>"
    by (simp add: timer_to_injection_def icount_for_vns_target_eq [OF ok] icount_exact_def r checked_add_def
        word_of_nat_opt_def)
  moreover obtain it where it: "agenda_new ex_run_inputs = Ok it"
    using agenda_new_result [OF segment_inputs_ok [OF ok'] ex_run_final] by auto
  moreover note agenda_compile_spec [OF segment_inputs_ok [OF ok'] it ex_run_final]
  ultimately show ?thesis
    by (simp add: segment_plan_def merge_timer_def agenda_compile_def)
qed

theorem timer_lands_on_time_witness:
  "clock_new 3 2 = Some (mc_clock ex_run_config)
   \<and> (\<exists>ps. segment_plan ex_run_config run_options_default (UntilIcountBudget 20) [] [] (Some \<lparr>ta_deadline_vns = 20, ta_vector = 64\<rparr>) 10
        = Ok (Some ps, [\<lparr>si_icount = 14, si_vector = 64\<rparr>], Some 0) \<and> (\<exists>p\<in>set ps. sp_icount p = 14 \<and> 0 \<in> set (sp_injections p)))"
proof -
  obtain ps where p: "segment_plan ex_run_config run_options_default (UntilIcountBudget 20) [] []
      (Some \<lparr>ta_deadline_vns = 20, ta_vector = 64\<rparr>) 10 = Ok (Some ps, [\<lparr>si_icount = 14, si_vector = 64\<rparr>], Some 0)"
    using ex_run_plan by blast
  have c: "clock_new 3 2 = Some (mc_clock ex_run_config)" by (simp add: clock_new_def ex_run_config_def)
  from timer_lands_on_time [OF c p ex_run_final] have "\<exists>p\<in>set ps. sp_icount p = 14 \<and> 0 \<in> set (sp_injections p)"
    by auto
  with c p show ?thesis by blast
qed

end
