(* ===== verification/Dirty_Ring.thy ===== *)
theory Dirty_Ring
  imports Dh_Prelude
begin

text \<open>
  Dirty-page tracking, \<open>crates/dh-vmm/src/dirty.rs\<close>: the dense page bitmap and the harvest of the
  per-vCPU dirty ring at a pause. The mapped ring is a list of entries; the vCPU is paused while it
  is drained, so nothing is published during a harvest. The reset ioctl is an argument; mapping the
  ring and the memslot flags are system calls and not modelled.
\<close>

unbundle bit_operations_syntax

section \<open>The page set\<close>

abbreviation PAGE_SIZE :: u64 where "PAGE_SIZE \<equiv> 4096"

text \<open>\<open>KvmError\<close> of \<open>kvm.rs\<close>; the texts are reduced to their first words.\<close>

datatype KvmError =
    KvmOpen string
  | ApiVersionMismatch int
  | MissingCaps "string list"
  | Memory string
  | VmCreate string
  | VcpuCreate string
  | MemTooLarge

record DirtyPageSet =
  dp_bits :: "u64 list"
  dp_pages :: u64
  dp_set_count :: u64

text \<open>\<open>u64::div_ceil\<close>.\<close>

definition u64_div_ceil :: "u64 \<Rightarrow> u64 \<Rightarrow> u64" where
  "u64_div_ceil a b = (if a mod b \<noteq> 0 then a div b + 1 else a div b)"

definition dirty_new :: "u64 \<Rightarrow> DirtyPageSet" where
  "dirty_new mem_bytes = (let pages = u64_div_ceil mem_bytes PAGE_SIZE in
     \<lparr>dp_bits = replicate (unat (u64_div_ceil pages 64)) 0, dp_pages = pages, dp_set_count = 0\<rparr>)"

definition dirty_insert :: "u64 \<Rightarrow> DirtyPageSet \<Rightarrow> (bool, KvmError) res \<times> DirtyPageSet" where
  "dirty_insert page_idx s =
     (if page_idx \<ge> dp_pages s then (Err (Memory ''dirty gfn beyond guest RAM''), s)
      else let word = unat (page_idx div 64); mask = push_bit (unat (page_idx mod 64)) 1 in
        if word < length (dp_bits s) then
          (let newly = (dp_bits s ! word AND mask = 0);
               s = s\<lparr>dp_bits := (dp_bits s)[word := dp_bits s ! word OR mask]\<rparr>
           in case checked_add (dp_set_count s) (if newly then 1 else 0) of
                None \<Rightarrow> (Panic, s)
              | Some n \<Rightarrow> (Ok newly, s\<lparr>dp_set_count := n\<rparr>))
        else (Panic, s))"

definition dirty_contains :: "u64 \<Rightarrow> DirtyPageSet \<Rightarrow> (bool, KvmError) res" where
  "dirty_contains page_idx s =
     (if page_idx < dp_pages s
      then res_bind (index_res (dp_bits s) (unat (page_idx div 64))) (\<lambda>w.
             Ok (w AND push_bit (unat (page_idx mod 64)) 1 \<noteq> 0))
      else Ok False)"

definition dirty_len :: "DirtyPageSet \<Rightarrow> u64" where
  "dirty_len s = dp_set_count s"

definition dirty_is_empty :: "DirtyPageSet \<Rightarrow> bool" where
  "dirty_is_empty s \<longleftrightarrow> dp_set_count s = 0"

definition dirty_clear :: "DirtyPageSet \<Rightarrow> DirtyPageSet" where
  "dirty_clear s = s\<lparr>dp_bits := replicate (length (dp_bits s)) 0, dp_set_count := 0\<rparr>"

definition dirty_iter :: "DirtyPageSet \<Rightarrow> u64 list" where
  "dirty_iter s = concat (map (\<lambda>(w, word).
     map (\<lambda>b. of_nat w * 64 + of_nat b) (filter (\<lambda>b. word AND push_bit b 1 \<noteq> 0) [0..<64])) (enumerate 0 (dp_bits s)))"

section \<open>The ring\<close>

abbreviation DIRTY_GFN_F_DIRTY :: u32 where "DIRTY_GFN_F_DIRTY \<equiv> 1"
abbreviation DIRTY_GFN_F_RESET :: u32 where "DIRTY_GFN_F_RESET \<equiv> 2"

text \<open>\<open>kvm_dirty_gfn\<close>.\<close>

record DirtyGfn =
  dg_flags :: u32
  dg_slot :: u32
  dg_offset :: u64

record DirtyRing =
  dr_ring :: "DirtyGfn list"
  dr_next_harvest :: u64
  dr_entries :: u64

text \<open>The state after \<open>map\<close>: the mapping has as many entries as the slot's ring.\<close>

definition ring_map :: "DirtyGfn list \<Rightarrow> DirtyRing" where
  "ring_map mapping = \<lparr>dr_ring = mapping, dr_next_harvest = 0, dr_entries = of_nat (length mapping)\<rparr>"

text \<open>Each round turns one dirty entry into a reset one.\<close>

definition dirty_left :: "DirtyGfn list \<Rightarrow> nat" where
  "dirty_left es = length (filter (\<lambda>e. dg_flags e AND DIRTY_GFN_F_DIRTY \<noteq> 0) es)"

lemma dirty_left_update:
  assumes "i < length es" "dg_flags (es ! i) AND DIRTY_GFN_F_DIRTY \<noteq> 0" "dg_flags e AND DIRTY_GFN_F_DIRTY = 0"
  shows "dirty_left (es[i := e]) < dirty_left es"
proof -
  have "es = take i es @ es ! i # drop (Suc i) es" using assms(1) by (rule id_take_nth_drop)
  then have "dirty_left es = dirty_left (take i es @ es ! i # drop (Suc i) es)" by simp
  moreover have "es[i := e] = take i es @ e # drop (Suc i) es" using assms(1) by (rule upd_conv_take_nth_drop)
  ultimately show ?thesis using assms(2,3) by (simp add: dirty_left_def)
qed

text \<open>
  The loop of \<open>harvest_into\<close>. A modulo by zero and an overflowing counter panic; reading outside
  the mapping (excluded by construction of the ring) is a panic too.
\<close>

function harvest_loop ::
  "DirtyRing \<Rightarrow> DirtyPageSet \<Rightarrow> u32 \<Rightarrow> (u32, KvmError) res \<times> DirtyRing \<times> DirtyPageSet" where
  "harvest_loop ring pset harvested =
     (let idx = unat (dr_next_harvest ring mod dr_entries ring) in
      if dr_entries ring = 0 \<or> length (dr_ring ring) \<le> idx then (Panic, ring, pset)
      else let entry = dr_ring ring ! idx in
      if dg_flags entry AND DIRTY_GFN_F_DIRTY = 0 then (Ok harvested, ring, pset)
      else if dg_slot entry \<noteq> 0 then (Err (Memory ''dirty ring entry for unexpected memslot''), ring, pset)
      else case dirty_insert (dg_offset entry) pset of
          (Err e, pset) \<Rightarrow> (Err e, ring, pset)
        | (Panic, pset) \<Rightarrow> (Panic, ring, pset)
        | (Ok _, pset) \<Rightarrow>
            (let ring = ring\<lparr>dr_ring := (dr_ring ring)[idx := entry\<lparr>dg_flags := DIRTY_GFN_F_RESET\<rparr>]\<rparr> in
             case checked_add (dr_next_harvest ring) 1 of
               None \<Rightarrow> (Panic, ring, pset)
             | Some next \<Rightarrow> (case checked_add harvested 1 of
                   None \<Rightarrow> (Panic, ring\<lparr>dr_next_harvest := next\<rparr>, pset)
                 | Some n \<Rightarrow> harvest_loop (ring\<lparr>dr_next_harvest := next\<rparr>) pset n)))"
  by pat_completeness auto

termination
  by (relation "measure (\<lambda>(ring, _, _). dirty_left (dr_ring ring))")
    (auto simp: Let_def intro!: dirty_left_update split: if_splits)

definition harvest_into :: "DirtyRing \<Rightarrow> DirtyPageSet \<Rightarrow> (u32, KvmError) res \<times> DirtyRing \<times> DirtyPageSet" where
  "harvest_into ring pset = harvest_loop ring pset 0"

record HarvestStats =
  hs_harvested :: u32
  hs_reset :: u32

text \<open>The ioctl: the count the kernel processed (None for an error) and the ring afterwards.\<close>

definition reset_dirty_rings ::
  "(DirtyGfn list \<Rightarrow> u32 option \<times> DirtyGfn list) \<Rightarrow> DirtyRing \<Rightarrow> (u32, KvmError) res \<times> DirtyRing" where
  "reset_dirty_rings vm_reset ring = (case vm_reset (dr_ring ring) of
     (rc, es) \<Rightarrow> (ok_or rc (Memory ''KVM_RESET_DIRTY_RINGS''), ring\<lparr>dr_ring := es\<rparr>))"

definition harvest_at_boundary ::
  "(DirtyGfn list \<Rightarrow> u32 option \<times> DirtyGfn list) \<Rightarrow> DirtyRing \<Rightarrow> DirtyPageSet
   \<Rightarrow> (HarvestStats, KvmError) res \<times> DirtyRing \<times> DirtyPageSet" where
  "harvest_at_boundary vm_reset ring pset = (case harvest_into ring pset of
     (Err e, ring, pset) \<Rightarrow> (Err e, ring, pset)
   | (Panic, ring, pset) \<Rightarrow> (Panic, ring, pset)
   | (Ok harvested, ring, pset) \<Rightarrow>
       if harvested > 0 then
         (case reset_dirty_rings vm_reset ring of
            (r, ring) \<Rightarrow> (res_bind r (\<lambda>n. Ok \<lparr>hs_harvested = harvested, hs_reset = n\<rparr>), ring, pset))
       else (Ok \<lparr>hs_harvested = harvested, hs_reset = 0\<rparr>, ring, pset))"

section \<open>The page set is a set\<close>

text \<open>The abstraction: the indices of the set bits; every one is a page of guest memory.\<close>

definition pages_of :: "DirtyPageSet \<Rightarrow> nat set" where
  "pages_of s = {p. p div 64 < length (dp_bits s) \<and> bit (dp_bits s ! (p div 64)) (p mod 64)}"

definition dirty_inv :: "DirtyPageSet \<Rightarrow> bool" where
  "dirty_inv s \<longleftrightarrow> length (dp_bits s) = unat (u64_div_ceil (dp_pages s) 64)
     \<and> pages_of s \<subseteq> {..<unat (dp_pages s)} \<and> unat (dp_set_count s) = card (pages_of s)"

lemma unat_u64_div_ceil: "b \<noteq> 0 \<Longrightarrow> unat (u64_div_ceil a b) = (unat a + (unat b - 1)) div unat b"
proof -
  assume "b \<noteq> 0"
  then have b: "0 < unat b" by (simp add: unat_gt_0)
  have e: "(x + (y - 1)) div y = (if x mod y = 0 then x div y else x div y + 1)" if "0 < y" for x y :: nat
  proof -
    have "x + (y - 1) = (x mod y + (y - 1)) + x div y * y" by (simp add: mod_mult_div_eq)
    then have "(x + (y - 1)) div y = (x mod y + (y - 1)) div y + x div y" using that by (metis div_mult_self1 nat_neq_iff add.commute)
    moreover have "(x mod y + (y - 1)) div y = (if x mod y = 0 then 0 else 1)"
      using that mod_less_divisor [OF that, of x] by (auto simp: div_nat_eqI)
    ultimately show ?thesis by simp
  qed
  show ?thesis
  proof (cases "a mod b = 0")
    case True
    then have "unat a mod unat b = 0" by (metis unat_0 unat_mod)
    with True show ?thesis unfolding u64_div_ceil_def e [OF b] by (simp add: unat_div)
  next
    case False
    then have m: "unat a mod unat b \<noteq> 0" by (metis unat_mod unat_eq_zero)
    then have "unat b \<noteq> 1" by auto
    then have "unat a div unat b < 2 ^ 64 - 1" using b unat_lt_pow [of a] by (auto intro: le_less_trans [OF div_le_mono2 [of 2]])
    then have "unat (a div b + 1) = unat a div unat b + 1" by (simp add: unat_word_ariths unat_div)
    with m False show ?thesis unfolding u64_div_ceil_def e [OF b] by simp
  qed
qed

lemma and_mask_bit: "(w :: u64) AND push_bit k 1 = 0 \<longleftrightarrow> \<not> bit w k" "(w :: u64) AND 2 ^ k = 0 \<longleftrightarrow> \<not> bit w k"
  by (simp_all add: push_bit_of_1 and_exp_eq_0_iff_not_bit)

lemma bit_or_mask:
  "bit ((w :: u64) OR push_bit k 1) j \<longleftrightarrow> bit w j \<or> j = k \<and> k < 64"
  "bit ((w :: u64) OR 2 ^ k) j \<longleftrightarrow> bit w j \<or> j = k \<and> k < 64"
  by (auto simp: bit_or_iff push_bit_of_1 bit_exp_iff)

lemma unat_64: "unat ((p :: u64) div 64) = unat p div 64" "unat (p mod 64) = unat p mod 64"
  by (simp_all add: unat_div unat_mod)

lemma page_word:
  assumes "dirty_inv s" "p < dp_pages s"
  shows "unat p div 64 < length (dp_bits s)"
proof -
  have "unat p < unat (dp_pages s)" using assms(2) by (rule unat_mono)
  then have "unat p div 64 < (unat (dp_pages s) + 63) div 64" by linarith
  then show ?thesis using assms(1) by (simp add: dirty_inv_def unat_u64_div_ceil)
qed

lemma pages_of_finite: "dirty_inv s \<Longrightarrow> finite (pages_of s)"
  by (auto simp: dirty_inv_def intro: finite_subset)

lemma dirty_insert_spec:
  assumes inv: "dirty_inv s" and p: "p < dp_pages s"
  obtains s' where "dirty_insert p s = (Ok (unat p \<notin> pages_of s), s')" "pages_of s' = insert (unat p) (pages_of s)"
    "dirty_inv s'" "dp_pages s' = dp_pages s"
proof -
  let ?w = "unat p div 64" and ?k = "unat p mod 64"
  note w = page_word [OF inv p]
  let ?b = "(dp_bits s)[?w := dp_bits s ! ?w OR push_bit ?k 1]"
  have newly: "(dp_bits s ! ?w AND push_bit ?k 1 = 0) = (unat p \<notin> pages_of s)"
    using w by (simp add: and_mask_bit pages_of_def)
  have pg: "pages_of (s\<lparr>dp_bits := ?b, dp_set_count := n\<rparr>) = insert (unat p) (pages_of s)" for n
  proof -
    have eq: "q = unat p" if "q div 64 = ?w" "q mod 64 = ?k" for q
      using that by (metis div_mult_mod_eq)
    have "q \<in> pages_of (s\<lparr>dp_bits := ?b, dp_set_count := n\<rparr>) \<longleftrightarrow> q = unat p \<or> q \<in> pages_of s" for q
    proof (cases "q div 64 = ?w")
      case True
      then show ?thesis using w eq [of q] by (auto simp: pages_of_def bit_or_mask)
    qed (use w in \<open>auto simp: pages_of_def\<close>)
    then show ?thesis by blast
  qed
  have u: "unat p < unat (dp_pages s)" using p by (rule unat_mono)
  have sub: "insert (unat p) (pages_of s) \<subseteq> {..<unat (dp_pages s)}" using inv u by (auto simp: dirty_inv_def)
  have "card (insert (unat p) (pages_of s)) \<le> unat (dp_pages s)"
    using card_mono [OF _ sub] by simp
  moreover have c: "card (insert (unat p) (pages_of s)) = card (pages_of s) + (if unat p \<in> pages_of s then 0 else 1)"
    using pages_of_finite [OF inv] by (simp add: card_insert_if)
  ultimately have fit: "unat (dp_set_count s) + (if unat p \<in> pages_of s then 0 else 1) < 2 ^ 64"
    using inv unat_lt_pow [of "dp_pages s"] by (simp add: dirty_inv_def)
  obtain n where n: "checked_add (dp_set_count s) (if unat p \<notin> pages_of s then 1 else 0) = Some n"
    "unat n = card (insert (unat p) (pages_of s))"
  proof -
    let ?d = "if unat p \<notin> pages_of s then 1 else 0 :: u64"
    have "unat (dp_set_count s) + unat ?d < 2 ^ 64" using fit by (cases "unat p \<in> pages_of s") simp_all
    then obtain n where "checked_add (dp_set_count s) ?d = Some n" by (simp add: checked_add_def)
    moreover from this have "unat n = unat (dp_set_count s) + unat ?d" by (simp add: checked_add_Some_iff)
    ultimately show thesis using that c inv by (simp add: dirty_inv_def)
  qed
  have "\<not> dp_pages s \<le> p" using p by simp
  then have i: "dirty_insert p s = (Ok (unat p \<notin> pages_of s), s\<lparr>dp_bits := ?b, dp_set_count := n\<rparr>)"
    using w n(1) newly by (simp add: dirty_insert_def unat_64 Let_def)
  have "dirty_inv (s\<lparr>dp_bits := ?b, dp_set_count := n\<rparr>)"
    using inv sub n(2) pg by (simp add: dirty_inv_def)
  then show thesis by (rule that [OF i pg]) simp
qed

lemma dirty_contains_spec:
  assumes "dirty_inv s"
  shows "dirty_contains p s = Ok (unat p \<in> pages_of s)"
proof (cases "p < dp_pages s")
  case True
  then show ?thesis using page_word [OF assms True] by (simp add: dirty_contains_def unat_64 and_mask_bit pages_of_def)
next
  case False
  then have "unat p \<notin> pages_of s" using assms by (auto simp: dirty_inv_def word_less_nat_alt)
  with False show ?thesis by (simp add: dirty_contains_def)
qed

lemma dirty_new_spec: "dirty_inv (dirty_new mem) \<and> pages_of (dirty_new mem) = {}"
proof -
  have "pages_of (dirty_new mem) = {}" by (auto simp: dirty_new_def pages_of_def Let_def)
  then show ?thesis by (simp add: dirty_inv_def) (simp add: dirty_new_def Let_def)
qed

lemma dirty_clear_spec: "dirty_inv s \<Longrightarrow> dirty_inv (dirty_clear s) \<and> pages_of (dirty_clear s) = {}"
proof -
  assume s: "dirty_inv s"
  have "pages_of (dirty_clear s) = {}" by (auto simp: dirty_clear_def pages_of_def)
  with s show ?thesis by (simp add: dirty_inv_def) (simp add: dirty_clear_def)
qed

lemma filter_upt_64:
  "filter P [0..<64 * n] = concat (map (\<lambda>w. map (\<lambda>b. w * 64 + b) (filter (\<lambda>b. P (w * 64 + b)) [0..<64])) [0..<n])"
proof (induction n)
  case (Suc n)
  have "[0..<64 * Suc n] = [0..<64 * n] @ map (\<lambda>b. n * 64 + b) [0..<64]"
    using upt_add_eq_append [of 0 "64 * n" 64] map_add_upt [of "64 * n" 64] by (simp add: add.commute mult.commute)
  then show ?case by (simp add: Suc filter_map comp_def)
qed simp

lemma dirty_iter_spec:
  assumes "dirty_inv s"
  shows "map unat (dirty_iter s) = sorted_list_of_set (pages_of s)"
proof -
  let ?n = "length (dp_bits s)"
  have "map unat (dirty_iter s) = concat (map (\<lambda>w. map (\<lambda>b. w * 64 + b) (filter (\<lambda>b. w * 64 + b \<in> pages_of s) [0..<64])) [0..<?n])"
  proof -
    have word: "map unat (map (\<lambda>b. of_nat w * 64 + of_nat b :: u64) (filter (\<lambda>b. dp_bits s ! w AND push_bit b 1 \<noteq> 0) [0..<64]))
        = map (\<lambda>b. w * 64 + b) (filter (\<lambda>b. w * 64 + b \<in> pages_of s) [0..<64])" if "w < ?n" for w
    proof -
      have m: "bit (dp_bits s ! w) b \<longleftrightarrow> w * 64 + b \<in> pages_of s" if "b < 64" for b
        using that \<open>w < ?n\<close> by (simp add: pages_of_def)
      have "unat (of_nat w * 64 + of_nat b :: u64) = w * 64 + b" if "w * 64 + b \<in> pages_of s" for b
      proof -
        have "w * 64 + b < 2 ^ 64" using that assms less_trans [OF _ unat_lt_pow [of "dp_pages s"]] by (auto simp: dirty_inv_def)
        then have "unat (of_nat (w * 64 + b) :: u64) = w * 64 + b" by (intro unat_of_nat_fits) simp
        then show ?thesis by simp
      qed
      moreover have "filter (\<lambda>b. dp_bits s ! w AND push_bit b 1 \<noteq> 0) [0..<64] = filter (\<lambda>b. w * 64 + b \<in> pages_of s) [0..<64]"
        using m by (intro filter_cong) (simp_all add: and_mask_bit)
      ultimately show ?thesis by simp
    qed
    have "enumerate 0 (dp_bits s) = map (\<lambda>w. (w, dp_bits s ! w)) [0..<?n]"
      by (intro nth_equalityI) (simp_all add: nth_enumerate_eq)
    then have "map unat (dirty_iter s) = concat (map (\<lambda>w. map unat (map (\<lambda>b. of_nat w * 64 + of_nat b :: u64)
        (filter (\<lambda>b. dp_bits s ! w AND push_bit b 1 \<noteq> 0) [0..<64]))) [0..<?n])"
      by (simp add: dirty_iter_def map_concat comp_def)
    also have "\<dots> = concat (map (\<lambda>w. map (\<lambda>b. w * 64 + b) (filter (\<lambda>b. w * 64 + b \<in> pages_of s) [0..<64])) [0..<?n])"
      by (intro arg_cong [of _ _ concat] map_cong refl word) simp
    finally show ?thesis .
  qed
  also have "\<dots> = filter (\<lambda>p. p \<in> pages_of s) [0..<64 * ?n]" by (rule filter_upt_64 [symmetric])
  also have "\<dots> = sorted_list_of_set (pages_of s)"
  proof (rule sorted_distinct_set_unique)
    have "p < 64 * ?n" if "p \<in> pages_of s" for p using that by (auto simp: pages_of_def)
    then show "set (filter (\<lambda>p. p \<in> pages_of s) [0..<64 * ?n]) = set (sorted_list_of_set (pages_of s))"
      using pages_of_finite [OF assms] by auto
  qed (auto simp: sorted_wrt_filter)
  finally show ?thesis .
qed

section \<open>Harvesting\<close>

text \<open>The entry the cursor reaches after \<open>i\<close> more steps.\<close>

definition ring_pos :: "DirtyRing \<Rightarrow> nat \<Rightarrow> nat" where
  "ring_pos r i = (unat (dr_next_harvest r) + i) mod length (dr_ring r)"

abbreviation is_dirty :: "DirtyGfn \<Rightarrow> bool" where
  "is_dirty e \<equiv> dg_flags e AND DIRTY_GFN_F_DIRTY \<noteq> 0"

text \<open>A ring with exactly the next \<open>k\<close> entries published, all for pages of guest memory.\<close>

definition published :: "DirtyRing \<Rightarrow> DirtyPageSet \<Rightarrow> nat \<Rightarrow> bool" where
  "published r s k \<longleftrightarrow> 0 < length (dr_ring r) \<and> length (dr_ring r) = unat (dr_entries r) \<and> k \<le> length (dr_ring r)
     \<and> unat (dr_next_harvest r) + k < 2 ^ 64
     \<and> (\<forall>i<k. is_dirty (dr_ring r ! ring_pos r i) \<and> dg_slot (dr_ring r ! ring_pos r i) = 0
            \<and> dg_offset (dr_ring r ! ring_pos r i) < dp_pages s)
     \<and> (k < length (dr_ring r) \<longrightarrow> \<not> is_dirty (dr_ring r ! ring_pos r k))"

definition harvested_pages :: "DirtyRing \<Rightarrow> nat \<Rightarrow> nat set" where
  "harvested_pages r k = (\<lambda>i. unat (dg_offset (dr_ring r ! ring_pos r i))) ` {..<k}"

lemma ring_pos_less: "0 < length (dr_ring r) \<Longrightarrow> ring_pos r i < length (dr_ring r)"
  by (simp add: ring_pos_def)

lemma mod_shift_neq: "0 < i \<Longrightarrow> i < n \<Longrightarrow> (x + i) mod n \<noteq> x mod n" for x i n :: nat
proof
  assume i: "0 < i" "i < n" and e: "(x + i) mod n = x mod n"
  then have "n dvd x + i - x" by (metis mod_eq_dvd_iff_nat le_add1)
  then show False using i by (simp add: nat_dvd_not_less)
qed

lemma harvest_idle:
  assumes "published r s 0"
  shows "harvest_loop r s n = (Ok n, r, s)"
proof -
  have N: "0 < length (dr_ring r)" "length (dr_ring r) = unat (dr_entries r)" "\<not> is_dirty (dr_ring r ! ring_pos r 0)"
    using assms unfolding published_def by blast+
  then have "unat (dr_next_harvest r mod dr_entries r) = ring_pos r 0" "dr_entries r \<noteq> 0" by (auto simp: ring_pos_def unat_mod)
  with N ring_pos_less [OF N(1), of 0] show ?thesis by (subst harvest_loop.simps) (simp add: Let_def)
qed

text \<open>One round: the first published entry is recorded and reset, the rest moves up.\<close>

lemma harvest_round:
  assumes inv: "dirty_inv s" and p: "published r s (Suc k)" and n: "unat n + Suc k < 2 ^ 32"
  obtains r' s' where "harvest_loop r s n = harvest_loop r' s' (n + 1)" "dirty_inv s'" "published r' s' k"
    "pages_of s' = insert (unat (dg_offset (dr_ring r ! ring_pos r 0))) (pages_of s)" "dp_pages s' = dp_pages s"
    "dr_next_harvest r' = dr_next_harvest r + 1" "dr_entries r' = dr_entries r" "unat (n + 1) = unat n + 1"
    "dr_ring r' = (dr_ring r)[ring_pos r 0 := (dr_ring r ! ring_pos r 0)\<lparr>dg_flags := DIRTY_GFN_F_RESET\<rparr>]"
    "\<And>i. ring_pos r' i = ring_pos r (Suc i)"
proof -
  let ?idx = "ring_pos r 0" let ?e = "dr_ring r ! ?idx" let ?N = "length (dr_ring r)"
  have len: "0 < ?N" "?N = unat (dr_entries r)" "Suc k \<le> ?N" "unat (dr_next_harvest r) + Suc k < 2 ^ 64"
    and e: "is_dirty ?e" "dg_slot ?e = 0" "dg_offset ?e < dp_pages s"
    using p by (auto simp: published_def)
  have idx: "unat (dr_next_harvest r mod dr_entries r) = ?idx" "?idx < ?N" "dr_entries r \<noteq> 0"
    using len by (auto simp: ring_pos_def unat_mod)
  obtain s' where s': "dirty_insert (dg_offset ?e) s = (Ok (unat (dg_offset ?e) \<notin> pages_of s), s')"
    "pages_of s' = insert (unat (dg_offset ?e)) (pages_of s)" "dirty_inv s'" "dp_pages s' = dp_pages s"
    using dirty_insert_spec [OF inv e(3)] by metis
  have nx: "checked_add (dr_next_harvest r) 1 = Some (dr_next_harvest r + 1)" "unat (dr_next_harvest r + 1) = unat (dr_next_harvest r) + 1"
    "checked_add n 1 = Some (n + 1)" "unat (n + 1) = unat n + 1"
    using len(4) n by (simp_all add: checked_add_def unat_word_ariths)
  let ?r = "r\<lparr>dr_ring := (dr_ring r)[?idx := ?e\<lparr>dg_flags := DIRTY_GFN_F_RESET\<rparr>], dr_next_harvest := dr_next_harvest r + 1\<rparr>"
  have pos: "ring_pos ?r i = ring_pos r (Suc i)" for i using nx(2) by (simp add: ring_pos_def)
  have other: "ring_pos r (Suc i) \<noteq> ?idx" if "Suc i < ?N" for i
    using mod_shift_neq [of "Suc i" ?N "unat (dr_next_harvest r)"] that by (simp add: ring_pos_def)
  have same: "dr_ring ?r ! ring_pos r (Suc i) = dr_ring r ! ring_pos r (Suc i)" if "Suc i < ?N" for i
    using other [OF that] by simp
  have last: "\<not> is_dirty (dr_ring ?r ! ring_pos r (Suc k))"
  proof (cases "Suc k = ?N")
    case True
    then have "ring_pos r (Suc k) = ?idx" by (simp add: ring_pos_def)
    then show ?thesis using idx(2) by simp
  next
    case False
    then have "Suc k < ?N" using len(3) by simp
    then show ?thesis using same p by (simp add: published_def)
  qed
  have "published ?r s' k"
    unfolding published_def pos using p len nx(2) same last s'(4) by (auto simp: published_def)
  moreover have "harvest_loop r s n = harvest_loop ?r s' (n + 1)"
    using idx e(1,2) s'(1) nx by (subst harvest_loop.simps) (simp add: Let_def)
  ultimately show thesis using s' nx(4) pos by (intro that [of ?r s']) simp_all
qed

lemma harvest_collects:
  assumes "dirty_inv s" "published r s k" "unat n + k < 2 ^ 32"
  shows "\<exists>r' s'. harvest_loop r s n = (Ok (n + of_nat k), r', s') \<and> dirty_inv s'
    \<and> pages_of s' = pages_of s \<union> harvested_pages r k \<and> dp_pages s' = dp_pages s
    \<and> dr_next_harvest r' = dr_next_harvest r + of_nat k \<and> dr_entries r' = dr_entries r
    \<and> length (dr_ring r') = length (dr_ring r)
    \<and> (\<forall>j<length (dr_ring r). dr_ring r' ! j =
         (if \<exists>i<k. j = ring_pos r i then (dr_ring r ! j)\<lparr>dg_flags := DIRTY_GFN_F_RESET\<rparr> else dr_ring r ! j))"
  using assms
proof (induction k arbitrary: r s n)
  case 0
  then show ?case using harvest_idle by (simp add: harvested_pages_def)
next
  case (Suc k)
  obtain r1 s1 where l: "harvest_loop r s n = harvest_loop r1 s1 (n + 1)" and inv: "dirty_inv s1" and pub: "published r1 s1 k"
    and pg: "pages_of s1 = insert (unat (dg_offset (dr_ring r ! ring_pos r 0))) (pages_of s)" "dp_pages s1 = dp_pages s"
    and nx: "dr_next_harvest r1 = dr_next_harvest r + 1" "dr_entries r1 = dr_entries r" "unat (n + 1) = unat n + 1"
    and rg: "dr_ring r1 = (dr_ring r)[ring_pos r 0 := (dr_ring r ! ring_pos r 0)\<lparr>dg_flags := DIRTY_GFN_F_RESET\<rparr>]"
    and pos: "\<And>i. ring_pos r1 i = ring_pos r (Suc i)"
    using harvest_round [OF Suc.prems] by metis
  have fit: "unat (n + 1) + k < 2 ^ 32" using Suc.prems(3) nx(3) by simp
  obtain r2 s2 where ih: "harvest_loop r1 s1 (n + 1) = (Ok (n + 1 + of_nat k), r2, s2)" "dirty_inv s2"
      "pages_of s2 = pages_of s1 \<union> harvested_pages r1 k" "dp_pages s2 = dp_pages s1"
      "dr_next_harvest r2 = dr_next_harvest r1 + of_nat k" "dr_entries r2 = dr_entries r1"
      "length (dr_ring r2) = length (dr_ring r1)"
    and ring: "\<forall>j<length (dr_ring r1). dr_ring r2 ! j =
         (if \<exists>i<k. j = ring_pos r1 i then (dr_ring r1 ! j)\<lparr>dg_flags := DIRTY_GFN_F_RESET\<rparr> else dr_ring r1 ! j)"
    using Suc.IH [OF inv pub fit] by blast
  have N: "0 < length (dr_ring r)" "Suc k \<le> length (dr_ring r)" using Suc.prems(2) by (auto simp: published_def)
  have ne: "ring_pos r (Suc i) \<noteq> ring_pos r 0" if "i < k" for i
    using mod_shift_neq [of "Suc i" "length (dr_ring r)" "unat (dr_next_harvest r)"] that N(2) by (simp add: ring_pos_def)
  have ex: "(\<exists>i<Suc k. j = ring_pos r i) \<longleftrightarrow> j = ring_pos r 0 \<or> (\<exists>i<k. j = ring_pos r1 i)" for j
    by (simp add: pos Ex_less_Suc2)
  have "harvested_pages r (Suc k) = insert (unat (dg_offset (dr_ring r ! ring_pos r 0))) (harvested_pages r1 k)"
  proof -
    have "dr_ring r1 ! ring_pos r1 i = dr_ring r ! ring_pos r (Suc i)" if "i < k" for i
      using ne [OF that] by (simp add: pos rg)
    then have "harvested_pages r1 k = (\<lambda>i. unat (dg_offset (dr_ring r ! ring_pos r (Suc i)))) ` {..<k}"
      unfolding harvested_pages_def by (intro image_cong) simp_all
    moreover have "{..<Suc k} = insert 0 (Suc ` {..<k})" by (rule lessThan_Suc_eq_insert_0)
    ultimately show ?thesis by (simp add: harvested_pages_def image_image)
  qed
  moreover have "dr_ring r2 ! j = (if \<exists>i<Suc k. j = ring_pos r i then (dr_ring r ! j)\<lparr>dg_flags := DIRTY_GFN_F_RESET\<rparr> else dr_ring r ! j)"
    if "j < length (dr_ring r)" for j
    using ring that ne ne [THEN not_sym] unfolding ex by (auto simp: rg pos)
  ultimately show ?case
    using l ih pg nx rg by (auto simp: algebra_simps)
qed

text \<open>
  C40. Harvesting loses no dirty page and stops. With the guest paused and \<open>k\<close> entries published
  from the cursor on, for guest pages, the harvest terminates having counted exactly \<open>k\<close>; the page
  set then contains exactly the earlier pages and the published ones, its length is their number,
  its iteration lists them in ascending order without repetition, and membership tests agree; the
  cursor moved by \<open>k\<close>, the harvested entries are marked for reset and no other entry changed, so a
  second harvest finds nothing.
\<close>

theorem harvest_exact:
  assumes "dirty_inv s" and "published r s k" and "k < 2 ^ 32"
  shows "\<exists>r' s'. harvest_into r s = (Ok (of_nat k), r', s')
    \<and> unat ` set (dirty_iter s') = unat ` set (dirty_iter s) \<union> harvested_pages r k
    \<and> sorted_wrt (<) (dirty_iter s') \<and> unat (dirty_len s') = length (dirty_iter s')
    \<and> (\<forall>p. dirty_contains p s' = Ok (p \<in> set (dirty_iter s')))
    \<and> dr_next_harvest r' = dr_next_harvest r + of_nat k
    \<and> (\<forall>j<length (dr_ring r). dr_ring r' ! j =
         (if \<exists>i<k. j = ring_pos r i then (dr_ring r ! j)\<lparr>dg_flags := DIRTY_GFN_F_RESET\<rparr> else dr_ring r ! j))
    \<and> harvest_into r' s' = (Ok 0, r', s')"
proof -
  obtain r' s' where h: "harvest_loop r s 0 = (Ok (of_nat k), r', s')" and inv: "dirty_inv s'"
    and pg: "pages_of s' = pages_of s \<union> harvested_pages r k"
    and rr: "dr_next_harvest r' = dr_next_harvest r + of_nat k" "dr_entries r' = dr_entries r" "length (dr_ring r') = length (dr_ring r)"
    and ring: "\<forall>j<length (dr_ring r). dr_ring r' ! j =
         (if \<exists>i<k. j = ring_pos r i then (dr_ring r ! j)\<lparr>dg_flags := DIRTY_GFN_F_RESET\<rparr> else dr_ring r ! j)"
    using harvest_collects [OF assms(1,2), of 0] assms(3) by auto
  have it: "unat ` set (dirty_iter t) = pages_of t" if "dirty_inv t" for t
    using arg_cong [OF dirty_iter_spec [OF that], of set] pages_of_finite [OF that] by simp
  have so: "sorted_wrt (<) (dirty_iter s')"
    using strict_sorted_list_of_set [of "pages_of s'"] dirty_iter_spec [OF inv, symmetric]
    by (auto simp: sorted_wrt_map word_less_nat_alt elim: sorted_wrt_mono_rel [rotated])
  have ln: "unat (dirty_len s') = length (dirty_iter s')"
    using arg_cong [OF dirty_iter_spec [OF inv], of length] inv by (simp add: dirty_len_def dirty_inv_def)
  have mem: "dirty_contains p s' = Ok (p \<in> set (dirty_iter s'))" for p
  proof -
    have "unat p \<in> unat ` set (dirty_iter s') \<longleftrightarrow> p \<in> set (dirty_iter s')" by (auto simp: word_unat_eq_iff [symmetric])
    then show ?thesis using dirty_contains_spec [OF inv, of p] it [OF inv] by simp
  qed
  have "published r' s' 0"
  proof -
    have N: "0 < length (dr_ring r)" "length (dr_ring r) = unat (dr_entries r)" "k \<le> length (dr_ring r)"
      "unat (dr_next_harvest r) + k < 2 ^ 64" using assms(2) unfolding published_def by blast+
    have u: "unat (dr_next_harvest r') = unat (dr_next_harvest r) + k"
      using rr(1) N(4) by (simp add: unat_word_ariths)
    have p: "ring_pos r' 0 = ring_pos r k" using u rr(3) by (simp add: ring_pos_def)
    have "\<not> is_dirty (dr_ring r' ! ring_pos r k)"
    proof (cases "k < length (dr_ring r)")
      case True
      then have "\<not> is_dirty (dr_ring r ! ring_pos r k)" using assms(2) by (simp add: published_def)
      then show ?thesis using ring ring_pos_less [OF N(1)] by simp
    next
      case False
      then have "ring_pos r k = ring_pos r 0" "0 < k" using N by (auto simp: ring_pos_def)
      then show ?thesis using ring ring_pos_less [OF N(1)] by auto
    qed
    then show ?thesis using N u rr(2,3) p by (simp add: published_def)
  qed
  then have "harvest_into r' s' = (Ok 0, r', s')" unfolding harvest_into_def by (rule harvest_idle)
  with h pg it [OF inv] it [OF assms(1)] so ln mem rr ring show ?thesis
    by (auto simp: harvest_into_def)
qed

text \<open>A ring of four with two published entries that wrap around its end.\<close>

definition ex_ring :: DirtyRing where
  "ex_ring = \<lparr>dr_ring = [\<lparr>dg_flags = 1, dg_slot = 0, dg_offset = 5\<rparr>, \<lparr>dg_flags = 0, dg_slot = 0, dg_offset = 0\<rparr>,
      \<lparr>dg_flags = 0, dg_slot = 0, dg_offset = 0\<rparr>, \<lparr>dg_flags = 1, dg_slot = 0, dg_offset = 70\<rparr>],
     dr_next_harvest = 3, dr_entries = 4\<rparr>"

theorem harvest_exact_witness:
  "\<exists>r' s'. harvest_into ex_ring (dirty_new 0x100000) = (Ok 2, r', s') \<and> unat ` set (dirty_iter s') = {5, 70}
     \<and> dr_next_harvest r' = 5 \<and> harvest_into r' s' = (Ok 0, r', s')"
proof -
  let ?s = "dirty_new 0x100000"
  have i: "dirty_inv ?s" "pages_of ?s = {}" using dirty_new_spec by blast+
  have "dp_pages ?s = 256" by (simp add: dirty_new_def u64_div_ceil_def)
  then have p: "published ex_ring ?s 2"
    by (auto simp: published_def ex_ring_def ring_pos_def less_2_cases_iff)
  have h: "harvested_pages ex_ring 2 = {5, 70}"
  proof -
    have "{..<2 :: nat} = {0, 1}" by auto
    then show ?thesis by (auto simp: harvested_pages_def ex_ring_def ring_pos_def)
  qed
  have "unat ` set (dirty_iter ?s) = {}"
    using arg_cong [OF dirty_iter_spec [OF i(1)], of set] i(2) by simp
  with harvest_exact [OF i(1) p] h show ?thesis by (auto simp: ex_ring_def)
qed

end
