(* ===== verification/Xsave.thy ===== *)
theory Xsave
  imports Dh_Prelude
begin

text \<open>
  XSAVE canonicalisation, \<open>crates/dh-vmm/src/xsave.rs\<close>: the byte transform that makes equal register
  state equal bytes. The component layout of the host (CPUID leaf 0xD) is the argument \<open>extended\<close>;
  \<open>debug_assert\<close> and an overflowing shift are panics, and sizes are natural
  numbers, so the checked sum of offset and size always exists and only the bound can fail.
\<close>

unbundle bit_operations_syntax

section \<open>Operations\<close>

record XsaveComponent =
  xc_bit :: u32
  xc_offset :: nat
  xc_size :: nat

datatype XsaveError = XsTooShort nat | ComponentOutOfBounds u32 | CompactedFormat

abbreviation XSAVE_HEADER_OFFSET :: nat where "XSAVE_HEADER_OFFSET \<equiv> 512"
abbreviation XSAVE_MIN_LEN :: nat where "XSAVE_MIN_LEN \<equiv> 576"

definition xstate_bv :: "byte list \<Rightarrow> (u64, XsaveError) res" where
  "xstate_bv area = (if length area < XSAVE_MIN_LEN then Err (XsTooShort (length area)) else rd_u64 area 512)"

definition all_zero :: "byte list \<Rightarrow> bool" where
  "all_zero bs \<longleftrightarrow> list_all (\<lambda>b. b = 0) bs"

definition is_x87_init :: "byte list \<Rightarrow> bool" where
  "is_x87_init area \<longleftrightarrow> bslice area 0 2 = [0x7F, 0x03] \<and> all_zero (bslice area 2 24) \<and> all_zero (bslice area 32 160)"

abbreviation ZERO_INIT_BITS :: u64 where "ZERO_INIT_BITS \<equiv> 2 ^ 2 OR 2 ^ 5 OR 2 ^ 6 OR 2 ^ 7"

text \<open>One round of the loop over the extended components.\<close>

definition ext_step ::
  "byte list \<Rightarrow> u64 \<Rightarrow> XsaveComponent \<Rightarrow> u64 \<times> (nat \<times> nat) list \<Rightarrow> (u64 \<times> (nat \<times> nat) list, XsaveError) res" where
  "ext_step area bv c = (\<lambda>(canon_bv, keep).
     if xc_bit c < 2 then Panic
     else let end = xc_offset c + xc_size c in
     if end > length area then Err (ComponentOutOfBounds (xc_bit c))
     else if xc_bit c \<ge> 64 then Panic
     else let mask = push_bit (unat (xc_bit c)) 1 in
     if bv AND mask \<noteq> 0 then
       (if ZERO_INIT_BITS AND mask \<noteq> 0 \<and> all_zero (bslice area (xc_offset c) end)
        then Ok (canon_bv AND NOT mask, keep)
        else Ok (canon_bv, keep @ [(xc_offset c, end)]))
     else Ok (canon_bv, keep))"

fun ext_loop ::
  "byte list \<Rightarrow> u64 \<Rightarrow> XsaveComponent list \<Rightarrow> u64 \<times> (nat \<times> nat) list \<Rightarrow> (u64 \<times> (nat \<times> nat) list, XsaveError) res" where
  "ext_loop area bv [] acc = Ok acc"
| "ext_loop area bv (c # cs) acc = res_bind (ext_step area bv c acc) (ext_loop area bv cs)"

text \<open>The legacy part of the normalised state bits and of the ranges to keep.\<close>

definition legacy_bv :: "byte list \<Rightarrow> u64 \<Rightarrow> u64" where
  "legacy_bv area bv =
     (let canon_bv = bv;
          canon_bv = (if bv AND 1 \<noteq> 0 \<and> is_x87_init area then canon_bv AND NOT 1 else canon_bv);
          canon_bv = (if bv AND 2 \<noteq> 0 \<and> all_zero (bslice area 160 416) then canon_bv AND NOT 2 else canon_bv)
      in canon_bv)"

definition legacy_keep :: "u64 \<Rightarrow> (nat \<times> nat) list" where
  "legacy_keep canon_bv = [(24, 32)] @ (if canon_bv AND 1 \<noteq> 0 then [(0, 24), (32, 160)] else [])
     @ (if canon_bv AND 2 \<noteq> 0 then [(160, 416)] else [])"

definition copy_keep :: "byte list \<Rightarrow> (nat \<times> nat) list \<Rightarrow> byte list \<Rightarrow> byte list" where
  "copy_keep area keep canon = fold (\<lambda>(a, b) canon. overwrite canon a (bslice area a b)) keep canon"

text \<open>The rebuilt area: zeros, the kept ranges and the header words.\<close>

definition rebuild :: "byte list \<Rightarrow> u64 \<Rightarrow> (nat \<times> nat) list \<Rightarrow> byte list" where
  "rebuild area canon_bv keep =
     (let canon = zeros (length area);
          canon = copy_keep area keep canon;
          canon = overwrite canon 512 (to_le canon_bv);
          canon = overwrite canon 520 (to_le (0 :: u64))
      in canon)"

definition canonicalize :: "byte list \<Rightarrow> XsaveComponent list \<Rightarrow> (byte list, XsaveError) res" where
  "canonicalize area extended =
     res_bind (xstate_bv area) (\<lambda>bv.
     res_bind (rd_u64 area 520) (\<lambda>xcomp_bv.
     if drop_bit 63 xcomp_bv \<noteq> 0 then Err CompactedFormat
     else let canon_bv = legacy_bv area bv in
     res_bind (ext_loop area bv extended (canon_bv, legacy_keep canon_bv)) (\<lambda>(canon_bv, keep).
     Ok (rebuild area canon_bv keep))))"

section \<open>What canonicalisation keeps\<close>

text \<open>The layouts a host reports: distinct extended bits, areas behind the header.\<close>

definition layout_ok :: "XsaveComponent list \<Rightarrow> bool" where
  "layout_ok cs \<longleftrightarrow> distinct (map xc_bit cs) \<and> (\<forall>c\<in>set cs. 2 \<le> xc_bit c \<and> xc_bit c < 64 \<and> XSAVE_MIN_LEN \<le> xc_offset c)"

definition fits :: "XsaveComponent list \<Rightarrow> byte list \<Rightarrow> bool" where
  "fits cs area \<longleftrightarrow> (\<forall>c\<in>set cs. xc_offset c + xc_size c \<le> length area)"

abbreviation area_bv :: "byte list \<Rightarrow> u64" where
  "area_bv area \<equiv> from_le (bslice area 512 520)"

definition comp_bytes :: "XsaveComponent \<Rightarrow> byte list \<Rightarrow> byte list" where
  "comp_bytes c area = bslice area (xc_offset c) (xc_offset c + xc_size c)"

text \<open>A component is live if its bit is set and its area is not the architectural initial state.\<close>

definition live :: "byte list \<Rightarrow> XsaveComponent \<Rightarrow> bool" where
  "live area c \<longleftrightarrow> bit (area_bv area) (unat (xc_bit c))
     \<and> \<not> (bit ZERO_INIT_BITS (unat (xc_bit c)) \<and> all_zero (comp_bytes c area))"

definition x87_live :: "byte list \<Rightarrow> bool" where
  "x87_live area \<longleftrightarrow> bit (area_bv area) 0 \<and> \<not> is_x87_init area"

definition sse_live :: "byte list \<Rightarrow> bool" where
  "sse_live area \<longleftrightarrow> bit (area_bv area) 1 \<and> \<not> all_zero (bslice area 160 416)"

text \<open>The register state an area stands for: absent components are in their initial state.\<close>

record XState =
  xs_mxcsr :: "byte list"
  xs_x87 :: "(byte list \<times> byte list) option"
  xs_sse :: "byte list option"
  xs_ext :: "byte list option list"
  xs_other_bits :: "nat set"

definition xstate :: "XsaveComponent list \<Rightarrow> byte list \<Rightarrow> XState" where
  "xstate cs area =
     \<lparr>xs_mxcsr = bslice area 24 32,
      xs_x87 = (if x87_live area then Some (bslice area 0 24, bslice area 32 160) else None),
      xs_sse = (if sse_live area then Some (bslice area 160 416) else None),
      xs_ext = map (\<lambda>c. if live area c then Some (comp_bytes c area) else None) cs,
      xs_other_bits = {j. bit (area_bv area) j \<and> 2 \<le> j \<and> j \<notin> (\<lambda>c. unat (xc_bit c)) ` set cs}\<rparr>"

lemma mask_bit: "w AND push_bit n 1 \<noteq> 0 \<longleftrightarrow> bit (w :: u64) n" "w AND 2 ^ n \<noteq> 0 \<longleftrightarrow> bit w n"
  by (simp_all add: and_exp_eq_0_iff_not_bit push_bit_of_1)

lemma mask_bit_low: "w AND 1 \<noteq> 0 \<longleftrightarrow> bit (w :: u64) 0" "w AND 2 \<noteq> 0 \<longleftrightarrow> bit (w :: u64) 1"
  using mask_bit(2) [of w 0] mask_bit(2) [of w 1] by simp_all

lemma bit_clear: "bit (w AND NOT (2 ^ n)) j \<longleftrightarrow> bit (w :: u64) j \<and> j \<noteq> n"
  by (auto simp: bit_and_iff bit_not_iff bit_exp_iff dest: bit_imp_le_length)

lemma bit_clear_low: "bit (w AND - 2) j \<longleftrightarrow> bit (w :: u64) j \<and> j \<noteq> 0" "bit (w AND - 3) j \<longleftrightarrow> bit (w :: u64) j \<and> j \<noteq> Suc 0"
  using bit_clear [of w 0 j] bit_clear [of w 1 j] by simp_all

lemma legacy_bv_bit:
  "bit (legacy_bv area bv) j \<longleftrightarrow> bit bv j \<and> (j = 0 \<longrightarrow> \<not> is_x87_init area) \<and> (j = 1 \<longrightarrow> \<not> all_zero (bslice area 160 416))"
  by (auto simp: legacy_bv_def Let_def mask_bit_low bit_clear_low)

text \<open>The ranges to keep, over the state the area stands for.\<close>

definition kept_ranges :: "XsaveComponent list \<Rightarrow> byte list \<Rightarrow> (nat \<times> nat) list" where
  "kept_ranges cs area = legacy_keep (legacy_bv area (area_bv area))
     @ map (\<lambda>c. (xc_offset c, xc_offset c + xc_size c)) (filter (live area) cs)"

text \<open>Which areas of the layout are dropped as initial.\<close>

definition drops :: "byte list \<Rightarrow> XsaveComponent \<Rightarrow> bool" where
  "drops area c \<longleftrightarrow> bit ZERO_INIT_BITS (unat (xc_bit c)) \<and> all_zero (comp_bytes c area)"

lemma live_drops: "live area c \<longleftrightarrow> bit (area_bv area) (unat (xc_bit c)) \<and> \<not> drops area c"
  by (simp add: live_def drops_def)

abbreviation xc_range :: "XsaveComponent \<Rightarrow> nat \<times> nat" where
  "xc_range c \<equiv> (xc_offset c, xc_offset c + xc_size c)"

lemma ext_step_in:
  assumes "2 \<le> xc_bit c" "xc_bit c < 64"
  shows "ext_step area (area_bv area) c (cb, keep) =
    (if length area < xc_offset c + xc_size c then Err (ComponentOutOfBounds (xc_bit c))
     else Ok (if bit (area_bv area) (unat (xc_bit c)) \<and> drops area c then cb AND NOT (push_bit (unat (xc_bit c)) 1) else cb,
              keep @ (if live area c then [xc_range c] else [])))"
  using assms unfolding ext_step_def Let_def mask_bit live_drops drops_def comp_bytes_def by (auto simp: not_le not_less)

lemma ext_loop_in:
  assumes "\<forall>c\<in>set cs. 2 \<le> xc_bit c \<and> xc_bit c < 64"
  shows "ext_loop area (area_bv area) cs (cb, keep) = Ok (cb', keep') \<longleftrightarrow>
     fits cs area \<and> keep' = keep @ map xc_range (filter (live area) cs)
   \<and> (\<forall>j. bit cb' j \<longleftrightarrow> bit cb j \<and> \<not> (bit (area_bv area) j \<and> (\<exists>c\<in>set cs. unat (xc_bit c) = j \<and> drops area c)))"
  using assms
proof (induction cs arbitrary: cb keep)
  case Nil
  then show ?case by (auto simp: fits_def intro: bit_word_eqI)
next
  case (Cons c cs)
  have r: "\<forall>c\<in>set cs. 2 \<le> xc_bit c \<and> xc_bit c < 64" "2 \<le> xc_bit c" "xc_bit c < 64" using Cons.prems by auto
  show ?case
  proof (cases "length area < xc_offset c + xc_size c")
    case True
    then show ?thesis by (simp add: ext_step_in r fits_def)
  next
    case False
    then show ?thesis by (auto simp: ext_step_in r Cons.IH [OF r(1)] fits_def bit_clear)
  qed
qed

lemma copy_keep_nth:
  assumes "\<forall>(a, b)\<in>set keep. a \<le> b \<and> b \<le> length area" "length canon = length area" "i < length area"
  shows "length (copy_keep area keep canon) = length area
    \<and> copy_keep area keep canon ! i = (if \<exists>(a, b)\<in>set keep. a \<le> i \<and> i < b then area ! i else canon ! i)"
  using assms
proof (induction keep arbitrary: canon)
  case (Cons ab keep)
  obtain a b where ab: "ab = (a, b)" "a \<le> b" "b \<le> length area" using Cons.prems(1) by (cases ab) auto
  have l: "length (overwrite canon a (bslice area a b)) = length area" using ab Cons.prems(2) by simp
  have n: "overwrite canon a (bslice area a b) ! i = (if a \<le> i \<and> i < b then area ! i else canon ! i)"
    using ab Cons.prems(2,3) by (auto simp: overwrite_def bslice_def nth_append min_def)
  show ?case using Cons.IH [of "overwrite canon a (bslice area a b)"] Cons.prems l n ab by (auto simp: copy_keep_def)
qed (simp add: copy_keep_def)

text \<open>The positions whose bytes survive, and the normalised bits.\<close>

definition keeps :: "XsaveComponent list \<Rightarrow> byte list \<Rightarrow> nat \<Rightarrow> bool" where
  "keeps cs area i \<longleftrightarrow> 24 \<le> i \<and> i < 32
     \<or> x87_live area \<and> (i < 24 \<or> 32 \<le> i \<and> i < 160)
     \<or> sse_live area \<and> 160 \<le> i \<and> i < 416
     \<or> (\<exists>c\<in>set cs. live area c \<and> xc_offset c \<le> i \<and> i < xc_offset c + xc_size c)"

definition state_bit :: "XsaveComponent list \<Rightarrow> byte list \<Rightarrow> nat \<Rightarrow> bool" where
  "state_bit cs area j \<longleftrightarrow> bit (area_bv area) j \<and> (j = 0 \<longrightarrow> x87_live area) \<and> (j = 1 \<longrightarrow> sse_live area)
     \<and> (\<forall>c\<in>set cs. unat (xc_bit c) = j \<longrightarrow> live area c)"

definition canonical_form :: "XsaveComponent list \<Rightarrow> byte list \<Rightarrow> byte list \<Rightarrow> bool" where
  "canonical_form cs area a' \<longleftrightarrow> length a' = length area
     \<and> (\<forall>j. bit (area_bv a') j \<longleftrightarrow> state_bit cs area j) \<and> bslice a' 520 528 = to_le (0 :: u64)
     \<and> (\<forall>i<length area. i < 512 \<or> 528 \<le> i \<longrightarrow> a' ! i = (if keeps cs area i then area ! i else 0))"

text \<open>The areas that can be canonicalised: long enough, in standard format, covering the layout.\<close>

definition area_ok :: "XsaveComponent list \<Rightarrow> byte list \<Rightarrow> bool" where
  "area_ok cs area \<longleftrightarrow> XSAVE_MIN_LEN \<le> length area \<and> drop_bit 63 (from_le (bslice area 520 528) :: u64) = 0 \<and> fits cs area"

lemma legacy_live:
  "bit (legacy_bv area (area_bv area)) 0 \<longleftrightarrow> x87_live area" "bit (legacy_bv area (area_bv area)) (Suc 0) \<longleftrightarrow> sse_live area"
  by (simp_all add: legacy_bv_bit x87_live_def sse_live_def)

lemma canonicalize_unfold:
  assumes "layout_ok cs"
  shows "canonicalize area cs = Ok a' \<longleftrightarrow> area_ok cs area
    \<and> (\<exists>cb. (\<forall>j. bit cb j \<longleftrightarrow> state_bit cs area j) \<and> a' = rebuild area cb (kept_ranges cs area))"
proof -
  let ?bv = "area_bv area" and ?cb0 = "legacy_bv area (area_bv area)"
  have l: "\<forall>c\<in>set cs. 2 \<le> xc_bit c \<and> xc_bit c < 64" using assms by (simp add: layout_ok_def)
  have two: "2 \<le> unat (xc_bit c)" if "c \<in> set cs" for c using l that by (simp add: word_le_nat_alt)
  have b: "bit ?cb0 j \<and> (bit ?bv j \<longrightarrow> (\<forall>c\<in>set cs. unat (xc_bit c) = j \<longrightarrow> \<not> drops area c)) \<longleftrightarrow> state_bit cs area j" for j
    using two by (auto simp: legacy_bv_bit state_bit_def x87_live_def sse_live_def live_drops)
  show ?thesis
    by (auto simp: canonicalize_def xstate_bv_def area_ok_def Let_def ext_loop_in [OF l] b not_less kept_ranges_def split: if_splits)
qed

lemma keep_positions:
  "(\<exists>(a, b)\<in>set (kept_ranges cs area). a \<le> i \<and> i < b) \<longleftrightarrow> keeps cs area i"
  by (auto simp: kept_ranges_def legacy_keep_def mask_bit_low legacy_live keeps_def split: if_splits)

lemma canonicalize_form:
  assumes "layout_ok cs" and "canonicalize area cs = Ok a'"
  shows "area_ok cs area" and "canonical_form cs area a'"
proof -
  let ?c = "copy_keep area (kept_ranges cs area) (zeros (length area))"
  obtain cb where ok: "area_ok cs area" and cb: "\<forall>j. bit cb j \<longleftrightarrow> state_bit cs area j"
    and a': "a' = overwrite (overwrite ?c 512 (to_le (cb :: u64))) 520 (to_le (0 :: u64))"
    using assms(2) unfolding canonicalize_unfold [OF assms(1)] rebuild_def Let_def by blast
  show "area_ok cs area" by fact
  have len: "XSAVE_MIN_LEN \<le> length area" and fit: "fits cs area" using ok by (auto simp: area_ok_def)
  have r: "\<forall>(a, b)\<in>set (kept_ranges cs area). a \<le> b \<and> b \<le> length area"
    using len fit by (auto simp: kept_ranges_def legacy_keep_def fits_def split: if_splits)
  have c: "length ?c = length area" "\<And>i. i < length area \<Longrightarrow> ?c ! i = (if keeps cs area i then area ! i else 0)"
    using copy_keep_nth [OF r, of "zeros (length area)"] copy_keep_nth [OF r, of "zeros (length area)" 100] len
    unfolding keep_positions by auto
  have "bslice a' 512 520 = to_le cb" "bslice a' 520 528 = to_le (0 :: u64)"
    using c(1) len by (simp_all add: a' wire)
  then show "canonical_form cs area a'"
    using c len cb by (auto simp: canonical_form_def a' nth_overwrite)
qed

lemma bslice_eq_iff:
  "j \<le> length xs \<Longrightarrow> j \<le> length ys \<Longrightarrow> bslice xs i j = bslice ys i j \<longleftrightarrow> (\<forall>k. i \<le> k \<and> k < j \<longrightarrow> xs ! k = ys ! k)"
proof -
  assume l: "j \<le> length xs" "j \<le> length ys"
  have "bslice xs i j = bslice ys i j \<longleftrightarrow> (\<forall>k<j - i. xs ! (i + k) = ys ! (i + k))"
    using l by (auto simp: list_eq_iff_nth_eq bslice_def min_def)
  also have "\<dots> \<longleftrightarrow> (\<forall>k. i \<le> k \<and> k < j \<longrightarrow> xs ! k = ys ! k)"
    by (metis add.commute le_add1 less_diff_conv nat_le_iff_add)
  finally show ?thesis .
qed

text \<open>Slices whose positions are kept read the same in the canonical form.\<close>

lemma canonical_slice:
  assumes "canonical_form cs area a'" "j \<le> length area" "\<forall>k. i \<le> k \<and> k < j \<longrightarrow> keeps cs area k \<and> (k < 512 \<or> 528 \<le> k)"
  shows "bslice a' i j = bslice area i j"
  using assms by (subst bslice_eq_iff) (auto simp: canonical_form_def)

lemma canonical_live:
  assumes "layout_ok cs" "canonical_form cs area a'" "fits cs area" "c \<in> set cs"
  shows "live a' c \<longleftrightarrow> live area c" and "live area c \<Longrightarrow> comp_bytes c a' = comp_bytes c area"
proof -
  have off: "XSAVE_MIN_LEN \<le> xc_offset c" "xc_offset c + xc_size c \<le> length area" "2 \<le> xc_bit c"
    using assms by (auto simp: layout_ok_def fits_def)
  have two: "2 \<le> unat (xc_bit c)" using off(3) by (simp add: word_le_nat_alt)
  have only: "d = c" if "d \<in> set cs" "unat (xc_bit d) = unat (xc_bit c)" for d
    using that assms(1,4) by (auto simp: layout_ok_def distinct_map inj_on_def word_unat_eq_iff)
  show eq: "comp_bytes c a' = comp_bytes c area" if "live area c"
    unfolding comp_bytes_def using assms(4) off that by (intro canonical_slice [OF assms(2)]) (auto simp: keeps_def)
  have "bit (area_bv a') (unat (xc_bit c)) \<longleftrightarrow> state_bit cs area (unat (xc_bit c))"
    using assms(2) by (simp add: canonical_form_def)
  also have "\<dots> \<longleftrightarrow> live area c" using only assms(4) two by (auto simp: state_bit_def live_drops)
  finally show "live a' c \<longleftrightarrow> live area c" using eq by (auto simp: live_def)
qed

lemma canonical_legacy:
  assumes "canonical_form cs area a'" "XSAVE_MIN_LEN \<le> length area" "layout_ok cs"
  shows "x87_live a' \<longleftrightarrow> x87_live area" and "sse_live a' \<longleftrightarrow> sse_live area"
proof -
  have two: "2 \<le> unat (xc_bit c)" if "c \<in> set cs" for c using assms(3) that by (simp add: layout_ok_def word_le_nat_alt)
  have b: "bit (area_bv a') j \<longleftrightarrow> state_bit cs area j" for j using assms(1) by (simp add: canonical_form_def)
  have "bslice a' 0 2 = bslice area 0 2 \<and> bslice a' 2 24 = bslice area 2 24 \<and> bslice a' 32 160 = bslice area 32 160" if "x87_live area"
    using that assms(2) by (intro conjI canonical_slice [OF assms(1)]) (auto simp: keeps_def)
  then show "x87_live a' \<longleftrightarrow> x87_live area"
    using two by (fastforce simp: x87_live_def [of a'] b state_bit_def is_x87_init_def x87_live_def)
  have "bslice a' 160 416 = bslice area 160 416" if "sse_live area"
    using that assms(2) by (intro canonical_slice [OF assms(1)]) (auto simp: keeps_def)
  then show "sse_live a' \<longleftrightarrow> sse_live area"
    using two by (fastforce simp: sse_live_def [of a'] b state_bit_def sse_live_def)
qed

lemma canonical_state:
  assumes "layout_ok cs" "canonical_form cs area a'" "area_ok cs area"
  shows "xstate cs a' = xstate cs area"
proof -
  have l: "XSAVE_MIN_LEN \<le> length area" "fits cs area" using assms(3) by (auto simp: area_ok_def)
  have "bslice a' 24 32 = bslice area 24 32"
    "x87_live area \<Longrightarrow> bslice a' 0 24 = bslice area 0 24 \<and> bslice a' 32 160 = bslice area 32 160"
    "sse_live area \<Longrightarrow> bslice a' 160 416 = bslice area 160 416"
    using l(1) by ((intro conjI canonical_slice [OF assms(2)]; auto simp: keeps_def)+)
  moreover have "bit (area_bv a') j \<longleftrightarrow> bit (area_bv area) j" if "2 \<le> j" "j \<notin> (\<lambda>c. unat (xc_bit c)) ` set cs" for j
    using that assms(2) by (auto simp: canonical_form_def state_bit_def)
  ultimately show ?thesis
    using canonical_live [OF assms(1,2) l(2)] canonical_legacy [OF assms(2) l(1) assms(1)] by (auto simp: xstate_def)
qed

text \<open>The canonical form depends on the state only.\<close>

lemma same_state:
  assumes "xstate cs a = xstate cs b"
  shows "x87_live a = x87_live b" "sse_live a = sse_live b" "bslice a 24 32 = bslice b 24 32"
    "x87_live a \<Longrightarrow> bslice a 0 24 = bslice b 0 24 \<and> bslice a 32 160 = bslice b 32 160"
    "sse_live a \<Longrightarrow> bslice a 160 416 = bslice b 160 416"
    "c \<in> set cs \<Longrightarrow> live a c = live b c" "c \<in> set cs \<Longrightarrow> live a c \<Longrightarrow> comp_bytes c a = comp_bytes c b"
    "2 \<le> j \<Longrightarrow> j \<notin> (\<lambda>c. unat (xc_bit c)) ` set cs \<Longrightarrow> bit (area_bv a) j = bit (area_bv b) j"
  using assms unfolding xstate_def by (auto split: if_splits)

lemma same_state_bits:
  assumes "layout_ok cs" "xstate cs a = xstate cs b"
  shows "state_bit cs a j = state_bit cs b j"
proof -
  note e = same_state [OF assms(2)]
  have two: "2 \<le> unat (xc_bit c)" if "c \<in> set cs" for c using assms(1) that by (simp add: layout_ok_def word_le_nat_alt)
  have s: "state_bit cs x j \<longleftrightarrow> (if j = 0 then x87_live x else if j = 1 then sse_live x
      else if j \<in> (\<lambda>c. unat (xc_bit c)) ` set cs then \<forall>c\<in>set cs. unat (xc_bit c) = j \<longrightarrow> live x c else bit (area_bv x) j)" for x
    using two by (auto simp: state_bit_def x87_live_def sse_live_def live_def)
  have "2 \<le> j" if "j \<noteq> 0" "j \<noteq> 1" using that by simp
  then show ?thesis unfolding s using e(1,2,6,8) by auto
qed

lemma same_state_bytes:
  assumes "xstate cs a = xstate cs b" "area_ok cs a" "area_ok cs b" "keeps cs a i"
  shows "a ! i = b ! i"
proof -
  note e = same_state [OF assms(1)]
  have l: "XSAVE_MIN_LEN \<le> length a" "XSAVE_MIN_LEN \<le> length b" using assms(2,3) by (auto simp: area_ok_def)
  have at: "a ! i = b ! i" if "bslice a m n = bslice b m n" "n \<le> length a" "n \<le> length b" "m \<le> i" "i < n" for m n
    using that bslice_eq_iff [of n a b m] by blast
  consider "24 \<le> i" "i < 32" | "x87_live a" "i < 24" | "x87_live a" "32 \<le> i" "i < 160" | "sse_live a" "160 \<le> i" "i < 416"
    | c where "c \<in> set cs" "live a c" "xc_offset c \<le> i" "i < xc_offset c + xc_size c"
    using assms(4) unfolding keeps_def by blast
  then show ?thesis
  proof cases
    case 1 then show ?thesis using e(3) l by (intro at [of 24 32]) auto
  next
    case 2 then show ?thesis using e(4) l by (intro at [of 0 24]) auto
  next
    case 3 then show ?thesis using e(4) l by (intro at [of 32 160]) auto
  next
    case 4 then show ?thesis using e(5) l by (intro at [of 160 416]) auto
  next
    case 5 then show ?thesis
      using e(7) assms(2,3) by (intro at [of "xc_offset c" "xc_offset c + xc_size c"]) (auto simp: comp_bytes_def area_ok_def fits_def)
  qed
qed

lemma canonical_unique:
  assumes "layout_ok cs" "xstate cs a = xstate cs b" "area_ok cs a" "area_ok cs b" "length a = length b"
    and "canonical_form cs a a'" "canonical_form cs b b'"
  shows "a' = b'"
proof (rule nth_equalityI)
  have len: "length a' = length a" "length b' = length a" "XSAVE_MIN_LEN \<le> length a"
    using assms by (auto simp: canonical_form_def area_ok_def)
  show "length a' = length b'" using len by simp
  have "area_bv a' = area_bv b'"
    using assms(6,7) same_state_bits [OF assms(1,2)] by (auto simp: canonical_form_def intro!: bit_word_eqI)
  then have "to_le (area_bv a') = to_le (area_bv b')" by (rule arg_cong)
  moreover have "length (bslice a' 512 520) = 8" "length (bslice b' 512 520) = 8" using len by simp_all
  ultimately have h: "bslice a' 512 520 = bslice b' 512 520" by (simp only: to_le_from_le_u64)
  have h2: "bslice a' 520 528 = bslice b' 520 528" using assms(6,7) by (simp add: canonical_form_def)
  have k: "keeps cs a i = keeps cs b i" for i using same_state [OF assms(2)] by (auto simp: keeps_def)
  fix i assume "i < length a'"
  then consider "512 \<le> i" "i < 520" | "520 \<le> i" "i < 528" | "i < length a" "i < 512 \<or> 528 \<le> i" using len by fastforce
  then show "a' ! i = b' ! i"
  proof cases
    case 1 then show ?thesis using h len bslice_eq_iff [of 520 a' b' 512] by simp
  next
    case 2 then show ?thesis using h2 len bslice_eq_iff [of 528 a' b' 520] by simp
  next
    case 3 then show ?thesis
      using assms(5-7) k same_state_bytes [OF assms(2-4)] by (auto simp: canonical_form_def)
  qed
qed

lemma canonicalize_total:
  assumes "layout_ok cs" "area_ok cs area"
  obtains a' where "canonicalize area cs = Ok a'"
proof -
  have l: "\<forall>c\<in>set cs. 2 \<le> xc_bit c \<and> xc_bit c < 64" using assms(1) by (simp add: layout_ok_def)
  have "\<exists>r. ext_loop area (area_bv area) xs acc = Ok r" if "set xs \<subseteq> set cs" for xs acc
    using that l assms(2) by (induction xs arbitrary: acc) (auto simp: ext_step_in area_ok_def fits_def not_less split: prod.split)
  then have "\<exists>a'. canonicalize area cs = Ok a'"
    using assms(2) by (fastforce simp: canonicalize_def xstate_bv_def area_ok_def Let_def split: prod.split)
  then show thesis using that by blast
qed

lemma canonicalize_errors:
  assumes "layout_ok cs"
  shows "canonicalize area cs \<noteq> Panic"
proof -
  have l: "\<forall>c\<in>set cs. 2 \<le> xc_bit c \<and> xc_bit c < 64" using assms(1) by (simp add: layout_ok_def)
  have e: "ext_loop area (area_bv area) xs acc \<noteq> Panic" if "set xs \<subseteq> set cs" for xs acc
    using that l by (induction xs arbitrary: acc) (auto simp: ext_step_in res_bind_eq_Panic split: prod.split if_splits)
  show ?thesis using e [of cs]
    by (auto simp: canonicalize_def xstate_bv_def Let_def res_bind_eq_Panic split: prod.split)
qed

text \<open>
  Canonical bytes are the register state. For the component layout of a host, canonicalising
  accepts exactly the areas that are long enough, in standard format and cover the layout, and never
  panics; the result has the same length and stands for the same register state; two areas of one
  length become equal bytes exactly when they stand for the same state, however their unused bytes
  and their initial components are encoded; and canonicalising again changes nothing.
\<close>

theorem xsave_canonical:
  assumes "layout_ok cs"
  shows "((\<exists>a'. canonicalize a cs = Ok a') \<longleftrightarrow> area_ok cs a) \<and> canonicalize a cs \<noteq> Panic
    \<and> (\<forall>a'. canonicalize a cs = Ok a' \<longrightarrow>
         length a' = length a \<and> xstate cs a' = xstate cs a \<and> canonicalize a' cs = Ok a'
       \<and> (\<forall>b b'. canonicalize b cs = Ok b' \<and> length b = length a \<longrightarrow> (a' = b' \<longleftrightarrow> xstate cs a = xstate cs b)))"
proof (intro conjI allI impI iffI)
  fix a' assume a: "canonicalize a cs = Ok a'"
  note f = canonicalize_form [OF assms a]
  show len: "length a' = length a" using f(2) by (simp add: canonical_form_def)
  show st: "xstate cs a' = xstate cs a" by (rule canonical_state [OF assms f(2,1)])
  have "area_ok cs a'"
    using f by (auto simp: area_ok_def canonical_form_def fits_def)
  then obtain a'' where a'': "canonicalize a' cs = Ok a''" using canonicalize_total [OF assms] by blast
  note g = canonicalize_form [OF assms a'']
  have "a'' = a'" using canonical_unique [OF assms st g(1) f(1) len g(2) f(2)] .
  then show "canonicalize a' cs = Ok a'" using a'' by simp
  fix b b' assume "canonicalize b cs = Ok b' \<and> length b = length a"
  then have b: "canonicalize b cs = Ok b'" "length a = length b" by auto
  note h = canonicalize_form [OF assms b(1)]
  { assume "a' = b'" then show "xstate cs a = xstate cs b" using st canonical_state [OF assms h(2,1)] by simp }
  { assume "xstate cs a = xstate cs b" then show "a' = b'" by (rule canonical_unique [OF assms _ f(1) h(1) b(2) f(2) h(2)]) }
qed (use canonicalize_form [OF assms] canonicalize_total [OF assms] canonicalize_errors [OF assms] in blast)+

text \<open>An area of a host with the AVX component: garbage in the gaps, x87 reported present but initial.\<close>

definition ex_layout :: "XsaveComponent list" where
  "ex_layout = [\<lparr>xc_bit = 2, xc_offset = 576, xc_size = 256\<rparr>]"

definition ex_area :: "byte \<Rightarrow> u64 \<Rightarrow> byte list" where
  "ex_area junk bv = [0x7F, 0x03] @ zeros 22 @ [1, 2, 3, 4, 5, 6, 7, 8] @ zeros 128 @ replicate 256 9 @ replicate 96 junk
     @ to_le bv @ zeros 8 @ replicate 48 junk @ zeros 256"

lemma ex_area_slices:
  "length (ex_area junk bv) = 832" "bslice (ex_area junk bv) 0 2 = [0x7F, 0x03]" "bslice (ex_area junk bv) 2 24 = zeros 22"
  "bslice (ex_area junk bv) 24 32 = [1, 2, 3, 4, 5, 6, 7, 8]" "bslice (ex_area junk bv) 32 160 = zeros 128"
  "bslice (ex_area junk bv) 160 416 = replicate 256 9" "bslice (ex_area junk bv) 512 520 = to_le bv"
  "bslice (ex_area junk bv) 520 528 = zeros 8" "bslice (ex_area junk bv) 576 832 = zeros 256"
  by (simp_all add: ex_area_def bslice_def)

lemma ex_layout_ok: "layout_ok ex_layout" "area_ok ex_layout (ex_area junk bv)"
  by (simp_all add: layout_ok_def ex_layout_def area_ok_def fits_def ex_area_slices from_le_def)

lemma ex_state: "xstate ex_layout (ex_area junk 7) = xstate ex_layout (ex_area junk' 2)"
proof -
  have z: "all_zero (zeros n)" for n by (simp add: all_zero_def list_all_iff)
  have b: "bit (2 :: u64) 0 = False" "bit (7 :: u64) 1" "bit (2 :: u64) 1" "\<not> bit (2 :: u64) 2" "bit ZERO_INIT_BITS 2"
    by (simp_all add: bit_numeral_rec)
  have hi: "\<not> bit (7 :: u64) j" "\<not> bit (2 :: u64) j" if "2 \<le> j" "j \<noteq> 2" for j
    using that by (auto simp: bit_numeral_rec bit_1_iff split: nat.splits)
  show ?thesis
    using z b hi by (auto simp: xstate_def x87_live_def sse_live_def live_def comp_bytes_def ex_layout_def ex_area_slices is_x87_init_def)
qed

theorem xsave_canonical_witness:
  "\<exists>a'. canonicalize (ex_area 0xAA 7) ex_layout = Ok a' \<and> canonicalize (ex_area 0 2) ex_layout = Ok a'"
proof -
  have "length (ex_area 0 2) = length (ex_area 0xAA 7)" by (simp add: ex_area_slices)
  then show ?thesis
    using xsave_canonical [OF ex_layout_ok(1), of "ex_area 0xAA 7"] xsave_canonical [OF ex_layout_ok(1), of "ex_area 0 2"]
      ex_layout_ok(2) ex_state [of "0xAA" 0] by blast
qed

end
