(* ===== verification/Spec2Isabelle.thy ===== *)
theory Spec2Isabelle
  imports Splice Snap_Sections Agenda Blkfile Mmio_Bus Detchannel Slot_Invariant Lapic Bisection_Index Inject
    Run_Timer Dirty_Ring Xsave
begin

text \<open>
  A verification library for the determinism hypervisor (\<open>src/\<close>).

  The program runs a guest under KVM so that a run is a function of a base snapshot and an input
  log. A worker (\<open>crates/dh-worker\<close>) leases slots; a slot runs its guest in segments. Run control
  (\<open>crates/dh-vmm\<close>) compiles a request into an agenda of instruction counts, lands the vCPU exactly
  on each of them, applies inputs and injects interrupts there. The guest sees only deterministic
  devices (\<open>crates/dh-devices\<close>), whose every nondeterministic answer is a record of the input log
  (\<open>crates/dh-inputlog\<close>). Between segments the state is a snapshot container
  (\<open>crates/dh-snapshot\<close>), and page tracking says which memory changed.

  \<^bold>\<open>Conventions.\<close> \<open>Dh_Prelude\<close> holds the shared vocabulary. Rust integers are words of their width,
  \<open>usize\<close> is \<open>nat\<close>. A \<open>Result\<close> is \<open>Ok\<close> or \<open>Err\<close> of the type \<open>res\<close>, whose third value \<open>Panic\<close> stands for
  every panic of the source: failed index, \<open>unwrap\<close>, overflow of an unchecked sum. A method on
  \<open>&mut self\<close> takes the state and returns the result with the state afterwards, so that what a failed
  call leaves behind is visible. Code outside \<open>src/\<close> (BLAKE3, ChaCha20, the guest channel crates,
  KVM and perf system calls, guest memory, host files) is an argument of the definitions that
  call it, usually a record of operations; what the code relies on is a named law or a locale.

  \<^bold>\<open>Input log.\<close>
  \<^item> \<open>Dhilog\<close> is \<open>dhilog.rs\<close>: the header, \<open>LogWriter\<close> with one operation for each record kind, and \<open>seal\<close>.
  \<^item> \<open>Log_Reader\<close> is \<open>reader.rs\<close>: \<open>LogReader::parse\<close>, the record iterator, the typed views and
    \<open>parse_unsealed\<close>. The parser accepts exactly the well-formed logs, no bytes make either reader
    panic, and the inspection reader returns the longest valid prefix.
  \<^item> \<open>Log_Roundtrip\<close> relates the two over any sequence of writer calls: what was accepted is what is
    read back, in order, and a refused append changes nothing.
  \<^item> \<open>Splice\<close> is \<open>splice.rs\<close>: extending a lineage one segment at a time is building it at once, and
    its segments chain end to start.
  \<^item> \<open>Bisection_Index\<close> is \<open>bisection_index.rs\<close> of the worker: the checkpoint selected from a log is
    one that the log's epoch records support.

  \<^bold>\<open>Snapshots.\<close>
  \<^item> \<open>Dhsnap\<close> and \<open>Snap_Sections\<close> are \<open>dhsnap.rs\<close>: the container accepts exactly the canonical
    encodings; the locale \<open>fixed_codec\<close> is the contract of a fixed-length section, interpreted for
    \<open>TIME\<close>, \<open>ENTR\<close> v1 and v2 and \<open>LAPC\<close>.
  \<^item> \<open>Machine_Config\<close> and \<open>Cmdline\<close> are \<open>config.rs\<close>: the canonical encoding whose hash names a machine,
    its decoder, and the kernel command line. The locale \<open>stream_codec\<close> is the contract of a field
    reader, interpreted for every field.
  \<^item> \<open>Xsave\<close> is \<open>xsave.rs\<close>: areas that stand for the same register state canonicalise to the same
    bytes and the state is kept.

  \<^bold>\<open>Time and run control.\<close>
  \<^item> \<open>Vt\<close> is \<open>vt.rs\<close>: the conversions between instruction counts and virtual time are adjoint.
  \<^item> \<open>Agenda\<close> is \<open>agenda.rs\<close>: the streaming iterator yields the specified sorted stop points.
  \<^item> \<open>Boundary\<close> is \<open>boundary.rs\<close>, with the calls it makes into \<open>counter.rs\<close> and \<open>run.rs\<close>. Soundness of a
    landing needs only that guest-debug requests are applied, that the other calls leave single-step
    alone and that the exit handler forges no overshoot. That a landing arrives is proved for hosts
    that meet \<open>call_laws\<close> and \<open>run_laws\<close>: an overflow fires at most the skid margin late, a
    single-step entry retires one instruction, exits and kicks are finitely many without progress, and
    while \<open>immediate_exit\<close> is set an entry retires nothing.
  \<^item> \<open>Inject\<close> is \<open>inject.rs\<close>: the vector is queued at the first count whose guest state accepts it.
    The law \<open>window_laws\<close> ties the bytes that KVM reports to the guest's interrupt state.
  \<^item> \<open>Run_Timer\<close> is the planning part of \<open>runctl.rs\<close>: the armed timer becomes an injection at the
    right count and the agenda has it there.
  \<^item> \<open>Lapic\<close> and \<open>Msr_Policy\<close> are \<open>lapic.rs\<close> and \<open>msr.rs\<close>; the locale \<open>vector_store\<close> is the contract
    of the 256-bit request and service registers.
  \<^item> \<open>Dirty_Ring\<close> is \<open>dirty.rs\<close>: a harvest adds exactly the published pages.

  \<^bold>\<open>Devices.\<close>
  \<^item> \<open>Dev_Ctx\<close> is \<open>ctx.rs\<close>: the context of one exit with the log behind it. Its locales are the
    contracts of guest memory (\<open>guest_mem\<close>: what was written is read back, and a write, failed or
    not, changes nothing outside its range) and of device sections (\<open>det_section\<close>,
    \<open>canonical_section\<close>).
  \<^item> \<open>Pv_Clock\<close>, \<open>Pv_Pad\<close>, \<open>Pv_Entropy\<close>, \<open>Pv_Net\<close>, \<open>Debug_Serial\<close> and \<open>Pv_Blk\<close> are the devices, each with
    its registers, its effects and its section; each interprets the section contract.
  \<^item> \<open>Blkfile\<close> is \<open>blkfile.rs\<close>; it interprets \<open>block_base\<close>, the contract under which \<open>Pv_Blk\<close> shows
    that the copy-on-write overlay refines a disk.
  \<^item> \<open>Mmio_Bus\<close> is \<open>bus.rs\<close>: dispatch by binary search is the scan of the windows, and a guest write
    touches one device and appends at most one record.
  \<^item> \<open>Detchannel\<close> is \<open>detchannel.rs\<close>: every answer to a port read is logged once, and the \<open>EVTC\<close>
    section restores every reachable host and refuses hostile bytes without effect.

  \<^bold>\<open>Slots.\<close> \<open>Slot_State\<close> is the state machine of \<open>crates/dh-vmm/src/lib.rs\<close>; \<open>Slot_Manager\<close> is
  \<open>slot_manager.rs\<close>; \<open>Slot_Invariant\<close> proves the fork accounting and the expiry reaper for every
  sequence of calls.

  \<^bold>\<open>Loops.\<close> A loop over bytes or entries is a function with a termination proof. A loop that the host
  or a long agenda could keep running (\<open>agenda_collect\<close>, \<open>land_loop\<close>, \<open>entry_loop\<close>, \<open>inject_loop\<close>) is
  a partial function whose value \<open>None\<close> is not returning; the agenda, landing and injection
  properties prove that it returns. No definition uses fuel.

  \<^bold>\<open>Not modelled.\<close> The walk of \<open>run_segment_inner\<close> along its agenda and the exit dispatch of
  \<open>recording.rs\<close>; KVM bring-up, the boot loaders, CPUID masking, vCPU capture, the TSC and the
  state-hash chain, which are sequences of system calls over kernel structures; the worker's
  services, engines, actors and image cache, which are asynchronous I/O; the report types of
  \<open>crates/dh-verify\<close>, the protocol bindings and the command-line tool. Error texts are not modelled.
  Block-device refinement is shown for an owned base image and the vector-backed guest memory; the
  channel counters of \<open>Detchannel\<close> wrap as in a release build.
\<close>

end
